(* ===== verification/Prelude.thy ===== *)
theory Prelude
  imports Main "HOL-Library.Word"
begin

text \<open>
  What the components share: the machine integers of the source as words of their width,
  Rust's saturating arithmetic on them, the iterator methods the source uses
  (\<open>position\<close>, \<open>min\<close>, \<open>max\<close>, \<open>min_by_key\<close>) as functions on lists, and generic lemmas on
  lists that are updated by index.

  The release build of the source wraps on overflow of a plain \<open>+\<close>, \<open>-\<close> or \<open>*\<close>, and so does
  the arithmetic of \<open>'a word\<close>: a plain operator of the source is the same operator here.
\<close>

section \<open>Machine integers\<close>

type_synonym u8 = "8 word"
type_synonym u16 = "16 word"
type_synonym u32 = "32 word"
type_synonym u64 = "64 word"
type_synonym u128 = "128 word"

text \<open>
  Facts a component's proofs rewrite with: \<open>rust_arith\<close> turns the saturating operations into
  arithmetic on natural numbers.
\<close>

named_theorems rust_arith

definition saturating_add :: "'a::len word \<Rightarrow> 'a word \<Rightarrow> 'a word" where
  "saturating_add a b = (if unat a + unat b < 2 ^ LENGTH('a) then a + b else - 1)"

definition saturating_sub :: "'a::len word \<Rightarrow> 'a word \<Rightarrow> 'a word" where
  "saturating_sub a b = (if b \<le> a then a - b else 0)"

definition saturating_mul :: "'a::len word \<Rightarrow> 'a word \<Rightarrow> 'a word" where
  "saturating_mul a b = (if unat a * unat b < 2 ^ LENGTH('a) then a * b else - 1)"

text \<open>\<open>i64::saturating_add\<close> and \<open>saturating_sub\<close>: the signed counters are integers kept in range.\<close>

definition i64_max :: int where
  "i64_max = 2 ^ 63 - 1"

definition i64_min :: int where
  "i64_min = - (2 ^ 63)"

definition i64_saturating_add :: "int \<Rightarrow> int \<Rightarrow> int" where
  "i64_saturating_add a b = max i64_min (min i64_max (a + b))"

definition i64_saturating_sub :: "int \<Rightarrow> int \<Rightarrow> int" where
  "i64_saturating_sub a b = max i64_min (min i64_max (a - b))"

lemma unat_minus_one_word [rust_arith]: "unat (- 1 :: 'w::len word) = 2 ^ LENGTH('w) - 1"
  by (simp add: unsigned_minus_1_eq_mask mask_eq_exp_minus_1)

lemma unat_saturating_add [rust_arith]:
  "unat (saturating_add a b) = min (unat a + unat b) (2 ^ LENGTH('a) - 1)"
  for a b :: "'a::len word"
  by (auto simp: saturating_add_def unat_minus_one_word unat_word_ariths min_def)

lemma unat_saturating_sub [rust_arith]: "unat (saturating_sub a b) = unat a - unat b"
  for a b :: "'a::len word"
  by (auto simp: saturating_sub_def unat_sub word_le_nat_alt)

lemma unat_saturating_mul [rust_arith]:
  "unat (saturating_mul a b) = min (unat a * unat b) (2 ^ LENGTH('a) - 1)"
  for a b :: "'a::len word"
proof -
  have "unat a * unat b < 2 ^ LENGTH('a) \<longleftrightarrow> unat a * unat b \<le> 2 ^ LENGTH('a) - 1"
    using zero_less_power [of "2 :: nat" "LENGTH('a)"] by linarith
  then show ?thesis
    by (auto simp: saturating_mul_def unat_minus_one_word unat_word_ariths min_def)
qed

lemma unat_ucast_64_128 [rust_arith, simp]: "unat (ucast (x :: u64) :: u128) = unat x"
  by (simp add: unsigned_ucast_eq take_bit_nat_eq_self_iff)
     (rule order_less_trans [OF unsigned_less], simp)

lemma unat_ucast_32_128 [rust_arith, simp]: "unat (ucast (x :: u32) :: u128) = unat x"
  by (simp add: unsigned_ucast_eq take_bit_nat_eq_self_iff)
     (rule order_less_trans [OF unsigned_less], simp)

lemma unat_ucast_32_64 [rust_arith, simp]: "unat (ucast (x :: u32) :: u64) = unat x"
  by (simp add: unsigned_ucast_eq take_bit_nat_eq_self_iff)
     (rule order_less_trans [OF unsigned_less], simp)

lemma unat_ucast_128_64: "unat (x :: u128) < 2 ^ 64 \<Longrightarrow> unat (ucast x :: u64) = unat x"
  by (simp add: unsigned_ucast_eq take_bit_nat_eq_self_iff)

lemma unat_add_no_wrap: "unat a + unat b < 2 ^ LENGTH('a) \<Longrightarrow> unat (a + b) = unat a + unat b"
  for a b :: "'a::len word"
  by (simp add: unat_word_ariths)

lemma unat_mult_no_wrap: "unat a * unat b < 2 ^ LENGTH('a) \<Longrightarrow> unat (a * b) = unat a * unat b"
  for a b :: "'a::len word"
  by (simp add: unat_word_ariths)

lemma word_gt_0_unat: "0 < w \<longleftrightarrow> 0 < unat w" for w :: "'a::len word"
  by (simp add: word_less_nat_alt)

lemma unat_max_word: "unat (max a b) = max (unat a) (unat b)" for a b :: "'a::len word"
  by (simp add: max_def word_le_nat_alt)

lemma unat_min_word: "unat (min a b) = min (unat a) (unat b)" for a b :: "'a::len word"
  by (simp add: min_def word_le_nat_alt)

lemma div_carry: "0 < w \<Longrightarrow> x div w + (x mod w + y) div w = (x + y) div w" for x y w :: nat
proof -
  assume w: "0 < w"
  have "(x mod w + y + x div w * w) div w = x div w + (x mod w + y) div w"
    using w by (simp only: div_mult_self1)
  moreover have "x mod w + y + x div w * w = x + y"
    by (metis add.commute add.left_commute mod_div_mult_eq)
  ultimately show ?thesis by simp
qed

section \<open>Iterator methods\<close>

text \<open>\<open>Iterator::position\<close>: the index of the first element that satisfies the predicate.\<close>

fun position :: "('a \<Rightarrow> bool) \<Rightarrow> 'a list \<Rightarrow> nat option" where
  "position P [] = None"
| "position P (x # xs) = (if P x then Some 0 else map_option Suc (position P xs))"

text \<open>\<open>Iterator::min\<close> and \<open>Iterator::max\<close>.\<close>

definition iter_min :: "'a::linorder list \<Rightarrow> 'a option" where
  "iter_min xs = (if xs = [] then None else Some (Min (set xs)))"

definition iter_max :: "'a::linorder list \<Rightarrow> 'a option" where
  "iter_max xs = (if xs = [] then None else Some (Max (set xs)))"

text \<open>\<open>Iterator::min_by_key\<close>: the first of the elements with the least key.\<close>

fun min_by_key :: "('a \<Rightarrow> 'k::linorder) \<Rightarrow> 'a list \<Rightarrow> 'a option" where
  "min_by_key f [] = None"
| "min_by_key f (x # xs) =
     (case min_by_key f xs of
        None \<Rightarrow> Some x
      | Some y \<Rightarrow> if f y < f x then Some y else Some x)"

lemma position_Some_iff:
  "position P xs = Some i \<longleftrightarrow> i < length xs \<and> P (xs ! i) \<and> (\<forall>j<i. \<not> P (xs ! j))"
proof (induction xs arbitrary: i)
  case (Cons x xs)
  then show ?case
    by (cases i) (auto simp: less_Suc_eq_0_disj)
qed simp

lemma position_None_iff: "position P xs = None \<longleftrightarrow> (\<forall>x\<in>set xs. \<not> P x)"
  by (induction xs) auto

lemma position_SomeD:
  "position P xs = Some i \<Longrightarrow> i < length xs \<and> P (xs ! i)"
  by (simp add: position_Some_iff)

lemma iter_min_None [simp]: "iter_min xs = None \<longleftrightarrow> xs = []"
  by (simp add: iter_min_def)

lemma iter_max_None [simp]: "iter_max xs = None \<longleftrightarrow> xs = []"
  by (simp add: iter_max_def)

lemma iter_min_SomeD: "iter_min xs = Some m \<Longrightarrow> m \<in> set xs \<and> (\<forall>x\<in>set xs. m \<le> x)"
  by (auto simp: iter_min_def split: if_splits)

lemma iter_max_SomeD: "iter_max xs = Some m \<Longrightarrow> m \<in> set xs \<and> (\<forall>x\<in>set xs. x \<le> m)"
  by (auto simp: iter_max_def split: if_splits)

lemma min_by_key_None [simp]: "min_by_key f xs = None \<longleftrightarrow> xs = []"
  by (induction xs) (auto split: option.splits)

lemma min_by_key_SomeD:
  "min_by_key f xs = Some y \<Longrightarrow> y \<in> set xs \<and> (\<forall>x\<in>set xs. f y \<le> f x)"
proof (induction xs arbitrary: y)
  case (Cons x xs)
  show ?case
  proof (cases "min_by_key f xs")
    case None
    with Cons.prems show ?thesis by simp
  next
    case (Some z)
    with Cons.IH [OF this] Cons.prems show ?thesis
      by (force split: if_splits)
  qed
qed simp

section \<open>Lists updated by index\<close>

lemma nth_update_if: "xs[i := v] ! j = (if i = j \<and> i < length xs then v else xs ! j)"
  by (cases "i < length xs") (auto simp: nth_list_update list_update_beyond)

lemma mem_take_conv_nth: "v \<in> set (take m vs) \<longleftrightarrow> (\<exists>k<m. k < length vs \<and> vs ! k = v)"
  by (auto simp: in_set_conv_nth)

lemma distinct_take_nth_eq:
  "distinct (take n xs) \<Longrightarrow> i < n \<Longrightarrow> j < n \<Longrightarrow> n \<le> length xs \<Longrightarrow> xs ! i = xs ! j \<Longrightarrow> i = j"
  by (auto simp: distinct_conv_nth)

end
