(* ===== verification/Stride.thy ===== *)
theory Stride
  imports Prelude
begin

text \<open>
  The stride queue's arithmetic (\<open>libs/stride/src/lib.rs\<close>): a budget's scheduling state, the
  charge of runtime to its pass, the restatement of what it owes at a new weight, where a new
  budget enters virtual time, and how a destroyed child's work moves to its parent; and the
  rank a pick minimises, with its lexicographic order as an instance of \<open>linorder\<close>.

  The pass is a \<open>u128\<close>, remainders and weights are \<open>u64\<close>; the ties are \<open>i64\<close> counters and are
  kept as integers with their saturation written out.
\<close>

section \<open>State and arithmetic\<close>

definition STRIDE :: u64 where
  "STRIDE = 2 ^ 20"

definition RUNTIME_CAP :: u64 where
  "RUNTIME_CAP = 2 ^ 40"

definition MIN_CHARGE :: u64 where
  "MIN_CHARGE = 1"

definition MAX_WEIGHT :: u64 where
  "MAX_WEIGHT = 2 ^ 32 - 1"

definition MAX_CAPPED :: nat where
  "MAX_CAPPED = 15"

record state =
  pass :: u128
  entry :: u128
  rem :: u64
  tie :: int
  queued :: bool

definition charge :: "state \<Rightarrow> u64 \<Rightarrow> u64 \<Rightarrow> state" where
  "charge s weight runtime =
     (if weight = 0 then s
      else let t = saturating_add (rem s) (min runtime RUNTIME_CAP * STRIDE)
           in s\<lparr>pass := pass s + ucast (t div weight), rem := t mod weight\<rparr>)"

definition rescale :: "state \<Rightarrow> u64 \<Rightarrow> u64 \<Rightarrow> u128 \<Rightarrow> state" where
  "rescale s old new flr =
     (let old' = max old 1; new' = max new 1;
          owed = saturating_add (saturating_mul (saturating_sub (pass s) flr) (ucast old'))
                   (ucast (rem s));
          w = ucast new'
      in s\<lparr>pass := saturating_add flr (owed div w), rem := ucast (owed mod w)\<rparr>)"

definition entry_pass :: "u128 \<Rightarrow> u128 option \<Rightarrow> u128" where
  "entry_pass flr parent_pass = (case parent_pass of None \<Rightarrow> flr | Some p \<Rightarrow> max p flr)"

definition lift_work :: "state \<Rightarrow> u64 \<Rightarrow> u128 \<Rightarrow> u128" where
  "lift_work child w_child f =
     saturating_add
       (saturating_mul (saturating_sub (pass child) (max (entry child) f)) (ucast w_child))
       (ucast (rem child))"

definition lift :: "state \<Rightarrow> state \<Rightarrow> u64 \<Rightarrow> u64 \<Rightarrow> u128 \<Rightarrow> state" where
  "lift parent child w_child w_parent f =
     (if w_parent = 0 then parent
      else let work = lift_work child w_child f;
               wp = ucast w_parent;
               (base, base_rem) = (if f \<le> pass parent then (pass parent, ucast (rem parent)) else (f, 0));
               r = base_rem + work mod wp
           in parent\<lparr>pass := saturating_add (saturating_add base (work div wp)) (r div wp),
                     rem := ucast (r mod wp)\<rparr>)"

section \<open>Ranks\<close>

datatype rank = Rank (rank_pass: u128) (rank_tie: int) (rank_id: u64)

instantiation rank :: linorder
begin

definition less_eq_rank :: "rank \<Rightarrow> rank \<Rightarrow> bool" where
  "r \<le> s \<longleftrightarrow> rank_pass r < rank_pass s \<or>
     rank_pass r = rank_pass s \<and> (rank_tie r < rank_tie s \<or> rank_tie r = rank_tie s \<and> rank_id r \<le> rank_id s)"

definition less_rank :: "rank \<Rightarrow> rank \<Rightarrow> bool" where
  "r < s \<longleftrightarrow> r \<le> s \<and> \<not> s \<le> (r :: rank)"

instance
proof
  fix x y z :: rank
  show "x < y \<longleftrightarrow> x \<le> y \<and> \<not> y \<le> x" by (simp add: less_rank_def)
  show "x \<le> x" by (simp add: less_eq_rank_def)
  show "x \<le> y \<Longrightarrow> y \<le> z \<Longrightarrow> x \<le> z" by (auto simp: less_eq_rank_def)
  show "x \<le> y \<Longrightarrow> y \<le> x \<Longrightarrow> x = y" by (auto simp: less_eq_rank_def rank.expand)
  show "x \<le> y \<or> y \<le> x" by (auto simp: less_eq_rank_def)
qed

end

lemma rank_le_iff:
  "Rank p t i \<le> Rank p' t' i' \<longleftrightarrow> p < p' \<or> p = p' \<and> (t < t' \<or> t = t' \<and> i \<le> i')"
  by (simp add: less_eq_rank_def)

lemma rank_less_iff:
  "Rank p t i < Rank p' t' i' \<longleftrightarrow> p < p' \<or> p = p' \<and> (t < t' \<or> t = t' \<and> i < i')"
  by (auto simp: less_rank_def less_eq_rank_def)

lemma rank_le_passD: "r \<le> s \<Longrightarrow> rank_pass r \<le> rank_pass s"
  by (auto simp: less_eq_rank_def)

section \<open>What a budget owes\<close>

text \<open>
  The accounting unit is weighted virtual time: a lead over the floor \<open>f\<close> of \<open>pass - f\<close> at weight
  \<open>w\<close>, and the remainder, together stand for \<open>(pass - f) * w + rem\<close> units of \<open>runtime * STRIDE\<close>.
\<close>

definition owes :: "state \<Rightarrow> u64 \<Rightarrow> u128 \<Rightarrow> nat" where
  "owes s w f = (unat (pass s) - unat f) * unat w + unat (rem s)"

lemma charge_fields [simp]:
  "entry (charge s w r) = entry s" "tie (charge s w r) = tie s" "queued (charge s w r) = queued s"
  by (simp_all add: charge_def Let_def)

lemma rescale_fields [simp]:
  "entry (rescale s a b f) = entry s" "tie (rescale s a b f) = tie s" "queued (rescale s a b f) = queued s"
  by (simp_all add: rescale_def Let_def)

lemma lift_fields [simp]:
  "entry (lift p c wc wp f) = entry p" "tie (lift p c wc wp f) = tie p" "queued (lift p c wc wp f) = queued p"
  by (simp_all add: lift_def Let_def split: prod.splits)

lemma unat_charge_amount:
  "unat (min r RUNTIME_CAP * STRIDE) = min (unat r) (2 ^ 40) * 2 ^ 20"
proof -
  have m: "unat (min r RUNTIME_CAP) = min (unat r) (2 ^ 40)"
    by (simp add: unat_min_word RUNTIME_CAP_def)
  have "unat (min r RUNTIME_CAP) * unat STRIDE < 2 ^ LENGTH(64)"
    by (simp add: m STRIDE_def)
  then show ?thesis
    using unat_mult_no_wrap [of "min r RUNTIME_CAP" STRIDE] by (simp add: m STRIDE_def)
qed

lemma unat_charge_total:
  assumes "rem s < w" "w \<le> MAX_WEIGHT"
  shows "unat (saturating_add (rem s) (min r RUNTIME_CAP * STRIDE))
           = unat (rem s) + min (unat r) (2 ^ 40) * 2 ^ 20"
proof -
  have "unat (rem s) < 2 ^ 32"
    using assms by (auto simp: word_less_nat_alt word_le_nat_alt MAX_WEIGHT_def)
  then have "unat (rem s) + min (unat r) (2 ^ 40) * 2 ^ 20 < 2 ^ 64"
    by (auto simp: min_def)
  then show ?thesis
    by (simp only: unat_saturating_add unat_charge_amount) auto
qed


section \<open>Charging is exact\<close>

lemma charge_pass_rem:
  fixes r :: u64
  assumes "0 < w" "w \<le> MAX_WEIGHT" "rem s < w"
  defines "t \<equiv> unat (rem s) + min (unat r) (2 ^ 40) * 2 ^ 20"
  shows "rem (charge s w r) < w"
    and "unat (rem (charge s w r)) = t mod unat w"
    and "pass (charge s w r) = pass s + of_nat (t div unat w)"
proof -
  let ?t = "saturating_add (rem s) (min r RUNTIME_CAP * STRIDE)"
  have w: "w \<noteq> 0" and t: "unat ?t = t"
    using assms unat_charge_total [of s w r] by (auto simp: t_def)
  have "rem (charge s w r) = ?t mod w" "pass (charge s w r) = pass s + ucast (?t div w)"
    using w by (simp_all add: charge_def Let_def)
  moreover have "(ucast (?t div w) :: u128) = of_nat (t div unat w)"
    by (metis of_nat_unat unat_div t)
  ultimately show "rem (charge s w r) < w" "unat (rem (charge s w r)) = t mod unat w"
    "pass (charge s w r) = pass s + of_nat (t div unat w)"
    using w by (simp_all add: unat_mod t word_mod_less_divisor word_gt_0)
qed

text \<open>
  C10: A charge at stride weight \<open>w\<close> is exact: as long as the pass does not wrap, the weighted
  virtual time a budget stands for rises by exactly the runtime counted (at most
  \<open>RUNTIME_CAP\<close>) times \<open>STRIDE\<close>, and the remainder stays below the weight.
\<close>

theorem charge_exact:
  assumes "0 < w" "w \<le> MAX_WEIGHT" "rem s < w" "unat (pass s) + 2 ^ 61 < 2 ^ 128"
  shows "unat (pass (charge s w r)) * unat w + unat (rem (charge s w r))
           = unat (pass s) * unat w + unat (rem s) + min (unat r) (2 ^ 40) * 2 ^ 20
         \<and> rem (charge s w r) < w"
proof -
  let ?t = "unat (rem s) + min (unat r) (2 ^ 40) * 2 ^ 20"
  have "unat (rem s) < 2 ^ 32"
    using assms by (auto simp: word_less_nat_alt word_le_nat_alt MAX_WEIGHT_def)
  then have "?t < 2 ^ 61" by (auto simp: min_def)
  then have d: "?t div unat w < 2 ^ 61"
    using div_le_dividend [of ?t "unat w"] by linarith
  then have "unat (pass s + of_nat (?t div unat w)) = unat (pass s) + ?t div unat w"
    using assms(4) by (subst unat_add_no_wrap) (simp_all add: unat_of_nat)
  then show ?thesis
    using charge_pass_rem [OF assms(1,2,3), of r] by (simp add: distrib_right)
qed

theorem charge_exact_witness:
  "let s = \<lparr>pass = 5, entry = 0, rem = 2, tie = 0, queued = True\<rparr>
   in unat (pass (charge s 3 7)) * 3 + unat (rem (charge s 3 7)) = 5 * 3 + 2 + 7 * 2 ^ 20"
  using charge_exact [of 3 "\<lparr>pass = 5, entry = 0, rem = 2, tie = 0, queued = True\<rparr>" 7]
  by (simp add: MAX_WEIGHT_def)

text \<open>
  C14: How runtime is split into charges does not matter: two charges at one weight leave the
  same state as one charge of their sum, as long as the sum is within the cap of one charge.
\<close>

theorem charge_split:
  assumes "0 < w" "w \<le> MAX_WEIGHT" "rem s < w" "unat a + unat b \<le> 2 ^ 40"
  shows "charge (charge s w a) w b = charge s w (a + b)"
proof -
  let ?W = "unat w" and ?r = "unat (rem s)"
  let ?t1 = "?r + unat a * 2 ^ 20" and ?t = "?r + (unat a + unat b) * 2 ^ 20"
  have ab: "unat (a + b) = unat a + unat b"
    using assms(4) by (intro unat_add_no_wrap) auto
  note one = charge_pass_rem [OF assms(1,2,3), of a]
  note two = charge_pass_rem [OF assms(1,2) one(1), of b]
  note whole = charge_pass_rem [OF assms(1,2,3), of "a + b"]
  have r1: "unat (rem (charge s w a)) = ?t1 mod ?W" and p1: "pass (charge s w a) = pass s + of_nat (?t1 div ?W)"
    using one assms(4) by (simp_all add: min_def)
  have m: "(?t1 mod ?W + unat b * 2 ^ 20) mod ?W = ?t mod ?W"
    by (simp add: mod_add_left_eq distrib_right add.assoc)
  have d: "?t1 div ?W + (?t1 mod ?W + unat b * 2 ^ 20) div ?W = ?t div ?W"
    using assms(1) div_carry [of ?W ?t1 "unat b * 2 ^ 20"]
    by (simp add: word_gt_0_unat distrib_right add.assoc)
  have "rem (charge (charge s w a) w b) = rem (charge s w (a + b))"
    using two(2) whole(2) assms(4) m by (simp add: r1 ab min_def word_unat_eq_iff)
  moreover have "pass (charge (charge s w a) w b) = pass (charge s w (a + b))"
    using two(3) whole(3) assms(4) d [symmetric] by (simp add: r1 p1 ab min_def)
  ultimately show ?thesis
    by (simp add: state.equality)
qed

theorem charge_split_witness:
  "charge (charge \<lparr>pass = 5, entry = 0, rem = 2, tie = 0, queued = True\<rparr> 3 4) 3 5
     = charge \<lparr>pass = 5, entry = 0, rem = 2, tie = 0, queued = True\<rparr> 3 9"
  using charge_split [of 3 "\<lparr>pass = 5, entry = 0, rem = 2, tie = 0, queued = True\<rparr>" 4 5]
  by (simp add: MAX_WEIGHT_def)

section \<open>A weight change keeps what is owed\<close>

lemma unat_max_1: "unat (max w 1) = max (unat w) 1" for w :: u64
  by (simp add: unat_max_word)

lemma rescale_pass_rem:
  fixes s old new flr
  defines "owed \<equiv> owes s (max old 1) flr"
  assumes "owed < 2 ^ 128" "unat flr + owed div unat (max new 1) < 2 ^ 128"
  shows "unat (pass (rescale s old new flr)) = unat flr + owed div unat (max new 1)"
    and "unat (rem (rescale s old new flr)) = owed mod unat (max new 1)"
proof -
  let ?n = "unat (max new 1)"
  let ?o = "saturating_add (saturating_mul (saturating_sub (pass s) flr) (ucast (max old 1)))
                   (ucast (rem s))"
  have n: "0 < ?n" by (simp add: unat_max_1)
  have "(unat (pass s) - unat flr) * unat (max old 1) < 2 ^ 128"
    using assms(2) by (simp add: owed_def owes_def)
  then have o: "unat ?o = owed"
    using assms(2) by (simp add: unat_saturating_add unat_saturating_mul unat_saturating_sub owed_def owes_def)
  have "owed mod ?n < 2 ^ 64"
    using order_less_trans [OF mod_less_divisor [OF n] unsigned_less [of "max new 1"]] by simp
  then show "unat (pass (rescale s old new flr)) = unat flr + owed div ?n"
    and "unat (rem (rescale s old new flr)) = owed mod ?n"
    using assms(3) o
    by (simp_all add: rescale_def Let_def unat_saturating_add unat_div unat_mod unat_ucast_128_64)
qed

text \<open>
  C15: At a weight change what a budget owes is kept exactly: the lead over the floor and the
  remainder, restated at the new weight (weight 0 counting as 1), stand for the same weighted
  time, unless a \<open>u128\<close> saturates; the remainder is below the new weight and the pass is not
  below the floor.
\<close>

theorem rescale_owes:
  assumes "owes s (max old 1) flr < 2 ^ 128"
    and "unat flr + owes s (max old 1) flr div unat (max new 1) < 2 ^ 128"
  shows "owes (rescale s old new flr) (max new 1) flr = owes s (max old 1) flr
         \<and> rem (rescale s old new flr) < max new 1 \<and> flr \<le> pass (rescale s old new flr)"
proof -
  note pr = rescale_pass_rem [OF assms]
  have "0 < unat (max new 1)" by (simp add: unat_max_1)
  then have "rem (rescale s old new flr) < max new 1"
    using pr(2) by (simp add: word_less_nat_alt)
  then show ?thesis
    using pr by (simp add: owes_def [of "rescale s old new flr"] word_le_nat_alt)
qed

theorem rescale_owes_witness:
  "let s = \<lparr>pass = 17, entry = 0, rem = 2, tie = 0, queued = True\<rparr>
   in owes (rescale s 4 9 10) 9 10 = 7 * 4 + 2"
  using rescale_owes [of "\<lparr>pass = 17, entry = 0, rem = 2, tie = 0, queued = True\<rparr>" 4 10 9]
  by (simp add: owes_def max_def word_le_nat_alt word_less_nat_alt)

text \<open>
  C16: A carve and its return with no run between cancel, short of the saturation of the weighted pass:
  rescaling from \<open>old\<close> to \<open>new\<close> and back at one floor leaves the remainder and every other field as they
  were, and the pass too if it was at or above the floor; a pass below the floor, which owes only its
  remainder, is raised to the floor and no further.
\<close>

theorem rescale_round_trip:
  assumes "rem s < max old 1" "owes s (max old 1) flr < 2 ^ 128"
    and "unat flr + owes s (max old 1) flr div unat (max new 1) < 2 ^ 128"
  shows "rescale (rescale s old new flr) new old flr = s\<lparr>pass := max (pass s) flr\<rparr>"
proof -
  let ?s = "rescale s old new flr" and ?o = "unat (max old 1)"
  have o: "owes ?s (max new 1) flr = owes s (max old 1) flr"
    using rescale_pass_rem [OF assms(2,3)]
    by (simp add: owes_def [of ?s])
  have r: "unat (rem s) < ?o"
    using assms(1) by (simp add: word_less_nat_alt)
  have d: "owes s (max old 1) flr div ?o = unat (pass s) - unat flr"
    and m: "owes s (max old 1) flr mod ?o = unat (rem s)"
    using r by (simp_all add: owes_def)
  have p: "unat flr + (unat (pass s) - unat flr) = unat (max (pass s) flr)"
    by (simp add: max_def word_le_nat_alt)
  then have "unat flr + owes ?s (max new 1) flr div ?o < 2 ^ 128"
    using unsigned_less [of "max (pass s) flr"] by (simp add: o d)
  then have "unat (pass (rescale ?s new old flr)) = unat (max (pass s) flr)"
    and "unat (rem (rescale ?s new old flr)) = unat (rem s)"
    using rescale_pass_rem [of ?s new flr old] assms(2) p by (simp_all add: o d m)
  then show ?thesis
    by (intro state.equality) (simp_all add: word_unat_eq_iff)
qed

theorem rescale_round_trip_witness:
  "let s = \<lparr>pass = 17, entry = 0, rem = 2, tie = 0, queued = True\<rparr>; t = s\<lparr>pass := 3\<rparr>
   in rescale (rescale s 4 9 10) 9 4 10 = s \<and> rescale (rescale t 4 9 10) 9 4 10 = s\<lparr>pass := 10\<rparr>"
  using rescale_round_trip [of "\<lparr>pass = 17, entry = 0, rem = 2, tie = 0, queued = True\<rparr>" 4 10 9]
    rescale_round_trip [of "\<lparr>pass = 3, entry = 0, rem = 2, tie = 0, queued = True\<rparr>" 4 10 9]
  by (simp add: owes_def max_def word_le_nat_alt word_less_nat_alt)

section \<open>A destroyed child's work moves to its parent\<close>

text \<open>
  C17: Destroying a child loses no work: the parent's owed time over the floor rises by exactly
  what the child ran since its entry (or since the floor, if that is later), unless a \<open>u128\<close>
  saturates; a parent below the floor is first lifted to it.
\<close>

theorem lift_owes:
  fixes p c :: state and wc wp :: u64 and f :: u128
  defines "work \<equiv> (unat (pass c) - unat (max (entry c) f)) * unat wc + unat (rem c)"
    and "base \<equiv> (if f \<le> pass p then owes p wp f else 0)"
  assumes wp: "0 < wp" and "rem p < wp" and "work < 2 ^ 128"
    and sat: "max (unat (pass p)) (unat f) + work div unat wp + 1 < 2 ^ 128"
  shows "owes (lift p c wc wp f) wp f = base + work \<and> rem (lift p c wc wp f) < wp"
proof -
  let ?W = "unat wp"
  let ?base = "if f \<le> pass p then pass p else f" and ?r = "if f \<le> pass p then unat (rem p) else 0"
  let ?rem = "?r + work mod ?W"
  have W: "0 < ?W" using wp by (simp add: word_gt_0_unat)
  have W64: "?W < 2 ^ 64" using unsigned_less [of wp] by simp
  have r: "?r < ?W" using \<open>rem p < wp\<close> W by (simp add: word_less_nat_alt)
  have wm: "work mod ?W < ?W" using W by simp
  have lw: "unat (lift_work c wc f) = work"
    using \<open>work < 2 ^ 128\<close>
    by (simp add: lift_work_def unat_saturating_add unat_saturating_mul unat_saturating_sub work_def)
  have "unat ((if f \<le> pass p then ucast (rem p) else 0) + lift_work c wc f mod ucast wp) = ?rem"
  proof -
    have "?rem < 2 * 2 ^ 64" using r wm W64 by linarith
    then have "?rem < 2 ^ 128" by simp
    then show ?thesis
      by (subst unat_add_no_wrap) (simp_all add: unat_mod lw split: if_splits)
  qed
  moreover have "?rem div ?W \<le> 1"
  proof -
    have "?rem < 2 * ?W" using r wm by linarith
    then have "?rem div ?W < 2" using W by (simp add: div_less_iff_less_mult)
    then show ?thesis by simp
  qed
  moreover have "unat ?base + work div ?W + ?rem div ?W < 2 ^ 128"
    using sat calculation(2) by (auto simp: max_def word_le_nat_alt split: if_splits)
  ultimately have pass': "unat (pass (lift p c wc wp f)) = unat ?base + work div ?W + ?rem div ?W"
    and rem': "unat (rem (lift p c wc wp f)) = ?rem mod ?W"
    using wp W W64 mod_less_divisor [OF W, of ?rem]
    by (auto simp: lift_def Let_def unat_saturating_add unat_div unat_mod lw unat_ucast_128_64)
  have "unat ?base = (if f \<le> pass p then unat (pass p) - unat f else 0) + unat f"
    by (auto simp: word_le_nat_alt)
  moreover have "work div ?W * ?W + ?rem div ?W * ?W + ?rem mod ?W = ?r + work"
    using div_mult_mod_eq [of ?rem ?W] div_mult_mod_eq [of work ?W] by linarith
  ultimately show ?thesis
    using W rem'
    by (simp add: owes_def [of "lift p c wc wp f"] pass' base_def owes_def [of p] distrib_right
        word_less_nat_alt)
qed

theorem lift_owes_witness:
  "let p = \<lparr>pass = 17, entry = 0, rem = 2, tie = 0, queued = True\<rparr>;
       c = \<lparr>pass = 30, entry = 12, rem = 1, tie = 0, queued = False\<rparr>
   in owes (lift p c 5 4 10) 4 10 = (7 * 4 + 2) + (18 * 5 + 1)"
  using lift_owes [of 4 "\<lparr>pass = 17, entry = 0, rem = 2, tie = 0, queued = True\<rparr>"
      "\<lparr>pass = 30, entry = 12, rem = 1, tie = 0, queued = False\<rparr>" 10 5]
  by (simp add: owes_def max_def word_le_nat_alt word_less_nat_alt)

end
