(* ===== verification/Stride_Queue.thy ===== *)
theory Stride_Queue
  imports Stride
begin

text \<open>
  The stride queue itself (\<open>Queue\<close> in \<open>libs/stride/src/lib.rs\<close>): the queued budgets in a dense
  prefix of an array, their ranks and counts in arrays beside it, the floor, the cap set across
  harts, and the operations that charge, requeue, wake, pick, reweigh, create and destroy.

  The trait \<open>Budgets\<close>, which the kernel implements over the budgets' frames, is the record
  \<open>budgets\<close>: its four observers are the fields and \<open>set_state\<close> its one mutation (the recording
  hooks of the trait do nothing by default and are left out). Every operation is polymorphic in
  the record's extension, as the source is in the implementation of the trait. The test-only
  build features (\<open>capped-holds-floor\<close>) are off, as in the kernel.

  An \<open>expect("a queued slot")\<close> of the source stops the kernel where a slot below the length is
  empty; \<open>queue_wf\<close> rules that out, and the model leaves the state alone there.
\<close>

section \<open>Budgets and the queue's data\<close>

record 'b budgets =
  b_state :: "'b \<Rightarrow> state"
  b_id :: "'b \<Rightarrow> u64"
  b_weight :: "'b \<Rightarrow> u64"
  b_live :: "'b \<Rightarrow> bool"

definition set_state :: "'b \<Rightarrow> state \<Rightarrow> ('b, 'z) budgets_scheme \<Rightarrow> ('b, 'z) budgets_scheme" where
  "set_state b s bs = bs\<lparr>b_state := (b_state bs)(b := s)\<rparr>"

record 'b queue =
  qfloor :: u128
  tie_front :: int
  tie_back :: int
  slots :: "'b option list"
  ranks :: "rank list"
  weights :: "u64 list"
  waiting :: "u32 list"
  running :: "u32 list"
  capped :: "bool list"
  lift_to :: "u128 list"
  leaving :: "'b option"
  harts :: u32
  qlen :: nat
  qpending :: bool

definition queue_new :: "nat \<Rightarrow> 'b queue" where
  "queue_new N =
     \<lparr>qfloor = 0, tie_front = 0, tie_back = 0, slots = replicate N None,
      ranks = replicate N (Rank 0 0 0), weights = replicate N 0, waiting = replicate N 0,
      running = replicate N 0, capped = replicate N False, lift_to = replicate N 0,
      leaving = None, harts = 1, qlen = 0, qpending = False\<rparr>"

definition queued_budgets :: "'b queue \<Rightarrow> 'b list" where
  "queued_budgets q = map the (filter (\<lambda>s. s \<noteq> None) (take (qlen q) (slots q)))"

definition slot_of :: "'b queue \<Rightarrow> 'b \<Rightarrow> nat option" where
  "slot_of q b = position (\<lambda>s. s = Some b) (take (qlen q) (slots q))"

definition contains :: "'b queue \<Rightarrow> 'b \<Rightarrow> bool" where
  "contains q b \<longleftrightarrow> slot_of q b \<noteq> None"

definition is_empty :: "'b queue \<Rightarrow> bool" where
  "is_empty q \<longleftrightarrow> qlen q = 0"

definition push :: "'b queue \<Rightarrow> 'b \<Rightarrow> u64 \<Rightarrow> u64 \<Rightarrow> 'b queue \<times> nat option" where
  "push q b i w =
     (if qlen q = length (slots q) then (q, None)
      else let n = qlen q
           in (q\<lparr>slots := (slots q)[n := Some b], ranks := (ranks q)[n := Rank 0 0 i],
                 weights := (weights q)[n := w], waiting := (waiting q)[n := 0],
                 running := (running q)[n := 0], capped := (capped q)[n := False],
                 lift_to := (lift_to q)[n := qfloor q], qlen := n + 1\<rparr>, Some n))"

definition at_floor :: "'b queue \<Rightarrow> nat \<Rightarrow> bool" where
  "at_floor q i \<longleftrightarrow> rank_pass (ranks q ! i) \<le> qfloor q"

definition remove_at :: "'b queue \<Rightarrow> nat \<Rightarrow> 'b queue" where
  "remove_at q i =
     (let n = qlen q - 1
      in q\<lparr>qpending := qpending q \<or> at_floor q i, qlen := n,
           slots := ((slots q)[i := slots q ! n])[n := None],
           ranks := (ranks q)[i := ranks q ! n], weights := (weights q)[i := weights q ! n],
           waiting := (waiting q)[i := waiting q ! n], running := (running q)[i := running q ! n],
           capped := (capped q)[i := capped q ! n], lift_to := (lift_to q)[i := lift_to q ! n]\<rparr>)"

definition reset_if_empty :: "'b queue \<Rightarrow> 'b queue" where
  "reset_if_empty q = (if is_empty q then q\<lparr>tie_front := 0, tie_back := 0\<rparr> else q)"

section \<open>The floor and the cap set\<close>

definition thread_count :: "'b queue \<Rightarrow> nat \<Rightarrow> u32" where
  "thread_count q i = waiting q ! i + running q ! i"

definition has_thread :: "'b queue \<Rightarrow> nat \<Rightarrow> bool" where
  "has_thread q i \<longleftrightarrow> harts q = 1 \<or> 0 < thread_count q i"

definition holds_floor :: "'b queue \<Rightarrow> nat \<Rightarrow> bool" where
  "holds_floor q i \<longleftrightarrow> has_thread q i \<and> \<not> capped q ! i"

text \<open>The scan of \<open>cap\<close>: \<open>usize::MAX\<close> in the candidates' array is \<open>None\<close>.\<close>

definition ratio :: "'b queue \<Rightarrow> nat \<Rightarrow> u128 \<times> u128" where
  "ratio q i = (ucast (weights q ! i), ucast (thread_count q i))"

fun insert_at :: "'b queue \<Rightarrow> nat option list \<Rightarrow> u128 \<Rightarrow> u128 \<Rightarrow> nat \<Rightarrow> nat" where
  "insert_at q tops w k 0 = 0"
| "insert_at q tops w k (Suc n) =
     (if (case tops ! n of
            None \<Rightarrow> True
          | Some j \<Rightarrow> (case ratio q j of (w2, k2) \<Rightarrow> w * k2 > w2 * k))
      then insert_at q tops w k n else Suc n)"

definition top_insert :: "nat \<Rightarrow> nat option list \<Rightarrow> nat \<Rightarrow> nat \<Rightarrow> nat option list" where
  "top_insert n tops at i = take at tops @ [Some i] @ take (n - 1 - at) (drop at tops) @ drop n tops"

definition cap_scan_step ::
  "'b queue \<Rightarrow> nat \<Rightarrow> nat \<Rightarrow> nat option list \<times> u128 \<Rightarrow> nat option list \<times> u128" where
  "cap_scan_step q n i acc =
     (case acc of (tops, weight) \<Rightarrow>
      case ratio q i of (w, k) \<Rightarrow>
        if w = 0 \<or> k = 0 then (tops, weight)
        else if \<not> capped q ! i \<and>
                waiting q ! i > (if leaving q \<noteq> None \<and> slots q ! i = leaving q then 1 else 0)
        then (tops, weight + w)
        else let at = insert_at q tops w k n
             in if at < n then (top_insert n tops at i, weight + w) else (tops, weight + w))"

definition cap_scan :: "'b queue \<Rightarrow> nat \<Rightarrow> nat option list \<times> u128" where
  "cap_scan q n = fold (cap_scan_step q n) [0..<qlen q] (replicate MAX_CAPPED None, 0)"

fun cap_take :: "'b queue \<Rightarrow> u128 \<Rightarrow> u128 \<Rightarrow> nat option list \<Rightarrow> bool list \<Rightarrow> bool list" where
  "cap_take q h W (Some i # tops) cs =
     (case ratio q i of (w, k) \<Rightarrow>
        if w * h \<le> k * W then cs else cap_take q (h - k) (W - w) tops (cs[i := True]))"
| "cap_take q h W _ cs = cs"

definition uncap_step ::
  "bool list \<Rightarrow> nat \<Rightarrow> ('b, 'z) budgets_scheme \<times> 'b queue \<Rightarrow> ('b, 'z) budgets_scheme \<times> 'b queue" where
  "uncap_step was i bq =
     (case bq of (bs, q) \<Rightarrow>
        if was ! i \<and> \<not> capped q ! i \<and> has_thread q i \<and> rank_pass (ranks q ! i) < lift_to q ! i
        then (case slots q ! i of
                None \<Rightarrow> (bs, q)
              | Some b \<Rightarrow>
                  let s = (b_state bs b)\<lparr>pass := lift_to q ! i\<rparr>; r = ranks q ! i
                  in (set_state b s bs, q\<lparr>ranks := (ranks q)[i := Rank (pass s) (rank_tie r) (rank_id r)]\<rparr>))
        else (bs, q))"

definition cap ::
  "('b, 'z) budgets_scheme \<Rightarrow> 'b queue \<Rightarrow> ('b, 'z) budgets_scheme \<times> 'b queue \<times> bool list" where
  "cap bs q =
     (let n = min (unat (harts q) - 1) MAX_CAPPED;
          (tops, W) = cap_scan q n;
          was = capped q;
          cleared = replicate (qlen q) False @ drop (qlen q) (capped q);
          cs = cap_take q (ucast (harts q)) W (take n tops) cleared;
          (bs', q') = fold (uncap_step was) [0..<qlen q] (bs, q\<lparr>capped := cs\<rparr>)
      in (bs', q', was))"

definition raised_floor :: "'b queue \<Rightarrow> u128" where
  "raised_floor q =
     (case iter_min (map (\<lambda>i. rank_pass (ranks q ! i)) (filter (holds_floor q) [0..<qlen q])) of
        Some m \<Rightarrow> max (qfloor q) m
      | None \<Rightarrow>
          (case iter_max (map (\<lambda>i. rank_pass (ranks q ! i)) (filter (has_thread q) [0..<qlen q])) of
             Some m \<Rightarrow> max (qfloor q) m
           | None \<Rightarrow>
               (case iter_min (map rank_pass (take (qlen q) (ranks q))) of
                  Some m \<Rightarrow> max (qfloor q) m
                | None \<Rightarrow> qfloor q)))"

definition follow_floor :: "bool list \<Rightarrow> u128 \<Rightarrow> 'b queue \<Rightarrow> 'b queue" where
  "follow_floor was before q =
     (let rise = qfloor q - before
      in q\<lparr>lift_to := map (\<lambda>i. if qlen q \<le> i then lift_to q ! i
                              else if \<not> capped q ! i then min (qfloor q) (rank_pass (ranks q ! i))
                              else if was ! i then lift_to q ! i + rise
                              else lift_to q ! i) [0..<length (lift_to q)]\<rparr>)"

definition raise_floor ::
  "('b, 'z) budgets_scheme \<Rightarrow> 'b queue \<Rightarrow> ('b, 'z) budgets_scheme \<times> 'b queue" where
  "raise_floor bs q =
     (if harts q > 1 then
        (case cap bs q of (bs', q', was) \<Rightarrow>
           (bs', follow_floor was (qfloor q') (q'\<lparr>qpending := False, qfloor := raised_floor q'\<rparr>)))
      else if \<not> qpending q then (bs, q)
      else (bs, q\<lparr>qpending := False, qfloor := raised_floor q\<rparr>))"

definition weight_for_caps :: "'b queue \<Rightarrow> ('b, 'z) budgets_scheme \<Rightarrow> 'b \<Rightarrow> u64" where
  "weight_for_caps q bs b = (if harts q > 1 then b_weight bs b else 0)"

definition set_harts :: "'b queue \<Rightarrow> u32 \<Rightarrow> 'b queue" where
  "set_harts q n = q\<lparr>harts := max n 1\<rparr>"

definition capped_budgets :: "'b queue \<Rightarrow> 'b list" where
  "capped_budgets q =
     map the (filter (\<lambda>s. s \<noteq> None)
       (map fst (filter snd (zip (take (qlen q) (slots q)) (take (qlen q) (capped q))))))"

section \<open>Operations\<close>

definition recounted :: "nat \<Rightarrow> bool \<Rightarrow> 'b queue \<Rightarrow> 'b queue" where
  "recounted i had q = q\<lparr>qpending := qpending q \<or> had \<noteq> has_thread q i\<rparr>"

definition set_waiting :: "'b queue \<Rightarrow> 'b \<Rightarrow> u32 \<Rightarrow> 'b queue" where
  "set_waiting q b n =
     (if harts q = 1 then q
      else case slot_of q b of
             None \<Rightarrow> q
           | Some i \<Rightarrow> recounted i (has_thread q i) (q\<lparr>waiting := (waiting q)[i := n]\<rparr>))"

definition waiting_of :: "'b queue \<Rightarrow> 'b \<Rightarrow> u32 option" where
  "waiting_of q b = map_option (\<lambda>i. waiting q ! i) (slot_of q b)"

definition ran_by :: "'b queue \<Rightarrow> 'b \<Rightarrow> bool \<Rightarrow> 'b queue" where
  "ran_by q b started =
     (if harts q = 1 then q
      else case slot_of q b of
             None \<Rightarrow> q
           | Some i \<Rightarrow>
               recounted i (has_thread q i)
                 (q\<lparr>running := (running q)[i := if started then running q ! i + 1
                                                else saturating_sub (running q ! i) 1]\<rparr>))"

definition recorded :: "'b queue \<Rightarrow> 'b \<Rightarrow> state \<Rightarrow> 'b queue" where
  "recorded q b s =
     (if \<not> queued s then q
      else case slot_of q b of
             None \<Rightarrow> q
           | Some i \<Rightarrow>
               q\<lparr>qpending := qpending q \<or> (at_floor q i \<and> pass s > rank_pass (ranks q ! i)),
                 ranks := (ranks q)[i := Rank (pass s) (tie s) (rank_id (ranks q ! i))]\<rparr>)"

definition fold_charge ::
  "('b, 'z) budgets_scheme \<Rightarrow> 'b queue \<Rightarrow> 'b \<Rightarrow> u64 \<Rightarrow> ('b, 'z) budgets_scheme \<times> 'b queue" where
  "fold_charge bs q b runtime =
     (let s = charge (b_state bs b) (b_weight bs b) runtime
      in raise_floor (set_state b s bs) (recorded q b s))"

definition requeue_slot ::
  "('b, 'z) budgets_scheme \<Rightarrow> 'b queue \<Rightarrow> 'b \<Rightarrow> bool \<Rightarrow> 'b queue \<times> nat option" where
  "requeue_slot bs q b still_runnable =
     (if still_runnable
      then (case slot_of q b of
              Some i \<Rightarrow> (q, Some i)
            | None \<Rightarrow> push q b (b_id bs b) (weight_for_caps q bs b))
      else (q, None))"

definition deschedule ::
  "('b, 'z) budgets_scheme \<Rightarrow> 'b queue \<Rightarrow> 'b \<Rightarrow> bool \<Rightarrow> ('b, 'z) budgets_scheme \<times> 'b queue" where
  "deschedule bs q b still_runnable =
     (let s = b_state bs b;
          was = slot_of q b;
          (q1, requeued) = requeue_slot bs q b still_runnable;
          (s', q2) =
            (case requeued of
               Some i \<Rightarrow>
                 let bk = i64_saturating_add (tie_back q1) 1
                 in (s\<lparr>tie := bk, queued := True\<rparr>,
                     q1\<lparr>tie_back := bk, ranks := (ranks q1)[i := Rank (pass s) bk (b_id bs b)]\<rparr>)
             | None \<Rightarrow>
                 (s\<lparr>queued := False\<rparr>, case was of Some i \<Rightarrow> remove_at q1 i | None \<Rightarrow> q1));
          (bs', q3) = raise_floor (set_state b s' bs) q2
      in (bs', reset_if_empty q3))"

text \<open>The three loops of a reconcile: the counts, the leaves and the wakes.\<close>

definition count_visited ::
  "('b, 'z) budgets_scheme \<Rightarrow> (('b, 'z) budgets_scheme \<Rightarrow> 'b \<Rightarrow> u32) \<Rightarrow> 'b \<Rightarrow> 'b queue \<Rightarrow> 'b queue" where
  "count_visited bs wait b q = (if b_live bs b then set_waiting q b (wait bs b) else q)"

definition leave_one ::
  "('b \<Rightarrow> bool) \<Rightarrow> (('b, 'z) budgets_scheme \<Rightarrow> 'b \<Rightarrow> u32) \<Rightarrow> 'b \<Rightarrow>
   ('b, 'z) budgets_scheme \<times> 'b queue \<Rightarrow> ('b, 'z) budgets_scheme \<times> 'b queue" where
  "leave_one run wait b bq =
     (case bq of (bs, q) \<Rightarrow>
        if run b \<or> \<not> b_live bs b then (bs, q)
        else let s = b_state bs b
             in if \<not> queued s \<or> wait bs b > 0 then (bs, q)
                else (set_state b (s\<lparr>queued := False\<rparr>) bs,
                      case slot_of q b of Some i \<Rightarrow> remove_at q i | None \<Rightarrow> q))"

fun wake_all ::
  "(('b, 'z) budgets_scheme \<Rightarrow> 'b \<Rightarrow> u32) \<Rightarrow> 'b list \<Rightarrow>
   ('b, 'z) budgets_scheme \<Rightarrow> 'b queue \<Rightarrow> ('b, 'z) budgets_scheme \<times> 'b queue" where
  "wake_all wait [] bs q = (bs, q)"
| "wake_all wait (b # rest) bs q =
     (if \<not> b_live bs b \<or> \<not> wait bs b > 0 then wake_all wait rest bs q
      else let s = b_state bs b
           in if queued s then wake_all wait rest bs q
              else case push q b (b_id bs b) (weight_for_caps q bs b) of
                     (q1, None) \<Rightarrow> (bs, q1)
                   | (q1, Some i) \<Rightarrow>
                       let fr = i64_saturating_sub (tie_front q1) 1;
                           s' = s\<lparr>pass := max (pass s) (qfloor q1), tie := fr, queued := True\<rparr>
                       in wake_all wait rest (set_state b s' bs)
                            (q1\<lparr>waiting := (waiting q1)[i := wait bs b], tie_front := fr,
                                ranks := (ranks q1)[i := Rank (pass s') fr (rank_id (ranks q1 ! i))]\<rparr>))"

definition reconcile_counted ::
  "('b, 'z) budgets_scheme \<Rightarrow> 'b queue \<Rightarrow> ('b \<Rightarrow> bool) \<Rightarrow> 'b list \<Rightarrow> 'b list \<Rightarrow>
   (('b, 'z) budgets_scheme \<Rightarrow> 'b \<Rightarrow> u32) \<Rightarrow> ('b, 'z) budgets_scheme \<times> 'b queue" where
  "reconcile_counted bs q run lost gained wait =
     (let q1 = (if harts q > 1 then fold (count_visited bs wait) (lost @ gained) q else q);
          (bs2, q2) = fold (leave_one run wait) lost (bs, q1);
          (bs3, q3) = raise_floor bs2 q2;
          q4 = reset_if_empty q3;
          q5 = q4\<lparr>qpending := qpending q4 \<or> is_empty q4\<rparr>;
          (bs6, q6) = wake_all wait (rev (sort_key (b_id bs3) gained)) bs3 q5
      in raise_floor bs6 q6)"

definition reconcile ::
  "('b, 'z) budgets_scheme \<Rightarrow> 'b queue \<Rightarrow> ('b \<Rightarrow> bool) \<Rightarrow> 'b list \<Rightarrow> 'b list \<Rightarrow>
   (('b, 'z) budgets_scheme \<Rightarrow> 'b \<Rightarrow> bool) \<Rightarrow> ('b, 'z) budgets_scheme \<times> 'b queue" where
  "reconcile bs q run lost gained runnable =
     reconcile_counted bs q run lost gained (\<lambda>bs b. if runnable bs b then 1 else 0)"

definition pick :: "'b queue \<Rightarrow> ('b \<Rightarrow> bool) \<Rightarrow> 'b option" where
  "pick q passed =
     (case min_by_key (\<lambda>i. ranks q ! i)
             (filter (\<lambda>i. case slots q ! i of None \<Rightarrow> False | Some b \<Rightarrow> \<not> passed b) [0..<qlen q]) of
        None \<Rightarrow> None
      | Some i \<Rightarrow> slots q ! i)"

definition reweigh ::
  "('b, 'z) budgets_scheme \<Rightarrow> 'b queue \<Rightarrow> 'b \<Rightarrow> u64 \<Rightarrow> u64 \<Rightarrow> ('b, 'z) budgets_scheme \<times> 'b queue" where
  "reweigh bs q b old new =
     (let s = rescale (b_state bs b) old new (qfloor q);
          q1 = recorded q b s
      in (set_state b s bs,
          case slot_of q1 b of
            None \<Rightarrow> q1
          | Some i \<Rightarrow> if harts q1 > 1 then q1\<lparr>weights := (weights q1)[i := new]\<rparr> else q1))"

fun audit_loop ::
  "('b, 'z) budgets_scheme \<Rightarrow> 'b queue \<Rightarrow> nat list \<Rightarrow> (u128 \<times> 'b) option \<Rightarrow> 'b + (u128 \<times> 'b) option" where
  "audit_loop bs q [] least = Inr least"
| "audit_loop bs q (i # is) least =
     (case slots q ! i of
        None \<Rightarrow> audit_loop bs q is least
      | Some b \<Rightarrow>
          let s = b_state bs b; r = ranks q ! i
          in if \<not> queued s \<or> (pass s, tie s, b_id bs b) \<noteq> (rank_pass r, rank_tie r, rank_id r) then Inl b
             else if holds_floor q i \<and> (case least of None \<Rightarrow> True | Some (p, _) \<Rightarrow> rank_pass r < p)
             then audit_loop bs q is (Some (rank_pass r, b))
             else audit_loop bs q is least)"

definition audit :: "('b, 'z) budgets_scheme \<Rightarrow> 'b queue \<Rightarrow> 'b + unit" where
  "audit bs q =
     (case audit_loop bs q [0..<qlen q] None of
        Inl b \<Rightarrow> Inl b
      | Inr (Some (p, b)) \<Rightarrow> if p > qfloor q \<and> \<not> qpending q then Inl b else Inr ()
      | Inr None \<Rightarrow> Inr ())"

definition create ::
  "('b, 'z) budgets_scheme \<Rightarrow> 'b queue \<Rightarrow> 'b \<Rightarrow> 'b option \<Rightarrow> ('b, 'z) budgets_scheme \<times> 'b queue" where
  "create bs q child parent =
     (let e = entry_pass (qfloor q) (map_option (\<lambda>p. pass (b_state bs p)) parent)
      in (set_state child \<lparr>pass = e, entry = e, rem = 0, tie = 0, queued = False\<rparr> bs, q))"

definition destroy ::
  "('b, 'z) budgets_scheme \<Rightarrow> 'b queue \<Rightarrow> 'b \<Rightarrow> 'b option \<Rightarrow> u64 \<Rightarrow> u64 \<Rightarrow>
   ('b, 'z) budgets_scheme \<times> 'b queue" where
  "destroy bs q child parent w_child w_parent =
     (let (bs1, q1) =
            (case parent of
               None \<Rightarrow> (bs, q)
             | Some p \<Rightarrow>
                 let s = lift (b_state bs p) (b_state bs child) w_child w_parent (qfloor q)
                 in (set_state p s bs, recorded q p s));
          q2 = (case slot_of q1 child of Some i \<Rightarrow> remove_at q1 i | None \<Rightarrow> q1);
          (bs3, q3) = raise_floor bs1 q2
      in (bs3, reset_if_empty q3))"

end
