(* ===== verification/Stride_Inv.thy ===== *)
theory Stride_Inv
  imports Stride_Queue
begin

text \<open>
  The queue's invariant and that every operation keeps it: the arrays are well formed, each
  queued budget's cached rank is its frame's, the floor is the minimum it must be unless a raise
  is pending, and the ties lie between the two counters. The checked kernel's \<open>audit\<close> can then
  never find a budget out of step.
\<close>

section \<open>The invariant\<close>

definition queue_wf :: "'b queue \<Rightarrow> bool" where
  "queue_wf q \<longleftrightarrow>
     qlen q \<le> length (slots q) \<and> length (ranks q) = length (slots q) \<and>
     length (weights q) = length (slots q) \<and> length (waiting q) = length (slots q) \<and>
     length (running q) = length (slots q) \<and> length (capped q) = length (slots q) \<and>
     length (lift_to q) = length (slots q) \<and> harts q \<noteq> 0 \<and>
     None \<notin> set (take (qlen q) (slots q)) \<and> distinct (take (qlen q) (slots q))"

definition synced :: "('b, 'z) budgets_scheme \<Rightarrow> 'b queue \<Rightarrow> bool" where
  "synced bs q \<longleftrightarrow>
     (\<forall>i<qlen q. \<forall>b. slots q ! i = Some b \<longrightarrow>
        queued (b_state bs b) \<and>
        ranks q ! i = Rank (pass (b_state bs b)) (tie (b_state bs b)) (b_id bs b))"

definition floor_held :: "'b queue \<Rightarrow> bool" where
  "floor_held q \<longleftrightarrow>
     qpending q \<or> (\<forall>i<qlen q. \<not> holds_floor q i) \<or> (\<exists>i<qlen q. holds_floor q i \<and> at_floor q i)"

definition ties_held :: "'b queue \<Rightarrow> bool" where
  "ties_held q \<longleftrightarrow>
     i64_min \<le> tie_front q \<and> tie_front q \<le> 0 \<and> 0 \<le> tie_back q \<and> tie_back q \<le> i64_max \<and>
     (\<forall>i<qlen q. tie_front q \<le> rank_tie (ranks q ! i) \<and> rank_tie (ranks q ! i) \<le> tie_back q)"

text \<open>One hart caps nothing.\<close>

definition alone_held :: "'b queue \<Rightarrow> bool" where
  "alone_held q \<longleftrightarrow> (harts q = 1 \<longrightarrow> (\<forall>i<qlen q. \<not> capped q ! i))"

definition queue_inv :: "('b, 'z) budgets_scheme \<Rightarrow> 'b queue \<Rightarrow> bool" where
  "queue_inv bs q \<longleftrightarrow> queue_wf q \<and> synced bs q \<and> floor_held q \<and> ties_held q \<and> alone_held q"

text \<open>What a step that moves no slot keeps of the queue.\<close>

definition same_slots :: "'b queue \<Rightarrow> 'b queue \<Rightarrow> bool" where
  "same_slots q q' \<longleftrightarrow>
     slots q' = slots q \<and> qlen q' = qlen q \<and> weights q' = weights q \<and> waiting q' = waiting q \<and>
     running q' = running q \<and> harts q' = harts q \<and> leaving q' = leaving q \<and>
     tie_front q' = tie_front q \<and> tie_back q' = tie_back q \<and>
     length (ranks q') = length (ranks q) \<and> length (capped q') = length (capped q) \<and>
     length (lift_to q') = length (lift_to q) \<and>
     (\<forall>i. rank_tie (ranks q' ! i) = rank_tie (ranks q ! i) \<and> rank_id (ranks q' ! i) = rank_id (ranks q ! i) \<and>
          rank_pass (ranks q ! i) \<le> rank_pass (ranks q' ! i))"

definition same_budgets :: "('b, 'z) budgets_scheme \<Rightarrow> ('b, 'z) budgets_scheme \<Rightarrow> bool" where
  "same_budgets bs bs' \<longleftrightarrow> (\<exists>st. bs' = bs\<lparr>b_state := st\<rparr>) \<and>
     (\<forall>b. queued (b_state bs' b) = queued (b_state bs b) \<and> tie (b_state bs' b) = tie (b_state bs b) \<and>
          rem (b_state bs' b) = rem (b_state bs b) \<and> entry (b_state bs' b) = entry (b_state bs b) \<and>
          pass (b_state bs b) \<le> pass (b_state bs' b))"

lemma set_state_sel [simp]:
  "b_state (set_state b s bs) = (b_state bs)(b := s)"
  "b_id (set_state b s bs) = b_id bs"
  "b_weight (set_state b s bs) = b_weight bs"
  "b_live (set_state b s bs) = b_live bs"
  "budgets.more (set_state b s bs) = budgets.more bs"
  by (simp_all add: set_state_def)

lemma same_slots_refl [simp]: "same_slots q q"
  by (simp add: same_slots_def)

lemma same_slots_trans: "same_slots q q' \<Longrightarrow> same_slots q' q'' \<Longrightarrow> same_slots q q''"
  unfolding same_slots_def by (metis order_trans)

lemma same_budgets_refl [simp]: "same_budgets bs bs"
  unfolding same_budgets_def by (auto intro!: exI [of _ "b_state bs"])

lemma same_budgets_trans: "same_budgets bs bs' \<Longrightarrow> same_budgets bs' bs'' \<Longrightarrow> same_budgets bs bs''"
  unfolding same_budgets_def
  by (elim conjE exE, intro conjI exI [of _ "b_state bs''"]) (auto intro: order_trans)

lemma same_budgets_sel:
  assumes "same_budgets bs bs'"
  shows "b_id bs' = b_id bs" "b_weight bs' = b_weight bs" "b_live bs' = b_live bs"
    "budgets.more bs' = budgets.more bs" "queued (b_state bs' b) = queued (b_state bs b)"
  using assms by (auto simp: same_budgets_def)

lemma same_slots_sel:
  assumes "same_slots q q'"
  shows "slots q' = slots q" "qlen q' = qlen q" "harts q' = harts q" "tie_back q' = tie_back q"
    "tie_front q' = tie_front q" "waiting q' = waiting q" "running q' = running q"
    "weights q' = weights q" "leaving q' = leaving q"
  using assms by (simp_all add: same_slots_def)

lemma same_slots_wf: "same_slots q q' \<Longrightarrow> queue_wf q \<Longrightarrow> queue_wf q'"
  by (simp add: same_slots_def queue_wf_def)

lemma same_slots_ties: "same_slots q q' \<Longrightarrow> ties_held q \<Longrightarrow> ties_held q'"
  by (simp add: same_slots_def ties_held_def)

lemma same_slots_slot_of: "same_slots q q' \<Longrightarrow> slot_of q' b = slot_of q b"
  by (simp add: same_slots_def slot_of_def)

section \<open>Slots\<close>

lemma slot_of_SomeD:
  "slot_of q b = Some i \<Longrightarrow> i < qlen q \<and> i < length (slots q) \<and> slots q ! i = Some b"
  by (auto simp: slot_of_def dest!: position_SomeD)

lemma slot_of_NoneD: "slot_of q b = None \<Longrightarrow> i < qlen q \<Longrightarrow> i < length (slots q) \<Longrightarrow> slots q ! i \<noteq> Some b"
  unfolding slot_of_def position_None_iff by (metis length_take min_less_iff_conj nth_mem nth_take)

lemma wf_slot_nonempty: "queue_wf q \<Longrightarrow> i < qlen q \<Longrightarrow> \<exists>b. slots q ! i = Some b"
  unfolding queue_wf_def mem_take_conv_nth by (metis not_None_eq order_less_le_trans)

lemma wf_slot_inj:
  "queue_wf q \<Longrightarrow> i < qlen q \<Longrightarrow> j < qlen q \<Longrightarrow> slots q ! i = slots q ! j \<Longrightarrow> i = j"
  unfolding queue_wf_def by (auto dest: distinct_take_nth_eq)

lemma slot_of_eq_Some:
  assumes "queue_wf q" "i < qlen q" "slots q ! i = Some b"
  shows "slot_of q b = Some i"
proof -
  have "slots q ! j \<noteq> Some b" if "j < i" for j
    using wf_slot_inj [OF assms(1,2), of j] assms that by auto
  then show ?thesis
    using assms by (auto simp: slot_of_def position_Some_iff queue_wf_def)
qed

lemma contains_iff: "queue_wf q \<Longrightarrow> contains q b \<longleftrightarrow> (\<exists>i<qlen q. slots q ! i = Some b)"
  unfolding contains_def by (metis not_None_eq slot_of_SomeD slot_of_eq_Some)

lemma syncedD:
  "synced bs q \<Longrightarrow> i < qlen q \<Longrightarrow> slots q ! i = Some b \<Longrightarrow>
     queued (b_state bs b) \<and> ranks q ! i = Rank (pass (b_state bs b)) (tie (b_state bs b)) (b_id bs b)"
  by (simp add: synced_def)


section \<open>Pushing and removing\<close>

lemma remove_at_nth:
  assumes "queue_wf q" "i < qlen q" "j < qlen q - 1"
  defines "k \<equiv> (if j = i then qlen q - 1 else j)"
  shows "k < qlen q" "k \<noteq> i"
    "slots (remove_at q i) ! j = slots q ! k" "ranks (remove_at q i) ! j = ranks q ! k"
    "waiting (remove_at q i) ! j = waiting q ! k" "running (remove_at q i) ! j = running q ! k"
    "capped (remove_at q i) ! j = capped q ! k" "weights (remove_at q i) ! j = weights q ! k"
    "lift_to (remove_at q i) ! j = lift_to q ! k"
  using assms by (auto simp: remove_at_def Let_def queue_wf_def nth_list_update)

lemma remove_at_sel [simp]:
  "qlen (remove_at q i) = qlen q - 1" "qfloor (remove_at q i) = qfloor q" "harts (remove_at q i) = harts q"
  "tie_front (remove_at q i) = tie_front q" "tie_back (remove_at q i) = tie_back q"
  "leaving (remove_at q i) = leaving q" "length (slots (remove_at q i)) = length (slots q)"
  "qpending (remove_at q i) = (qpending q \<or> at_floor q i)"
  by (simp_all add: remove_at_def Let_def)

lemma remove_at_kept:
  assumes "queue_wf q" "i < qlen q" "k < qlen q" "k \<noteq> i"
  shows "\<exists>j<qlen q - 1. slots (remove_at q i) ! j = slots q ! k \<and> ranks (remove_at q i) ! j = ranks q ! k \<and>
           waiting (remove_at q i) ! j = waiting q ! k \<and> running (remove_at q i) ! j = running q ! k \<and>
           capped (remove_at q i) ! j = capped q ! k"
proof (cases "k = qlen q - 1")
  case True
  then have "i < qlen q - 1" using assms by linarith
  then show ?thesis
    using remove_at_nth [OF assms(1,2), of i] True by (intro exI [of _ i]) auto
next
  case False
  then have "k < qlen q - 1" using assms by linarith
  then show ?thesis
    using remove_at_nth [OF assms(1,2), of k] assms(4) by (intro exI [of _ k]) auto
qed

lemma remove_at_wf:
  assumes "queue_wf q" "i < qlen q"
  shows "queue_wf (remove_at q i)"
proof -
  let ?q = "remove_at q i" and ?f = "\<lambda>j. if j = i then qlen q - 1 else j"
  have len: "qlen ?q \<le> length (slots ?q)"
    using assms by (auto simp: queue_wf_def)
  have nth: "slots ?q ! j = slots q ! ?f j" and f: "?f j < qlen q" if "j < qlen ?q" for j
    using remove_at_nth(3) [OF assms, of j] that assms(2) by (simp, auto)
  have "slots ?q ! j \<noteq> None" if "j < qlen ?q" for j
    using wf_slot_nonempty [OF assms(1) f [OF that]] by (simp only: nth [OF that]) blast
  then have "None \<notin> set (take (qlen ?q) (slots ?q))"
    by (auto simp: mem_take_conv_nth)
  moreover have "j = k" if "j < qlen ?q" "k < qlen ?q" "slots ?q ! j = slots ?q ! k" for j k
  proof -
    have "slots q ! ?f j = slots q ! ?f k"
      using that(3) by (simp only: nth [OF that(1)] nth [OF that(2)])
    then have "?f j = ?f k"
      by (rule wf_slot_inj [OF assms(1) f [OF that(1)] f [OF that(2)]])
    then show ?thesis using that by (simp split: if_splits)
  qed
  then have "distinct (take (qlen ?q) (slots ?q))"
    using len by (auto simp: distinct_conv_nth)
  ultimately show ?thesis
    using assms len by (simp add: queue_wf_def) (simp add: remove_at_def Let_def)
qed

lemma remove_at_ties: "queue_wf q \<Longrightarrow> i < qlen q \<Longrightarrow> ties_held q \<Longrightarrow> ties_held (remove_at q i)"
  using remove_at_nth(1,4) [of q i] by (auto simp: ties_held_def)

lemma remove_at_synced:
  assumes "queue_wf q" "i < qlen q" "slots q ! i = Some b"
    and "\<And>c. c \<noteq> b \<Longrightarrow> b_state bs' c = b_state bs c" "b_id bs' = b_id bs" "synced bs q"
  shows "synced bs' (remove_at q i)"
proof -
  have "queued (b_state bs' c) \<and>
      ranks (remove_at q i) ! j = Rank (pass (b_state bs' c)) (tie (b_state bs' c)) (b_id bs' c)"
    if "j < qlen q - 1" "slots (remove_at q i) ! j = Some c" for j c
  proof -
    note r = remove_at_nth [OF assms(1,2) that(1)]
    have "c \<noteq> b"
      using wf_slot_inj [OF assms(1) r(1) assms(2)] r(2,3) that assms(3) by auto
    then show ?thesis
      using syncedD [OF assms(6) r(1)] r(3,4) that assms(4,5) by simp
  qed
  then show ?thesis by (simp add: synced_def)
qed

lemma remove_at_holds:
  assumes "queue_wf q" "i < qlen q" "j < qlen q - 1"
  shows "holds_floor (remove_at q i) j = holds_floor q (if j = i then qlen q - 1 else j)"
  using remove_at_nth(5-7) [OF assms] by (simp add: holds_floor_def has_thread_def thread_count_def)

lemma push_cases:
  assumes "push q b i w = (q', r)"
  obtains "qlen q = length (slots q)" "r = None" "q' = q"
  | "qlen q \<noteq> length (slots q)" "r = Some (qlen q)" "qlen q' = qlen q + 1"
    "slots q' = (slots q)[qlen q := Some b]" "ranks q' = (ranks q)[qlen q := Rank 0 0 i]"
    "weights q' = (weights q)[qlen q := w]" "waiting q' = (waiting q)[qlen q := 0]"
    "running q' = (running q)[qlen q := 0]" "capped q' = (capped q)[qlen q := False]"
    "lift_to q' = (lift_to q)[qlen q := qfloor q]" "qfloor q' = qfloor q" "tie_front q' = tie_front q"
    "tie_back q' = tie_back q" "leaving q' = leaving q" "harts q' = harts q" "qpending q' = qpending q"
  using assms by (auto simp: push_def Let_def split: if_splits)

lemma push_wf:
  assumes "queue_wf q" "push q b i w = (q', r)" "slot_of q b = None"
  shows "queue_wf q'"
  using assms(2)
proof (cases rule: push_cases)
  case 2
  have lt: "qlen q < length (slots q)" using assms(1) 2(1) by (simp add: queue_wf_def)
  have "Some b \<notin> set (take (qlen q) (slots q))"
    using assms(3) by (auto simp: slot_of_def position_None_iff)
  moreover have "take (qlen q') (slots q') = take (qlen q) (slots q) @ [Some b]"
    using lt 2 by (simp add: take_Suc_conv_app_nth)
  ultimately show ?thesis
    using assms(1) 2 lt by (simp add: queue_wf_def)
qed (use assms in simp)


section \<open>The cap set and the floor\<close>

lemma length_cap_take [simp]: "length (cap_take q h W tops cs) = length cs"
  by (induction q h W tops cs rule: cap_take.induct) (simp_all split: prod.split)

definition uncapped_to :: "('b, 'z) budgets_scheme \<times> 'b queue \<Rightarrow> ('b, 'z) budgets_scheme \<times> 'b queue \<Rightarrow> bool" where
  "uncapped_to bq bq' \<longleftrightarrow>
     same_slots (snd bq) (snd bq') \<and> same_budgets (fst bq) (fst bq') \<and> synced (fst bq') (snd bq') \<and>
     capped (snd bq') = capped (snd bq) \<and> lift_to (snd bq') = lift_to (snd bq) \<and>
     qfloor (snd bq') = qfloor (snd bq) \<and> qpending (snd bq') = qpending (snd bq)"

lemma uncap_step_to:
  assumes "queue_wf q" "synced bs q" "i < qlen q"
  shows "uncapped_to (bs, q) (uncap_step was i (bs, q))"
proof -
  obtain b where b: "slots q ! i = Some b"
    using wf_slot_nonempty [OF assms(1,3)] by blast
  note sb = syncedD [OF assms(2,3) b]
  show ?thesis
  proof (cases "was ! i \<and> \<not> capped q ! i \<and> has_thread q i \<and> rank_pass (ranks q ! i) < lift_to q ! i")
    case False
    then have "uncap_step was i (bs, q) = (bs, q)"
      unfolding uncap_step_def by (simp only: prod.case if_False)
    then show ?thesis
      using assms(2) by (simp add: uncapped_to_def)
  next
    case True
    let ?s = "(b_state bs b)\<lparr>pass := lift_to q ! i\<rparr>"
    let ?q = "q\<lparr>ranks := (ranks q)[i := Rank (lift_to q ! i) (tie ?s) (b_id bs b)]\<rparr>"
    have step: "uncap_step was i (bs, q) = (set_state b ?s bs, ?q)"
      using True b sb by (simp add: uncap_step_def Let_def)
    have le: "pass (b_state bs b) \<le> lift_to q ! i"
      using True sb by (simp add: order.strict_implies_order)
    have "same_slots q ?q"
      using sb le by (simp add: same_slots_def nth_update_if)
    moreover have "same_budgets bs (set_state b ?s bs)"
      using le by (auto simp: same_budgets_def set_state_def)
    moreover have "synced (set_state b ?s bs) ?q"
    proof -
      have "c = b \<longleftrightarrow> j = i" if "j < qlen q" "slots q ! j = Some c" for j c
        using wf_slot_inj [OF assms(1) that(1) assms(3)] that b by auto
      then show ?thesis
        using assms sb by (auto simp: synced_def queue_wf_def nth_list_update)
    qed
    ultimately show ?thesis by (simp add: step uncapped_to_def)
  qed
qed

lemma uncapped_to_refl: "synced bs q \<Longrightarrow> uncapped_to (bs, q) (bs, q)"
  by (simp add: uncapped_to_def)

lemma uncapped_to_trans: "uncapped_to x y \<Longrightarrow> uncapped_to y z \<Longrightarrow> uncapped_to x z"
  by (auto simp: uncapped_to_def intro: same_slots_trans same_budgets_trans)

lemma uncap_fold_to:
  assumes "queue_wf q" "synced bs q" "\<And>i. i \<in> set is \<Longrightarrow> i < qlen q"
  shows "uncapped_to (bs, q) (fold (uncap_step was) is (bs, q))"
proof (rule fold_invariant [where Q = "\<lambda>i. i < qlen q"])
  fix i bq
  assume i: "i < qlen q" and bq: "uncapped_to (bs, q) bq"
  then have "queue_wf (snd bq)" "synced (fst bq) (snd bq)" "i < qlen (snd bq)"
    using assms(1) same_slots_wf by (auto simp: uncapped_to_def same_slots_def)
  then have "uncapped_to bq (uncap_step was i bq)"
    using uncap_step_to [of "snd bq" "fst bq" i was] by simp
  then show "uncapped_to (bs, q) (uncap_step was i bq)"
    using bq uncapped_to_trans by blast
qed (use assms in \<open>auto intro: uncapped_to_refl\<close>)

lemma cap_ok:
  assumes "queue_wf q" "synced bs q" "cap bs q = (bs', q', was)"
  shows "same_slots q q'" "same_budgets bs bs'" "synced bs' q'" "was = capped q"
    "qfloor q' = qfloor q" "lift_to q' = lift_to q"
proof -
  define n where "n = min (unat (harts q) - 1) MAX_CAPPED"
  define cs where "cs = cap_take q (ucast (harts q)) (snd (cap_scan q n)) (take n (fst (cap_scan q n)))
    (replicate (qlen q) False @ drop (qlen q) (capped q))"
  let ?q = "q\<lparr>capped := cs\<rparr>"
  have len: "length cs = length (capped q)"
    using assms(1) by (simp add: cs_def queue_wf_def)
  have wf: "queue_wf ?q" and sy: "synced bs ?q"
    using assms(1,2) len by (simp_all add: queue_wf_def synced_def)
  have eq: "fold (uncap_step (capped q)) [0..<qlen q] (bs, ?q) = (bs', q')" "was = capped q"
    using assms(3) by (auto simp: cap_def Let_def cs_def n_def split: prod.splits)
  have "uncapped_to (bs, ?q) (bs', q')"
    using uncap_fold_to [OF wf sy, of "[0..<qlen q]" "capped q"] by (simp add: eq(1))
  then show "same_slots q q'" "same_budgets bs bs'" "synced bs' q'"
    "qfloor q' = qfloor q" "lift_to q' = lift_to q"
    using len by (simp_all add: uncapped_to_def same_slots_def)
  show "was = capped q" by (rule eq(2))
qed

lemma raised_floor_ge: "qfloor q \<le> raised_floor q"
  by (auto simp: raised_floor_def split: option.splits)

lemma raised_floor_held:
  assumes "i < qlen q" "holds_floor q i"
  shows "\<exists>j<qlen q. holds_floor q j \<and> rank_pass (ranks q ! j) \<le> raised_floor q"
proof -
  let ?xs = "map (\<lambda>i. rank_pass (ranks q ! i)) (filter (holds_floor q) [0..<qlen q])"
  have "i \<in> set (filter (holds_floor q) [0..<qlen q])" using assms by simp
  then have "?xs \<noteq> []" by (metis empty_iff list.map_disc_iff list.set(1))
  then obtain m where m: "iter_min ?xs = Some m" by (meson iter_min_None not_None_eq)
  then have "m \<in> set ?xs" by (blast dest: iter_min_SomeD)
  moreover have "m \<le> raised_floor q" by (simp add: raised_floor_def m)
  ultimately show ?thesis by auto
qed

lemma raise_floor_ok:
  assumes "queue_wf q" "synced bs q" "raise_floor bs q = (bs', q')"
  shows "same_slots q q'" "same_budgets bs bs'" "synced bs' q'" "qfloor q \<le> qfloor q'"
    "harts q > 1 \<or> floor_held q \<Longrightarrow> floor_held q'" "alone_held q \<Longrightarrow> alone_held q'"
proof -
  have "same_slots q q' \<and> same_budgets bs bs' \<and> synced bs' q' \<and> qfloor q \<le> qfloor q' \<and>
    (harts q > 1 \<or> floor_held q \<longrightarrow> floor_held q') \<and> (alone_held q \<longrightarrow> alone_held q')"
  proof (cases "harts q > 1")
    case True
    obtain bs1 q1 was where c: "cap bs q = (bs1, q1, was)" by (metis prod_cases3)
    let ?q = "q1\<lparr>qpending := False, qfloor := raised_floor q1\<rparr>"
    note ok = cap_ok [OF assms(1,2) c]
    have eq: "bs' = bs1" "q' = follow_floor was (qfloor q1) ?q"
      using assms(3) True by (simp_all add: raise_floor_def c)
    have "same_slots q q'"
      using ok(1) by (simp add: eq follow_floor_def Let_def same_slots_def)
    moreover have "synced bs' q'"
      using ok(3) by (simp add: eq follow_floor_def Let_def synced_def)
    moreover have "floor_held q'"
      using raised_floor_held [of _ q1]
      by (auto simp: eq floor_held_def follow_floor_def Let_def holds_floor_def has_thread_def
          thread_count_def at_floor_def)
    moreover have "qfloor q \<le> qfloor q'"
      using raised_floor_ge [of q1] ok(5) by (simp add: eq follow_floor_def Let_def)
    moreover have "alone_held q'"
      using \<open>same_slots q q'\<close> True by (auto simp: alone_held_def same_slots_def)
    ultimately show ?thesis using ok(2) by (simp add: eq)
  next
    case False
    show ?thesis
    proof (cases "qpending q")
      case True
      then have eq: "bs' = bs" "q' = q\<lparr>qpending := False, qfloor := raised_floor q\<rparr>"
        using assms(3) False by (simp_all add: raise_floor_def)
      have "floor_held q'"
        using raised_floor_held [of _ q]
        by (auto simp: eq floor_held_def holds_floor_def has_thread_def thread_count_def at_floor_def)
      then show ?thesis
        using assms(2) raised_floor_ge [of q] by (simp add: eq same_slots_def synced_def alone_held_def)
    next
      case False
      with \<open>\<not> harts q > 1\<close> show ?thesis using assms by (simp add: raise_floor_def)
    qed
  qed
  then show "same_slots q q'" "same_budgets bs bs'" "synced bs' q'" "qfloor q \<le> qfloor q'"
    "harts q > 1 \<or> floor_held q \<Longrightarrow> floor_held q'" "alone_held q \<Longrightarrow> alone_held q'"
    by blast+
qed


text \<open>
  Between the steps of an operation the floor may be owed a raise that the last step makes: on
  several harts every raise recounts, so only one hart must not lose it.
\<close>

definition mid_inv :: "('b, 'z) budgets_scheme \<Rightarrow> 'b queue \<Rightarrow> bool" where
  "mid_inv bs q \<longleftrightarrow>
     queue_wf q \<and> synced bs q \<and> (harts q = 1 \<longrightarrow> floor_held q) \<and> ties_held q \<and> alone_held q"

lemma mid_invI: "queue_inv bs q \<Longrightarrow> mid_inv bs q"
  by (simp add: queue_inv_def mid_inv_def)

lemma harts_one_or_more: "queue_wf q \<Longrightarrow> harts q = 1 \<or> harts q > 1"
  by (auto simp: queue_wf_def word_neq_0_conv dest: inc_le)

lemma raise_floor_inv:
  assumes "mid_inv bs q" "raise_floor bs q = (bs', q')"
  shows "queue_inv bs' q'" "qfloor q \<le> qfloor q'" "same_slots q q'" "same_budgets bs bs'"
proof -
  have q: "queue_wf q" "synced bs q" "ties_held q" "alone_held q" "harts q > 1 \<or> floor_held q"
    using assms(1) harts_one_or_more by (auto simp: mid_inv_def)
  note ok = raise_floor_ok [OF q(1,2) assms(2)]
  show "queue_inv bs' q'"
    using ok q same_slots_wf [OF ok(1)] same_slots_ties [OF ok(1)] by (simp add: queue_inv_def)
  show "qfloor q \<le> qfloor q'" "same_slots q q'" "same_budgets bs bs'"
    using ok by simp_all
qed

lemma reset_if_empty_inv: "queue_inv bs q \<Longrightarrow> queue_inv bs (reset_if_empty q)"
  by (auto simp: reset_if_empty_def is_empty_def queue_inv_def queue_wf_def synced_def floor_held_def
      ties_held_def alone_held_def i64_min_def i64_max_def)

lemma reset_if_empty_sel [simp]:
  "qfloor (reset_if_empty q) = qfloor q" "harts (reset_if_empty q) = harts q"
  "slots (reset_if_empty q) = slots q" "qlen (reset_if_empty q) = qlen q"
  "slot_of (reset_if_empty q) b = slot_of q b" "ranks (reset_if_empty q) = ranks q"
  "capped (reset_if_empty q) = capped q"
  by (simp_all add: reset_if_empty_def slot_of_def)

section \<open>A pass restated\<close>

lemma synced_update:
  assumes "queue_wf q" "synced bs q" "i < qlen q" "slots q ! i = Some b" "queued s"
  shows "synced (set_state b s bs) (q\<lparr>ranks := (ranks q)[i := Rank (pass s) (tie s) (b_id bs b)]\<rparr>)"
proof -
  have "c = b \<longleftrightarrow> j = i" if "j < qlen q" "slots q ! j = Some c" for j c
    using wf_slot_inj [OF assms(1) that(1) assms(3)] that assms(4) by auto
  then show ?thesis
    using assms by (auto simp: synced_def queue_wf_def nth_list_update)
qed

lemma synced_unslotted:
  "queue_wf q \<Longrightarrow> synced bs q \<Longrightarrow> slot_of q b = None \<Longrightarrow> synced (set_state b s bs) q"
  by (auto simp: synced_def queue_wf_def dest: slot_of_NoneD)

lemma unqueued_unslotted: "synced bs q \<Longrightarrow> \<not> queued (b_state bs b) \<Longrightarrow> slot_of q b = None"
  by (metis not_None_eq slot_of_SomeD syncedD)

lemma recorded_sel [simp]:
  "slots (recorded q b s) = slots q" "qlen (recorded q b s) = qlen q" "harts (recorded q b s) = harts q"
  "qfloor (recorded q b s) = qfloor q" "slot_of (recorded q b s) c = slot_of q c"
  "tie_front (recorded q b s) = tie_front q" "tie_back (recorded q b s) = tie_back q"
  "waiting (recorded q b s) = waiting q" "running (recorded q b s) = running q"
  "capped (recorded q b s) = capped q" "weights (recorded q b s) = weights q"
  "leaving (recorded q b s) = leaving q"
  by (auto simp: recorded_def slot_of_def split: option.split)

lemma recorded_ok:
  assumes "queue_wf q" "synced bs q"
    and "queued s = queued (b_state bs b)" "tie s = tie (b_state bs b)"
  shows "queue_wf (recorded q b s)" "synced (set_state b s bs) (recorded q b s)"
    "ties_held q \<Longrightarrow> ties_held (recorded q b s)" "floor_held q \<Longrightarrow> floor_held (recorded q b s)"
proof -
  have "queue_wf (recorded q b s) \<and> synced (set_state b s bs) (recorded q b s) \<and>
    (ties_held q \<longrightarrow> ties_held (recorded q b s)) \<and> (floor_held q \<longrightarrow> floor_held (recorded q b s))"
  proof (cases "slot_of q b")
    case None
    then show ?thesis
      using assms synced_unslotted [of q bs b s] by (simp add: recorded_def)
  next
    case (Some i)
    then have i: "i < qlen q" "slots q ! i = Some b" "i < length (ranks q)"
      using slot_of_SomeD [OF Some] assms(1) by (auto simp: queue_wf_def)
    note sb = syncedD [OF assms(2) i(1,2)]
    let ?p = "qpending q \<or> (at_floor q i \<and> pass s > rank_pass (ranks q ! i))"
    let ?q = "q\<lparr>ranks := (ranks q)[i := Rank (pass s) (tie s) (b_id bs b)]\<rparr>"
    have eq: "recorded q b s = ?q\<lparr>qpending := ?p\<rparr>"
      using assms(3) sb by (simp add: recorded_def Some)
    have "synced (set_state b s bs) ?q"
      using synced_update [OF assms(1,2) i(1,2)] assms(3) sb by simp
    then have "synced (set_state b s bs) (recorded q b s)"
      by (simp add: eq synced_def)
    moreover have "queue_wf (recorded q b s)"
      using assms(1) by (simp add: eq queue_wf_def)
    moreover have "ties_held q \<longrightarrow> ties_held (recorded q b s)"
      using sb i assms(4) by (auto simp: eq ties_held_def nth_list_update)
    moreover have "floor_held (recorded q b s)" if "floor_held q" "\<not> ?p"
    proof -
      have h: "holds_floor (recorded q b s) j = holds_floor q j" for j
        by (simp add: eq holds_floor_def has_thread_def thread_count_def)
      have "at_floor q j \<Longrightarrow> at_floor (recorded q b s) j" for j
        using that(2) i(3) by (auto simp: eq at_floor_def nth_list_update not_less)
      with that h show ?thesis
        unfolding floor_held_def recorded_sel by blast
    qed
    moreover have "?p \<Longrightarrow> floor_held (recorded q b s)"
      by (simp add: eq floor_held_def)
    ultimately show ?thesis by blast
  qed
  then show "queue_wf (recorded q b s)" "synced (set_state b s bs) (recorded q b s)"
    "ties_held q \<Longrightarrow> ties_held (recorded q b s)" "floor_held q \<Longrightarrow> floor_held (recorded q b s)"
    by blast+
qed

lemma recorded_inv:
  assumes "queued s = queued (b_state bs b)" "tie s = tie (b_state bs b)"
  shows "queue_inv bs q \<Longrightarrow> queue_inv (set_state b s bs) (recorded q b s)"
    "mid_inv bs q \<Longrightarrow> mid_inv (set_state b s bs) (recorded q b s)"
  using recorded_ok [of q bs s b] assms by (auto simp: queue_inv_def mid_inv_def alone_held_def)

lemma charge_sel [simp]: "queued (charge s w t) = queued s" "tie (charge s w t) = tie s"
  by (simp_all add: charge_def Let_def)

lemma rescale_sel [simp]: "queued (rescale s old new f) = queued s" "tie (rescale s old new f) = tie s"
  by (simp_all add: rescale_def Let_def)

lemma lift_sel [simp]: "queued (lift p c wc wp f) = queued p" "tie (lift p c wc wp f) = tie p"
  by (simp_all add: lift_def Let_def)

lemma fold_charge_inv:
  assumes "mid_inv bs q" "fold_charge bs q b t = (bs', q')"
  shows "queue_inv bs' q'" "qfloor q \<le> qfloor q'" "slots q' = slots q" "qlen q' = qlen q"
proof -
  let ?s = "charge (b_state bs b) (b_weight bs b) t"
  have "mid_inv (set_state b ?s bs) (recorded q b ?s)"
    using recorded_inv(2) [OF _ _ assms(1), of ?s b] by simp
  moreover have "raise_floor (set_state b ?s bs) (recorded q b ?s) = (bs', q')"
    using assms(2) by (simp add: fold_charge_def Let_def)
  ultimately have *: "queue_inv bs' q'" "qfloor (recorded q b ?s) \<le> qfloor q'" "same_slots (recorded q b ?s) q'"
    by (auto dest: raise_floor_inv)
  show "queue_inv bs' q'" "qfloor q \<le> qfloor q'" "slots q' = slots q" "qlen q' = qlen q"
    using * by (simp_all add: same_slots_def)
qed

lemma queue_inv_weights:
  "length ws = length (weights q) \<Longrightarrow> queue_inv bs (q\<lparr>weights := ws\<rparr>) = queue_inv bs q"
  "length ws = length (weights q) \<Longrightarrow> mid_inv bs (q\<lparr>weights := ws\<rparr>) = mid_inv bs q"
  by (simp_all add: mid_inv_def queue_inv_def queue_wf_def synced_def floor_held_def ties_held_def alone_held_def
      holds_floor_def has_thread_def thread_count_def at_floor_def)

lemma reweigh_inv:
  assumes "reweigh bs q b old new = (bs', q')"
  shows "queue_inv bs q \<Longrightarrow> queue_inv bs' q'" "mid_inv bs q \<Longrightarrow> mid_inv bs' q'" "qfloor q' = qfloor q"
proof -
  let ?s = "rescale (b_state bs b) old new (qfloor q)"
  have "queue_inv bs q \<Longrightarrow> queue_inv (set_state b ?s bs) (recorded q b ?s)"
    "mid_inv bs q \<Longrightarrow> mid_inv (set_state b ?s bs) (recorded q b ?s)"
    using recorded_inv [of ?s bs b q] by simp_all
  then show "queue_inv bs q \<Longrightarrow> queue_inv bs' q'" "mid_inv bs q \<Longrightarrow> mid_inv bs' q'"
    using assms by (auto simp: reweigh_def Let_def queue_inv_weights split: option.splits if_splits)
  show "qfloor q' = qfloor q"
    using assms by (auto simp: reweigh_def Let_def split: option.splits if_splits)
qed

lemma create_inv:
  assumes "\<not> contains q child" "create bs q child parent = (bs', q')"
  shows "queue_inv bs q \<Longrightarrow> queue_inv bs' q'" "mid_inv bs q \<Longrightarrow> mid_inv bs' q'" "q' = q"
  using assms synced_unslotted [of q bs child]
  by (auto simp: create_def Let_def queue_inv_def mid_inv_def contains_def)

section \<open>Counts, leaves and wakes\<close>

lemma recounted_sel [simp]:
  "slots (recounted i h q) = slots q" "qlen (recounted i h q) = qlen q" "harts (recounted i h q) = harts q"
  "qfloor (recounted i h q) = qfloor q" "ranks (recounted i h q) = ranks q"
  "waiting (recounted i h q) = waiting q" "running (recounted i h q) = running q"
  "capped (recounted i h q) = capped q"
  by (simp_all add: recounted_def)

lemma recount_inv:
  assumes "queue_inv bs q" "length ws = length (waiting q)" "length rs = length (running q)"
    and "\<And>j. j \<noteq> i \<Longrightarrow> ws ! j = waiting q ! j \<and> rs ! j = running q ! j"
  shows "queue_inv bs (recounted i (has_thread q i) (q\<lparr>waiting := ws, running := rs\<rparr>))" (is "queue_inv bs ?q")
proof -
  have "has_thread ?q j = has_thread q j" if "j \<noteq> i \<or> \<not> qpending ?q" for j
    using that assms(4) [of j] by (cases "j = i") (auto simp: recounted_def has_thread_def thread_count_def)
  then have "floor_held ?q"
    using assms(1) by (cases "qpending ?q")
      (auto simp: queue_inv_def floor_held_def holds_floor_def at_floor_def recounted_def)
  then show ?thesis
    using assms by (simp add: queue_inv_def recounted_def queue_wf_def synced_def ties_held_def alone_held_def)
qed

lemma set_waiting_inv:
  assumes "queue_inv bs q"
  shows "queue_inv bs (set_waiting q b n)"
proof (cases "slot_of q b")
  case (Some i)
  have "queue_inv bs (recounted i (has_thread q i) (q\<lparr>waiting := (waiting q)[i := n], running := running q\<rparr>))"
    by (rule recount_inv [OF assms]) simp_all
  then show ?thesis using assms Some by (simp add: set_waiting_def)
qed (use assms in \<open>simp add: set_waiting_def\<close>)

lemma ran_by_inv:
  assumes "queue_inv bs q"
  shows "queue_inv bs (ran_by q b started)"
proof (cases "slot_of q b")
  case (Some i)
  have "queue_inv bs (recounted i (has_thread q i) (q\<lparr>waiting := waiting q, running := (running q)[i := r]\<rparr>))" for r
    by (rule recount_inv [OF assms]) simp_all
  then show ?thesis using assms Some by (simp add: ran_by_def)
qed (use assms in \<open>simp add: ran_by_def\<close>)

lemma remove_at_floor:
  assumes "queue_wf q" "i < qlen q" "floor_held q"
  shows "floor_held (remove_at q i)"
proof -
  have "\<exists>j<qlen q - 1. holds_floor (remove_at q i) j \<and> at_floor (remove_at q i) j"
    if "k < qlen q" "k \<noteq> i" "holds_floor q k" "at_floor q k" for k
    using remove_at_kept [OF assms(1,2) that(1,2)] that(3,4)
    by (auto simp: holds_floor_def has_thread_def thread_count_def at_floor_def)
  moreover have "\<not> holds_floor (remove_at q i) j" if "\<forall>k<qlen q. \<not> holds_floor q k" "j < qlen q - 1" for j
    using that remove_at_holds [OF assms(1,2) that(2)] by auto
  ultimately show ?thesis
    using assms(3) unfolding floor_held_def remove_at_sel by blast
qed

lemma remove_at_alone: "queue_wf q \<Longrightarrow> i < qlen q \<Longrightarrow> alone_held q \<Longrightarrow> alone_held (remove_at q i)"
  using remove_at_nth(1,7) [of q i] by (auto simp: alone_held_def)

lemma remove_slot_mid:
  assumes "mid_inv bs q" "slot_of q b = Some i"
    and "\<And>c. c \<noteq> b \<Longrightarrow> b_state bs' c = b_state bs c" "b_id bs' = b_id bs"
  shows "mid_inv bs' (remove_at q i)"
proof -
  have i: "i < qlen q" "slots q ! i = Some b" using slot_of_SomeD [OF assms(2)] by auto
  have q: "queue_wf q" "synced bs q" using assms(1) by (simp_all add: mid_inv_def)
  show ?thesis
    using assms(1) remove_at_wf [OF q(1) i(1)] remove_at_ties [OF q(1) i(1)] remove_at_floor [OF q(1) i(1)]
      remove_at_alone [OF q(1) i(1)] remove_at_synced [OF q(1) i assms(3,4) q(2)]
    by (simp add: mid_inv_def)
qed

lemma drop_slot_mid:
  assumes "mid_inv bs q"
  shows "mid_inv (set_state b s bs) (case slot_of q b of Some i \<Rightarrow> remove_at q i | None \<Rightarrow> q)"
proof (cases "slot_of q b")
  case None
  then show ?thesis
    using assms synced_unslotted [of q bs b s] by (simp add: mid_inv_def)
next
  case (Some i)
  then show ?thesis
    using remove_slot_mid [OF assms Some, of "set_state b s bs"] by simp
qed

lemma drop_slot_sel [simp]:
  "qfloor (case i of Some i \<Rightarrow> remove_at q i | None \<Rightarrow> q) = qfloor q"
  "harts (case i of Some i \<Rightarrow> remove_at q i | None \<Rightarrow> q) = harts q"
  by (simp_all split: option.split)

lemma destroy_inv:
  assumes "mid_inv bs q" "destroy bs q child parent wc wp = (bs', q')"
  shows "queue_inv bs' q'" "qfloor q \<le> qfloor q'"
proof -
  define s where "s p = lift (b_state bs p) (b_state bs child) wc wp (qfloor q)" for p
  define bs1 where "bs1 = (case parent of None \<Rightarrow> bs | Some p \<Rightarrow> set_state p (s p) bs)"
  define q1 where "q1 = (case parent of None \<Rightarrow> q | Some p \<Rightarrow> recorded q p (s p))"
  define q2 where "q2 = (case slot_of q1 child of Some i \<Rightarrow> remove_at q1 i | None \<Rightarrow> q1)"
  have "mid_inv bs1 q1"
    using assms(1) recorded_inv(2) [of "s p" bs p q for p]
    by (auto simp: bs1_def q1_def s_def split: option.split)
  then have "mid_inv bs1 q2"
    using drop_slot_mid [of bs1 q1 child "b_state bs1 child"] by (simp add: q2_def set_state_def)
  moreover obtain q3 where q3: "raise_floor bs1 q2 = (bs', q3)" "q' = reset_if_empty q3"
    using assms(2) by (auto simp: destroy_def Let_def bs1_def q1_def q2_def s_def split: option.splits prod.splits)
  ultimately show "queue_inv bs' q'"
    using reset_if_empty_inv raise_floor_inv(1) by blast
  have "qfloor q2 = qfloor q" by (simp add: q2_def q1_def split: option.split)
  then show "qfloor q \<le> qfloor q'"
    using raise_floor_inv(2) [OF \<open>mid_inv bs1 q2\<close> q3(1)] q3(2) by simp
qed

lemma push_mid:
  assumes "mid_inv bs q" "slot_of q b = None" "push q b (b_id bs b) w = (q1, Some i)"
    and "harts q = 1 \<longrightarrow> qpending q \<or> 0 < qlen q" "queued s" "length ws = length (waiting q)"
    and "i64_min \<le> tf" "tf \<le> tie_front q" "tie_back q \<le> tb" "tb \<le> i64_max" "tf \<le> tie s" "tie s \<le> tb"
  shows "mid_inv (set_state b s bs)
           (q1\<lparr>waiting := ws, tie_front := tf, tie_back := tb, ranks := (ranks q1)[i := Rank (pass s) (tie s) (b_id bs b)]\<rparr>)"
    (is "mid_inv _ ?q")
proof -
  have q: "queue_wf q" "synced bs q" "ties_held q" "alone_held q" "harts q = 1 \<longrightarrow> floor_held q"
    using assms(1) by (simp_all add: mid_inv_def)
  show ?thesis
    using assms(3)
  proof (cases rule: push_cases)
    case 2
    have lt: "qlen q < length (slots q)" using q(1) 2(1) by (simp add: queue_wf_def)
    have lens: "length (ranks q) = length (slots q)" "length (capped q) = length (slots q)"
      using q(1) by (simp_all add: queue_wf_def)
    have i: "i = qlen q" using 2(2) by simp
    have "queue_wf ?q"
      using push_wf [OF q(1) assms(3,2)] assms(6) 2 q(1) by (simp add: queue_wf_def)
    moreover have "synced (set_state b s bs) ?q"
      using q(2) lt lens slot_of_NoneD [OF assms(2)] assms(5)
      by (auto simp: synced_def 2 i nth_list_update less_Suc_eq)
    moreover have "ties_held ?q"
      using q(3) assms(7-12) lt lens by (auto simp: ties_held_def 2 i nth_list_update less_Suc_eq intro: order_trans)
    moreover have alone: "alone_held ?q"
      using q(4) lt lens by (auto simp: alone_held_def 2 nth_list_update less_Suc_eq)
    moreover have "floor_held ?q" if one: "harts q = 1"
    proof (cases "qpending q")
      case False
      then have "0 < qlen q" using assms(4) one by simp
      moreover have "holds_floor q j" if "j < qlen q" for j
        using q(4) one that by (simp add: alone_held_def holds_floor_def has_thread_def)
      ultimately obtain j where "j < qlen q" "at_floor q j"
        using q(5) one False by (auto simp: floor_held_def)
      then have "j < qlen ?q" "holds_floor ?q j" "at_floor ?q j"
        using q(4) one lens lt
        by (simp_all add: alone_held_def holds_floor_def has_thread_def at_floor_def 2 i nth_list_update)
      then show ?thesis unfolding floor_held_def by blast
    qed (simp add: floor_held_def 2)
    ultimately show ?thesis by (simp add: mid_inv_def 2)
  qed simp
qed

lemma leave_one_mid:
  assumes "mid_inv (fst bq) (snd bq)"
  shows "mid_inv (fst (leave_one run wait b bq)) (snd (leave_one run wait b bq)) \<and>
    qfloor (snd (leave_one run wait b bq)) = qfloor (snd bq)"
proof (cases bq)
  case (Pair bs q)
  then show ?thesis
    using assms drop_slot_mid [of bs q b] by (simp add: leave_one_def Let_def)
qed

lemma leave_all_mid:
  assumes "mid_inv bs q" "fold (leave_one run wait) lost (bs, q) = (bs', q')"
  shows "mid_inv bs' q'" "qfloor q' = qfloor q"
proof -
  let ?P = "\<lambda>bq. mid_inv (fst bq) (snd bq) \<and> qfloor (snd bq) = qfloor q"
  have "?P (fold (leave_one run wait) lost (bs, q))"
  proof (rule fold_invariant [where Q = "\<lambda>_. True"])
    show "?P (leave_one run wait b bq)" if "?P bq" for b bq
      using leave_one_mid [of bq run wait b] that by simp
  qed (use assms(1) in simp_all)
  then show "mid_inv bs' q'" "qfloor q' = qfloor q" by (simp_all add: assms(2))
qed

lemma tie_front_down: "ties_held q \<Longrightarrow>
   i64_min \<le> i64_saturating_sub (tie_front q) 1 \<and> i64_saturating_sub (tie_front q) 1 \<le> tie_front q \<and>
   tie_back q \<le> i64_max \<and> i64_saturating_sub (tie_front q) 1 \<le> tie_back q"
  by (auto simp: ties_held_def i64_saturating_sub_def)

lemma tie_back_up: "ties_held q \<Longrightarrow>
   i64_saturating_add (tie_back q) 1 \<le> i64_max \<and> tie_back q \<le> i64_saturating_add (tie_back q) 1 \<and>
   i64_min \<le> tie_front q \<and> tie_front q \<le> i64_saturating_add (tie_back q) 1"
  by (auto simp: ties_held_def i64_saturating_add_def)

text \<open>One wake, once its slot \<open>i\<close> is pushed.\<close>

definition woken ::
  "(('b, 'z) budgets_scheme \<Rightarrow> 'b \<Rightarrow> u32) \<Rightarrow> 'b \<Rightarrow> nat \<Rightarrow> ('b, 'z) budgets_scheme \<Rightarrow> 'b queue \<Rightarrow>
   ('b, 'z) budgets_scheme \<times> 'b queue" where
  "woken wait b i bs q1 =
     (let fr = i64_saturating_sub (tie_front q1) 1;
          s' = (b_state bs b)\<lparr>pass := max (pass (b_state bs b)) (qfloor q1), tie := fr, queued := True\<rparr>
      in (set_state b s' bs,
          q1\<lparr>waiting := (waiting q1)[i := wait bs b], tie_front := fr,
             ranks := (ranks q1)[i := Rank (pass s') fr (rank_id (ranks q1 ! i))]\<rparr>))"

lemma wake_one_mid:
  assumes "mid_inv bs q" "harts q = 1 \<longrightarrow> qpending q \<or> 0 < qlen q" "slot_of q b = None"
    and p: "push q b (b_id bs b) w = (q1, Some i)"
  shows "mid_inv (fst (woken wait b i bs q1)) (snd (woken wait b i bs q1))"
    "qlen (snd (woken wait b i bs q1)) > 0" "qfloor (snd (woken wait b i bs q1)) = qfloor q"
    "harts (snd (woken wait b i bs q1)) = harts q"
proof -
  have q1: "tie_front q1 = tie_front q" "tie_back q1 = tie_back q" "qfloor q1 = qfloor q"
    "harts q1 = harts q" "qlen q1 = qlen q + 1" "rank_id (ranks q1 ! i) = b_id bs b"
    "length (waiting q1) = length (waiting q)"
    using assms(1) by (auto intro: push_cases [OF p] simp: mid_inv_def queue_wf_def)
  define s where "s = (b_state bs b)\<lparr>pass := max (pass (b_state bs b)) (qfloor q1),
    tie := i64_saturating_sub (tie_front q1) 1, queued := True\<rparr>"
  have "mid_inv (set_state b s bs) (q1\<lparr>waiting := (waiting q1)[i := wait bs b], tie_front := tie s,
      tie_back := tie_back q1, ranks := (ranks q1)[i := Rank (pass s) (tie s) (b_id bs b)]\<rparr>)"
    using assms(1) q1 tie_front_down [of q]
    by (intro push_mid [OF assms(1,3) p assms(2)]) (auto simp: s_def mid_inv_def)
  then show "mid_inv (fst (woken wait b i bs q1)) (snd (woken wait b i bs q1))"
    by (simp add: woken_def Let_def s_def q1(6))
  show "qlen (snd (woken wait b i bs q1)) > 0" "qfloor (snd (woken wait b i bs q1)) = qfloor q"
    "harts (snd (woken wait b i bs q1)) = harts q"
    by (simp_all add: woken_def Let_def q1)
qed

lemma wake_all_mid:
  assumes "mid_inv bs q" "harts q = 1 \<longrightarrow> qpending q \<or> 0 < qlen q" "wake_all wait gained bs q = (bs', q')"
  shows "mid_inv bs' q' \<and> qfloor q' = qfloor q"
  using assms
proof (induction gained arbitrary: bs q)
  case (Cons b rest)
  show ?case
  proof (cases "\<not> b_live bs b \<or> \<not> wait bs b > 0 \<or> queued (b_state bs b)")
    case True
    then show ?thesis using Cons.IH Cons.prems by (auto split: if_splits)
  next
    case False
    then have none: "slot_of q b = None"
      using Cons.prems(1) unqueued_unslotted by (auto simp: mid_inv_def)
    obtain q1 r where p: "push q b (b_id bs b) (weight_for_caps q bs b) = (q1, r)" by fastforce
    show ?thesis
    proof (cases r)
      case None
      with p have "q1 = q" by (auto elim: push_cases)
      then show ?thesis using Cons.prems False p None by (simp add: Let_def)
    next
      case (Some i)
      note m = wake_one_mid [OF Cons.prems(1,2) none p [unfolded Some], of wait]
      have "wake_all wait rest (fst (woken wait b i bs q1)) (snd (woken wait b i bs q1)) = (bs', q')"
        using Cons.prems(3) False p Some by (simp add: Let_def woken_def)
      then show ?thesis
        using Cons.IH [OF m(1)] m(2,3) by simp
    qed
  qed
qed simp

section \<open>Deschedule and reconcile\<close>

lemma requeue_mid:
  assumes "mid_inv bs q" "slot_of q b = Some i"
    and "tb = i64_saturating_add (tie_back q) 1"
  shows "mid_inv (set_state b ((b_state bs b)\<lparr>tie := tb, queued := True\<rparr>) bs)
           (q\<lparr>tie_back := tb, ranks := (ranks q)[i := Rank (pass (b_state bs b)) tb (b_id bs b)]\<rparr>)"
    (is "mid_inv (set_state b ?s bs) ?q")
proof -
  have q: "queue_wf q" "synced bs q" "ties_held q" "alone_held q" "harts q = 1 \<longrightarrow> floor_held q"
    using assms(1) by (simp_all add: mid_inv_def)
  have i: "i < qlen q" "slots q ! i = Some b" "i < length (ranks q)"
    using slot_of_SomeD [OF assms(2)] q(1) by (auto simp: queue_wf_def)
  note sb = syncedD [OF q(2) i(1,2)]
  have "synced (set_state b ?s bs) (q\<lparr>ranks := (ranks q)[i := Rank (pass ?s) (tie ?s) (b_id bs b)]\<rparr>)"
    by (rule synced_update [OF q(1,2) i(1,2)]) simp
  then have "synced (set_state b ?s bs) ?q" by (simp add: synced_def)
  moreover have "ties_held ?q"
    using q(3) tie_back_up [OF q(3)] i assms(3) by (auto simp: ties_held_def nth_list_update intro: order_trans)
  moreover have "floor_held q \<longrightarrow> floor_held ?q"
  proof -
    have "at_floor ?q j = at_floor q j" "holds_floor ?q j = holds_floor q j" for j
      using sb i(3) by (auto simp: at_floor_def holds_floor_def has_thread_def thread_count_def nth_list_update)
    then show ?thesis by (simp add: floor_held_def)
  qed
  ultimately show ?thesis
    using q by (simp add: mid_inv_def queue_wf_def alone_held_def)
qed

lemma deschedule_inv:
  assumes "mid_inv bs q" "deschedule bs q b still = (bs', q')"
    and "still \<longrightarrow> contains q b \<or> harts q > 1"
  shows "queue_inv bs' q' \<and> qfloor q \<le> qfloor q'"
proof -
  note mid = assms(1)
  have ties: "ties_held q" using mid by (simp add: mid_inv_def)
  let ?tb = "i64_saturating_add (tie_back q) 1" and ?s = "b_state bs b"
  have fin: "queue_inv bs' q' \<and> qfloor q \<le> qfloor q'"
    if "mid_inv bs2 q2" "qfloor q2 = qfloor q" "raise_floor bs2 q2 = (bs', q3)" "q' = reset_if_empty q3" for bs2 q2 q3
    using raise_floor_inv [OF that(1,3)] that(2,4) reset_if_empty_inv by simp
  show ?thesis
  proof (cases "still \<and> slot_of q b \<noteq> None")
    case True
    then obtain i where i: "slot_of q b = Some i" by blast
    show ?thesis
      using assms(2) True i fin [OF requeue_mid [OF mid i refl]]
      by (auto simp: deschedule_def Let_def requeue_slot_def split: prod.splits)
  next
    case False
    obtain q1 r where r: "requeue_slot bs q b still = (q1, r)" by fastforce
    show ?thesis
    proof (cases r)
      case None
      then have "q1 = q"
        using r False by (auto simp: requeue_slot_def split: if_splits option.splits elim: push_cases)
      then show ?thesis
        using assms(2) r None fin [OF drop_slot_mid [OF mid, of b "?s\<lparr>queued := False\<rparr>"]]
        by (auto simp: deschedule_def Let_def split: prod.splits)
    next
      case (Some i)
      then have p: "push q b (b_id bs b) (weight_for_caps q bs b) = (q1, Some i)" and n: "slot_of q b = None" and "still"
        using r False by (auto simp: requeue_slot_def split: if_splits option.splits)
      have h: "harts q = 1 \<longrightarrow> qpending q \<or> 0 < qlen q"
        using assms(3) n \<open>still\<close> by (auto simp: contains_def)
      have q1: "tie_back q1 = tie_back q" "tie_front q1 = tie_front q" "qfloor q1 = qfloor q"
        "length (waiting q1) = length (waiting q)"
        by (rule push_cases [OF p]; simp)+
      have "mid_inv (set_state b (?s\<lparr>tie := ?tb, queued := True\<rparr>) bs)
          (q1\<lparr>waiting := waiting q1, tie_front := tie_front q1, tie_back := ?tb,
             ranks := (ranks q1)[i := Rank (pass (?s\<lparr>tie := ?tb, queued := True\<rparr>)) (tie (?s\<lparr>tie := ?tb, queued := True\<rparr>)) (b_id bs b)]\<rparr>)"
        using tie_back_up [OF ties] q1 by (intro push_mid [OF mid n p h]) simp_all
      then have m: "mid_inv (set_state b (?s\<lparr>tie := ?tb, queued := True\<rparr>) bs)
          (q1\<lparr>tie_back := ?tb, ranks := (ranks q1)[i := Rank (pass ?s) ?tb (b_id bs b)]\<rparr>)" by simp
      show ?thesis
        using assms(2) r Some q1 fin [OF m]
        by (auto simp: deschedule_def Let_def split: prod.splits)
    qed
  qed
qed

lemma set_waiting_mid: "mid_inv bs q \<Longrightarrow> mid_inv bs (set_waiting q b n)"
  by (simp add: set_waiting_def mid_inv_def recounted_def queue_wf_def synced_def ties_held_def alone_held_def
      split: option.split)

lemma ran_by_mid: "mid_inv bs q \<Longrightarrow> mid_inv bs (ran_by q b started)"
  by (simp add: ran_by_def mid_inv_def recounted_def queue_wf_def synced_def ties_held_def alone_held_def
      split: option.split)

lemma count_visited_mid: "mid_inv bs q \<Longrightarrow> mid_inv bs (fold (count_visited bs wait) xs q)"
  by (induction xs arbitrary: q) (simp_all add: count_visited_def set_waiting_mid)

lemma set_waiting_sel [simp]:
  "harts (set_waiting q b n) = harts q" "qfloor (set_waiting q b n) = qfloor q"
  "slots (set_waiting q b n) = slots q" "qlen (set_waiting q b n) = qlen q" "ranks (set_waiting q b n) = ranks q"
  by (simp_all add: set_waiting_def split: option.split)

lemma count_visited_sel [simp]:
  "harts (fold (count_visited bs wait) xs q) = harts q" "qfloor (fold (count_visited bs wait) xs q) = qfloor q"
  by (induction xs arbitrary: q) (simp_all add: count_visited_def)


text \<open>The stages of a reconcile: the counts, the leaves, the raise, the wakes and the last raise.\<close>

lemma reconcile_countedE:
  assumes "mid_inv bs q" "reconcile_counted bs q run lost gained wait = (bs', q')"
  obtains q1 bs2 q2 bs3 q3 q5 bs6 q6 where
    "q1 = (if harts q > 1 then fold (count_visited bs wait) (lost @ gained) q else q)"
    "mid_inv bs q1" "fold (leave_one run wait) lost (bs, q1) = (bs2, q2)" "mid_inv bs2 q2"
    "raise_floor bs2 q2 = (bs3, q3)" "q5 = (reset_if_empty q3)\<lparr>qpending := qpending q3 \<or> is_empty q3\<rparr>"
    "mid_inv bs3 q5" "harts q5 = 1 \<longrightarrow> qpending q5 \<or> 0 < qlen q5"
    "wake_all wait (rev (sort_key (b_id bs3) gained)) bs3 q5 = (bs6, q6)" "mid_inv bs6 q6"
    "raise_floor bs6 q6 = (bs', q')" "qfloor q \<le> qfloor q6"
proof -
  define q1 where "q1 = (if harts q > 1 then fold (count_visited bs wait) (lost @ gained) q else q)"
  have m1: "mid_inv bs q1" "qfloor q1 = qfloor q"
    using assms(1) by (simp_all add: q1_def count_visited_mid del: fold_append)
  obtain bs2 q2 where l: "fold (leave_one run wait) lost (bs, q1) = (bs2, q2)" by fastforce
  have m2: "mid_inv bs2 q2" "qfloor q2 = qfloor q"
    using m1 leave_all_mid [OF m1(1) l] by simp_all
  obtain bs3 q3 where r: "raise_floor bs2 q2 = (bs3, q3)" by fastforce
  define q5 where "q5 = (reset_if_empty q3)\<lparr>qpending := qpending q3 \<or> is_empty q3\<rparr>"
  have i4: "queue_inv bs3 (reset_if_empty q3)" and f3: "qfloor q \<le> qfloor q3"
    using raise_floor_inv [OF m2(1) r] m2(2) reset_if_empty_inv by auto
  have m5: "mid_inv bs3 q5" "harts q5 = 1 \<longrightarrow> qpending q5 \<or> 0 < qlen q5" "qfloor q5 = qfloor q3"
    using i4 by (auto simp: q5_def mid_inv_def queue_inv_def queue_wf_def synced_def ties_held_def alone_held_def
        floor_held_def holds_floor_def has_thread_def at_floor_def is_empty_def reset_if_empty_def)
  obtain bs6 q6 where w: "wake_all wait (rev (sort_key (b_id bs3) gained)) bs3 q5 = (bs6, q6)" by fastforce
  have m6: "mid_inv bs6 q6" "qfloor q6 = qfloor q3"
    using wake_all_mid [OF m5(1,2) w] m5(3) by auto
  have q5: "(reset_if_empty q3)\<lparr>qpending := qpending (reset_if_empty q3) \<or> is_empty (reset_if_empty q3)\<rparr> = q5"
    by (simp add: q5_def reset_if_empty_def is_empty_def)
  have e: "raise_floor bs6 q6 = (bs', q')"
    using assms(2) l r w by (simp add: reconcile_counted_def Let_def q1_def [symmetric] q5 split: prod.splits)
  show ?thesis
    by (rule that [OF q1_def m1(1) l m2(1) r q5_def m5(1,2) w m6(1) e]) (use f3 m6(2) in simp)
qed

lemma reconcile_counted_inv:
  assumes "mid_inv bs q" "reconcile_counted bs q run lost gained wait = (bs', q')"
  shows "queue_inv bs' q'" "qfloor q \<le> qfloor q'"
proof -
  from assms have "queue_inv bs' q' \<and> qfloor q \<le> qfloor q'"
    by (rule reconcile_countedE) (meson order_trans raise_floor_inv(1,2))
  then show "queue_inv bs' q'" "qfloor q \<le> qfloor q'" by simp_all
qed

section \<open>The audit\<close>

definition slot_ok :: "('b, 'z) budgets_scheme \<Rightarrow> 'b queue \<Rightarrow> nat \<Rightarrow> bool" where
  "slot_ok bs q i \<longleftrightarrow> (case slots q ! i of None \<Rightarrow> True | Some b \<Rightarrow>
     queued (b_state bs b) \<and> ranks q ! i = Rank (pass (b_state bs b)) (tie (b_state bs b)) (b_id bs b))"

definition least_le :: "u128 \<Rightarrow> (u128 \<times> 'b) option \<Rightarrow> bool" where
  "least_le f r \<longleftrightarrow> (case r of None \<Rightarrow> False | Some (p, _) \<Rightarrow> p \<le> f)"

lemma audit_loop_Some:
  assumes "slots q ! i = Some b"
  shows "audit_loop bs q (i # is) least =
    (if \<not> slot_ok bs q i then Inl b
     else if holds_floor q i \<and> (case least of None \<Rightarrow> True | Some (p, _) \<Rightarrow> rank_pass (ranks q ! i) < p)
     then audit_loop bs q is (Some (rank_pass (ranks q ! i), b))
     else audit_loop bs q is least)"
  using assms by (cases "ranks q ! i") (auto simp: slot_ok_def Let_def split: option.splits)

lemma audit_loop_Inl: "(\<exists>b. audit_loop bs q is least = Inl b) \<longleftrightarrow> (\<exists>i\<in>set is. \<not> slot_ok bs q i)"
proof (induction "is" arbitrary: least)
  case (Cons i "is")
  show ?case
  proof (cases "slots q ! i")
    case (Some b)
    show ?thesis
      by (simp only: audit_loop_Some [OF Some]) (use Cons.IH in \<open>simp split: if_split\<close>)
  qed (use Cons.IH in \<open>simp add: slot_ok_def\<close>)
qed simp

lemma audit_loop_Inr:
  assumes "audit_loop bs q is least = Inr r" "\<And>i. i \<in> set is \<Longrightarrow> slots q ! i \<noteq> None"
  shows "(r = None \<longleftrightarrow> least = None \<and> (\<forall>i\<in>set is. \<not> holds_floor q i)) \<and>
    (least_le f r \<longleftrightarrow> least_le f least \<or> (\<exists>i\<in>set is. holds_floor q i \<and> rank_pass (ranks q ! i) \<le> f))"
  using assms
proof (induction "is" arbitrary: least)
  case (Cons i "is")
  then obtain b where b: "slots q ! i = Some b" by fastforce
  have ok: "slot_ok bs q i"
    using Cons.prems(1) audit_loop_Inl [of bs q "i # is" least] by (metis Inl_Inr_False list.set_intros(1))
  show ?case
  proof (cases "holds_floor q i \<and> (case least of None \<Rightarrow> True | Some (p, _) \<Rightarrow> rank_pass (ranks q ! i) < p)")
    case True
    then have "audit_loop bs q is (Some (rank_pass (ranks q ! i), b)) = Inr r"
      using Cons.prems(1) ok by (simp only: audit_loop_Some [OF b] if_True if_False simp_thms)
    from Cons.IH [OF this] Cons.prems(2) show ?thesis
      using True by (auto simp: least_le_def split: option.splits)
  next
    case False
    then have "audit_loop bs q is least = Inr r"
      using Cons.prems(1) ok by (simp only: audit_loop_Some [OF b] if_True if_False simp_thms)
    from Cons.IH [OF this] Cons.prems(2) show ?thesis
      using False by (auto simp: least_le_def split: option.splits)
  qed
qed simp

lemma synced_slot_ok: "synced bs q \<longleftrightarrow> (\<forall>i<qlen q. slot_ok bs q i)"
  by (auto simp: synced_def slot_ok_def split: option.splits)

lemma audit_iff:
  assumes "queue_wf q"
  shows "audit bs q = Inr () \<longleftrightarrow> synced bs q \<and> floor_held q"
proof (cases "audit_loop bs q [0..<qlen q] None")
  case (Inl b)
  then have "\<not> synced bs q"
    using audit_loop_Inl [of bs q "[0..<qlen q]" None] by (auto simp: synced_slot_ok)
  then show ?thesis by (simp add: audit_def Inl)
next
  case (Inr r)
  have s: "synced bs q"
    using audit_loop_Inl [of bs q "[0..<qlen q]" None] Inr by (auto simp: synced_slot_ok)
  have "\<And>i. i \<in> set [0..<qlen q] \<Longrightarrow> slots q ! i \<noteq> None"
    using wf_slot_nonempty [OF assms] by fastforce
  from audit_loop_Inr [OF Inr this, of "qfloor q"]
  have "floor_held q \<longleftrightarrow> qpending q \<or> r = None \<or> least_le (qfloor q) r"
    by (auto simp: floor_held_def least_le_def at_floor_def)
  then show ?thesis using s by (auto simp: audit_def Inr least_le_def split: option.splits)
qed

end
