(* ===== verification/Stride_Refine.thy ===== *)
theory Stride_Refine
  imports Stride_Inv
begin

text \<open>
  The queue's dense arrays as a finite map: \<open>view q\<close> takes a budget to what its slot holds. A push
  is an insertion, a swap-removal a deletion, and a pass restated an update at one key, so the
  place of a budget in the arrays never matters.
\<close>

record slot_view =
  v_rank :: rank
  v_weight :: u64
  v_waiting :: u32
  v_running :: u32
  v_capped :: bool
  v_lift :: u128

definition slot_at :: "'b queue \<Rightarrow> nat \<Rightarrow> slot_view" where
  "slot_at q i = \<lparr>v_rank = ranks q ! i, v_weight = weights q ! i, v_waiting = waiting q ! i,
                  v_running = running q ! i, v_capped = capped q ! i, v_lift = lift_to q ! i\<rparr>"

definition view :: "'b queue \<Rightarrow> 'b \<rightharpoonup> slot_view" where
  "view q b = map_option (slot_at q) (slot_of q b)"

lemma contains_view: "contains q b \<longleftrightarrow> b \<in> dom (view q)"
  by (auto simp: contains_def view_def dom_def)

lemma view_Some_iff:
  "queue_wf q \<Longrightarrow> view q b = Some v \<longleftrightarrow> (\<exists>i<qlen q. slots q ! i = Some b \<and> v = slot_at q i)"
  unfolding view_def by (auto dest: slot_of_SomeD intro: slot_of_eq_Some)

lemma view_eqI:
  assumes "queue_wf q" "\<And>b v. m b = Some v \<longleftrightarrow> (\<exists>i<qlen q. slots q ! i = Some b \<and> v = slot_at q i)"
  shows "view q = m"
proof
  fix b
  have "view q b = Some v \<longleftrightarrow> m b = Some v" for v
    using view_Some_iff [OF assms(1), of b v] assms(2) [of b v] by simp
  then show "view q b = m b" by (metis not_None_eq)
qed

lemma view_dom: "queue_wf q \<Longrightarrow> dom (view q) = {b. Some b \<in> set (take (qlen q) (slots q))}"
  by (auto simp: dom_def view_Some_iff mem_take_conv_nth queue_wf_def)

lemma view_remove_at:
  assumes "queue_wf q" "slot_of q b = Some i"
  shows "view (remove_at q i) = (view q)(b := None)"
proof (rule view_eqI)
  have i: "i < qlen q" "slots q ! i = Some b" using slot_of_SomeD [OF assms(2)] by auto
  show "queue_wf (remove_at q i)" by (rule remove_at_wf [OF assms(1) i(1)])
  fix c v
  have "(\<exists>j<qlen q - 1. slots (remove_at q i) ! j = Some c \<and> v = slot_at (remove_at q i) j) \<longleftrightarrow>
      (\<exists>k<qlen q. k \<noteq> i \<and> slots q ! k = Some c \<and> v = slot_at q k)" (is "?l \<longleftrightarrow> ?r")
  proof
    assume ?l
    then obtain j where "j < qlen q - 1" "slots (remove_at q i) ! j = Some c" "v = slot_at (remove_at q i) j" by blast
    then show ?r
      using remove_at_nth [OF assms(1) i(1), of j] by (auto simp: slot_at_def)
  next
    assume ?r
    then obtain k where k: "k < qlen q" "k \<noteq> i" "slots q ! k = Some c" "v = slot_at q k" by blast
    define j where "j = (if k = qlen q - 1 then i else k)"
    have j: "j < qlen q - 1" "(if j = i then qlen q - 1 else j) = k"
      using k(1,2) i(1) by (auto simp: j_def)
    have "slots (remove_at q i) ! j = Some c \<and> v = slot_at (remove_at q i) j"
      using remove_at_nth(3-9) [OF assms(1) i(1) j(1)] k by (simp only: j(2)) (simp add: slot_at_def)
    with j(1) show ?l by blast
  qed
  moreover have "slots q ! k = Some c \<Longrightarrow> k < qlen q \<Longrightarrow> k \<noteq> i \<longleftrightarrow> c \<noteq> b" for k
    using wf_slot_inj [OF assms(1) _ i(1), of k] i(2) by auto
  ultimately show "((view q)(b := None)) c = Some v \<longleftrightarrow>
      (\<exists>j<qlen (remove_at q i). slots (remove_at q i) ! j = Some c \<and> v = slot_at (remove_at q i) j)"
    unfolding remove_at_sel(1) by (auto simp: view_Some_iff [OF assms(1)])
qed

lemma view_push:
  assumes "queue_wf q" "push q b i w = (q', Some n)" "slot_of q b = None"
  shows "view q' = (view q)(b \<mapsto> \<lparr>v_rank = Rank 0 0 i, v_weight = w, v_waiting = 0, v_running = 0,
    v_capped = False, v_lift = qfloor q\<rparr>)"
  using assms(2)
proof (cases rule: push_cases)
  case 2
  have lt: "qlen q < length (slots q)" using assms(1) 2(1) by (simp add: queue_wf_def)
  have lens: "length (ranks q) = length (slots q)" "length (weights q) = length (slots q)"
    "length (waiting q) = length (slots q)" "length (running q) = length (slots q)"
    "length (capped q) = length (slots q)" "length (lift_to q) = length (slots q)"
    using assms(1) by (simp_all add: queue_wf_def)
  have at: "slot_at q' j = slot_at q j" "slots q' ! j = slots q ! j" if "j < qlen q" for j
    using that by (simp_all add: slot_at_def 2)
  have new: "slot_at q' (qlen q) = \<lparr>v_rank = Rank 0 0 i, v_weight = w, v_waiting = 0, v_running = 0,
      v_capped = False, v_lift = qfloor q\<rparr>" "slots q' ! qlen q = Some b"
    using lt by (simp_all add: slot_at_def 2 lens)
  have old: "slots q ! j \<noteq> Some b" if "j < qlen q" for j
    using slot_of_NoneD [OF assms(3) that] lt that by simp
  show ?thesis
  proof (rule view_eqI [OF push_wf [OF assms(1,2,3)]])
    fix c v
    show "((view q)(b \<mapsto> \<lparr>v_rank = Rank 0 0 i, v_weight = w, v_waiting = 0, v_running = 0,
        v_capped = False, v_lift = qfloor q\<rparr>)) c = Some v \<longleftrightarrow>
        (\<exists>j<qlen q'. slots q' ! j = Some c \<and> v = slot_at q' j)"
      using view_Some_iff [OF assms(1), of c v] at new old
      by (auto simp: 2(3) less_Suc_eq)
  qed
qed simp

text \<open>An update at one slot, in every array but the slots themselves.\<close>

lemma view_at:
  assumes "queue_wf q" "queue_wf q'" "slots q' = slots q" "qlen q' = qlen q" "slot_of q b = Some i"
    and "\<And>j. j < qlen q \<Longrightarrow> j \<noteq> i \<Longrightarrow> slot_at q' j = slot_at q j"
  shows "view q' = (view q)(b \<mapsto> slot_at q' i)"
proof (rule view_eqI [OF assms(2)])
  fix c v
  have i: "i < qlen q" "slots q ! i = Some b" using slot_of_SomeD [OF assms(5)] by auto
  have "slots q ! j = Some c \<Longrightarrow> j < qlen q \<Longrightarrow> j = i \<longleftrightarrow> c = b" for j
    using wf_slot_inj [OF assms(1) _ i(1), of j] i(2) by auto
  then show "((view q)(b \<mapsto> slot_at q' i)) c = Some v \<longleftrightarrow> (\<exists>j<qlen q'. slots q' ! j = Some c \<and> v = slot_at q' j)"
    using assms(6) i by (auto simp: view_Some_iff [OF assms(1)] assms(3,4))
qed

section \<open>The threads running of each budget\<close>

definition running_of :: "'b queue \<Rightarrow> 'b \<rightharpoonup> u32" where
  "running_of q b = map_option v_running (view q b)"

lemma contains_running: "contains q b \<longleftrightarrow> running_of q b \<noteq> None"
  by (auto simp: contains_view running_of_def)

lemma running_of_alt: "running_of q b = map_option (\<lambda>i. running q ! i) (slot_of q b)"
  by (cases "slot_of q b") (simp_all add: running_of_def view_def slot_at_def)

lemma running_of_cong: "slots q' = slots q \<Longrightarrow> qlen q' = qlen q \<Longrightarrow> running q' = running q \<Longrightarrow> running_of q' = running_of q"
  by (rule ext) (simp add: running_of_alt slot_of_def)

lemma running_of_same: "same_slots q q' \<Longrightarrow> running_of q' = running_of q"
  by (rule running_of_cong) (simp_all add: same_slots_def)

lemma running_of_remove: "queue_wf q \<Longrightarrow> slot_of q b = Some i \<Longrightarrow> running_of (remove_at q i) = (running_of q)(b := None)"
  by (rule ext) (simp add: running_of_def view_remove_at)

lemma running_of_push:
  "queue_wf q \<Longrightarrow> push q b i w = (q', Some n) \<Longrightarrow> slot_of q b = None \<Longrightarrow> running_of q' = (running_of q)(b \<mapsto> 0)"
  by (rule ext) (simp add: running_of_def view_push)

lemma running_of_drop:
  "queue_wf q \<Longrightarrow> running_of (case slot_of q b of Some i \<Rightarrow> remove_at q i | None \<Rightarrow> q) = (running_of q)(b := None)"
  by (cases "slot_of q b") (auto simp: running_of_remove fun_eq_iff running_of_alt)

section \<open>What each operation does to them\<close>

definition only_state :: "('b, 'z) budgets_scheme \<Rightarrow> ('b, 'z) budgets_scheme \<Rightarrow> bool" where
  "only_state bs bs' \<longleftrightarrow> (\<exists>st. bs' = bs\<lparr>b_state := st\<rparr>)"

lemma only_state_refl [simp]: "only_state bs bs"
  unfolding only_state_def by (intro exI [of _ "b_state bs"]) simp

lemma only_state_trans: "only_state bs bs' \<Longrightarrow> only_state bs' bs'' \<Longrightarrow> only_state bs bs''"
  by (auto simp: only_state_def)

lemma only_state_set [simp]: "only_state bs (set_state b s bs)"
  by (auto simp: only_state_def set_state_def)

lemma only_state_set_state: "only_state bs bs' \<Longrightarrow> only_state bs (set_state b s bs')"
  by (auto simp: only_state_def set_state_def)

lemma only_state_same: "same_budgets bs bs' \<Longrightarrow> only_state bs bs'"
  by (auto simp: only_state_def same_budgets_def)

lemma only_state_sel:
  assumes "only_state bs bs'"
  shows "b_id bs' = b_id bs" "b_weight bs' = b_weight bs" "b_live bs' = b_live bs"
    "budgets.more bs' = budgets.more bs"
  using assms by (auto simp: only_state_def)

lemma raise_floor_frame:
  assumes "mid_inv bs q" "raise_floor bs q = (bs', q')"
  shows "running_of q' = running_of q" "only_state bs bs'" "harts q' = harts q" "leaving q' = leaving q"
  using raise_floor_inv(3,4) [OF assms] by (auto intro: running_of_same only_state_same simp: same_slots_sel)

lemma recorded_running [simp]: "running_of (recorded q b s) = running_of q"
  by (rule running_of_cong) simp_all

lemma fold_charge_frame:
  assumes "mid_inv bs q" "fold_charge bs q b t = (bs', q')"
  shows "running_of q' = running_of q" "only_state bs bs'" "harts q' = harts q" "leaving q' = leaving q"
    "queue_inv bs' q'"
proof -
  let ?s = "charge (b_state bs b) (b_weight bs b) t"
  have m: "mid_inv (set_state b ?s bs) (recorded q b ?s)"
    using recorded_inv(2) [OF _ _ assms(1), of ?s b] by simp
  have e: "raise_floor (set_state b ?s bs) (recorded q b ?s) = (bs', q')"
    using assms(2) by (simp add: fold_charge_def Let_def)
  show "running_of q' = running_of q" "only_state bs bs'" "harts q' = harts q" "leaving q' = leaving q"
    using raise_floor_frame [OF m e] only_state_trans [OF only_state_set] by (auto)
  show "queue_inv bs' q'" by (rule raise_floor_inv(1) [OF m e])
qed

lemma reweigh_frame:
  assumes "reweigh bs q b old new = (bs', q')"
  shows "running_of q' = running_of q" "only_state bs bs'" "harts q' = harts q" "leaving q' = leaving q"
  using assms
  by (auto simp: reweigh_def Let_def running_of_alt slot_of_def fun_eq_iff split: option.splits if_splits)

lemma create_frame:
  assumes "create bs q child parent = (bs', q')"
  shows "running_of q' = running_of q" "only_state bs bs'" "q' = q"
  using assms by (auto simp: create_def Let_def)

lemma reset_running [simp]: "running_of (reset_if_empty q) = running_of q"
  by (rule running_of_cong) (simp_all add: reset_if_empty_def)

lemma reset_leaving [simp]: "leaving (reset_if_empty q) = leaving q"
  by (simp add: reset_if_empty_def)

lemma mid_wf: "mid_inv bs q \<Longrightarrow> queue_wf q"
  by (simp add: mid_inv_def)

lemma destroy_frame:
  assumes "mid_inv bs q" "destroy bs q child parent wc wp = (bs', q')"
  shows "running_of q' = (running_of q)(child := None) \<and> only_state bs bs' \<and> harts q' = harts q \<and>
    leaving q' = leaving q"
proof -
  define s where "s p = lift (b_state bs p) (b_state bs child) wc wp (qfloor q)" for p
  define bs1 where "bs1 = (case parent of None \<Rightarrow> bs | Some p \<Rightarrow> set_state p (s p) bs)"
  define q1 where "q1 = (case parent of None \<Rightarrow> q | Some p \<Rightarrow> recorded q p (s p))"
  define q2 where "q2 = (case slot_of q1 child of Some i \<Rightarrow> remove_at q1 i | None \<Rightarrow> q1)"
  have m1: "mid_inv bs1 q1"
    using assms(1) recorded_inv(2) [of "s p" bs p q for p]
    by (auto simp: bs1_def q1_def s_def split: option.split)
  then have m2: "mid_inv bs1 q2"
    using drop_slot_mid [of bs1 q1 child "b_state bs1 child"] by (simp add: q2_def set_state_def)
  obtain q3 where q3: "raise_floor bs1 q2 = (bs', q3)" "q' = reset_if_empty q3"
    using assms(2) by (auto simp: destroy_def Let_def bs1_def q1_def q2_def s_def split: option.splits prod.splits)
  have q1: "running_of q1 = running_of q" "harts q1 = harts q" "leaving q1 = leaving q" "only_state bs bs1"
    by (simp_all add: q1_def bs1_def split: option.split)
  have q2: "running_of q2 = (running_of q)(child := None)" "harts q2 = harts q" "leaving q2 = leaving q"
    using running_of_drop [OF mid_wf [OF m1], of child] q1 by (simp_all add: q2_def split: option.split)
  show ?thesis
    using raise_floor_frame [OF m2 q3(1)] q2 q1(4) only_state_trans by (auto simp: q3(2))
qed

lemma running_tied [simp]:
  "running_of (q\<lparr>tie_back := t, ranks := rs\<rparr>) = running_of q"
  "running_of (q\<lparr>waiting := ws, tie_front := t, ranks := rs\<rparr>) = running_of q"
  "running_of (q\<lparr>leaving := l\<rparr>) = running_of q" "running_of (q\<lparr>qpending := p\<rparr>) = running_of q"
  by (rule running_of_cong; simp)+

lemma set_waiting_running [simp]: "running_of (set_waiting q b n) = running_of q"
  by (rule running_of_cong) (simp_all add: set_waiting_def split: option.split)

lemma ran_by_slots: "slots (ran_by q b s) = slots q" "qlen (ran_by q b s) = qlen q"
  by (simp_all add: ran_by_def split: option.split)

lemma ran_by_slot_of [simp]: "slot_of (ran_by q b s) c = slot_of q c"
  by (simp add: slot_of_def ran_by_slots)

lemma ran_by_running:
  assumes "queue_wf q"
  shows "running_of (ran_by q b started) =
     (if harts q = 1 then running_of q
      else (running_of q)(b := map_option (\<lambda>r. if started then r + 1 else saturating_sub r 1) (running_of q b)))"
proof (cases "slot_of q b")
  case None
  then show ?thesis by (auto simp: ran_by_def running_of_alt fun_eq_iff)
next
  case (Some i)
  have i: "slots q ! i = Some b" "i < length (running q)"
    using slot_of_SomeD [OF Some] assms by (auto simp: queue_wf_def)
  have run: "harts q \<noteq> 1 \<Longrightarrow> running (ran_by q b started) =
      (running q)[i := if started then running q ! i + 1 else saturating_sub (running q ! i) 1]"
    by (simp add: ran_by_def Some)
  have ne: "slot_of q c = Some j \<Longrightarrow> c \<noteq> b \<Longrightarrow> i \<noteq> j" for c j
    using slot_of_SomeD [of q c j] i(1) by auto
  show ?thesis
  proof (cases "harts q = 1")
    case False
    have "running_of (ran_by q b started) c = ((running_of q)(b := map_option (\<lambda>r. if started then r + 1
        else saturating_sub r 1) (running_of q b))) c" for c
      using ne [of c] Some i(2) False by (cases "slot_of q c") (auto simp: running_of_alt run)
    with False show ?thesis by auto
  qed (simp add: ran_by_def)
qed

lemma ran_by_sel [simp]:
  "harts (ran_by q b s) = harts q" "leaving (ran_by q b s) = leaving q" "qfloor (ran_by q b s) = qfloor q"
  by (simp_all add: ran_by_def recounted_def split: option.split)

lemma deschedule_frame:
  assumes "mid_inv bs q" "deschedule bs q b still = (bs', q')" "still \<longrightarrow> contains q b"
  shows "running_of q' = (if still then running_of q else (running_of q)(b := None)) \<and>
    only_state bs bs' \<and> harts q' = harts q \<and> leaving q' = leaving q"
proof -
  note mid = assms(1)
  let ?s = "b_state bs b"
  have fin: "running_of q' = running_of q2 \<and> only_state bs bs' \<and> harts q' = harts q2 \<and> leaving q' = leaving q2"
    if "mid_inv (set_state b s bs) q2" "raise_floor (set_state b s bs) q2 = (bs', q3)" "q' = reset_if_empty q3" for s q2 q3
    using raise_floor_frame [OF that(1,2)] that(3) only_state_trans [OF only_state_set] by auto
  show ?thesis
  proof (cases still)
    case True
    then obtain i where i: "slot_of q b = Some i" using assms(3) by (auto simp: contains_def)
    show ?thesis
      using assms(2) True i fin [OF requeue_mid [OF mid i refl]]
      by (auto simp: deschedule_def Let_def requeue_slot_def split: prod.splits)
  next
    case False
    then show ?thesis
      using assms(2) fin [OF drop_slot_mid [OF mid, of b "?s\<lparr>queued := False\<rparr>"]] running_of_drop [OF mid_wf [OF mid]]
      by (auto simp: deschedule_def Let_def requeue_slot_def split: prod.splits option.splits)
  qed
qed

section \<open>A reconcile\<close>

text \<open>
  What a reconcile may do to one budget: nothing; take one that does not run out; queue one that
  was not, when it is live.
\<close>

definition visited :: "('b \<Rightarrow> bool) \<Rightarrow> ('b \<Rightarrow> bool) \<Rightarrow> ('b \<rightharpoonup> u32) \<Rightarrow> ('b \<rightharpoonup> u32) \<Rightarrow> bool" where
  "visited run live m m' \<longleftrightarrow> (\<forall>b. m' b = m b \<or> (\<not> run b \<and> m' b \<in> {None, Some 0}) \<or>
     (m b = None \<and> live b \<and> m' b = Some 0))"

lemma visited_refl [simp]: "visited run live m m"
  by (simp add: visited_def)

lemma visited_trans: "visited run live m m' \<Longrightarrow> visited run live m' m'' \<Longrightarrow> visited run live m m''"
  unfolding visited_def by (metis insertCI)

lemma visited_queued:
  "visited run live m m' \<Longrightarrow> run b \<Longrightarrow> m b \<noteq> None \<Longrightarrow> m' b = m b"
  by (auto simp: visited_def)

lemma leave_one_visited:
  assumes "mid_inv (fst bq) (snd bq)" "b_live (fst bq) = live" "bq' = leave_one run wait b bq"
  shows "visited run live (running_of (snd bq)) (running_of (snd bq')) \<and> only_state (fst bq) (fst bq') \<and>
    harts (snd bq') = harts (snd bq) \<and> leaving (snd bq') = leaving (snd bq)"
proof (cases bq)
  case (Pair bs q)
  then show ?thesis
    using assms running_of_drop [OF mid_wf, of bs q b]
    by (auto simp: leave_one_def Let_def visited_def split: option.split)
qed

lemma leave_all_visited:
  assumes "mid_inv bs q" "fold (leave_one run wait) lost (bs, q) = (bs', q')"
  shows "visited run (b_live bs) (running_of q) (running_of q') \<and> only_state bs bs' \<and> harts q' = harts q \<and>
    leaving q' = leaving q"
proof -
  let ?P = "\<lambda>bq. mid_inv (fst bq) (snd bq) \<and> visited run (b_live bs) (running_of q) (running_of (snd bq)) \<and>
    only_state bs (fst bq) \<and> harts (snd bq) = harts q \<and> leaving (snd bq) = leaving q"
  have "?P (fold (leave_one run wait) lost (bs, q))"
  proof (rule fold_invariant [where Q = "\<lambda>_. True"])
    show "?P (leave_one run wait b bq)" if "?P bq" for b bq
      using that leave_one_mid [of bq run wait b] leave_one_visited [of bq "b_live bs" "leave_one run wait b bq" run wait b]
      by (auto intro: visited_trans only_state_trans dest: only_state_sel(3))
  qed (use assms(1) in simp_all)
  then show ?thesis by (simp add: assms(2))
qed

lemma wake_all_visited:
  assumes "mid_inv bs q" "harts q = 1 \<longrightarrow> qpending q \<or> 0 < qlen q" "wake_all wait gained bs q = (bs', q')"
  shows "visited run (b_live bs) (running_of q) (running_of q') \<and> only_state bs bs' \<and> harts q' = harts q \<and>
    leaving q' = leaving q"
  using assms
proof (induction gained arbitrary: bs q)
  case (Cons b rest)
  show ?case
  proof (cases "\<not> b_live bs b \<or> \<not> wait bs b > 0 \<or> queued (b_state bs b)")
    case True
    then show ?thesis using Cons.IH Cons.prems by (auto split: if_splits)
  next
    case False
    then have none: "slot_of q b = None"
      using Cons.prems(1) unqueued_unslotted by (auto simp: mid_inv_def)
    obtain q1 r where p: "push q b (b_id bs b) (weight_for_caps q bs b) = (q1, r)" by fastforce
    show ?thesis
    proof (cases r)
      case None
      with p have "q1 = q" by (auto elim: push_cases)
      then show ?thesis using Cons.prems False p None by (simp add: Let_def)
    next
      case (Some i)
      note m = wake_one_mid [OF Cons.prems(1,2) none p [unfolded Some], of wait]
      have rest: "wake_all wait rest (fst (woken wait b i bs q1)) (snd (woken wait b i bs q1)) = (bs', q')"
        using Cons.prems(3) False p Some by (simp add: Let_def woken_def)
      have r: "running_of (snd (woken wait b i bs q1)) = (running_of q)(b \<mapsto> 0)"
        using running_of_push [OF mid_wf [OF Cons.prems(1)] p [unfolded Some] none] by (simp add: woken_def Let_def)
      have o: "only_state bs (fst (woken wait b i bs q1))" "leaving (snd (woken wait b i bs q1)) = leaving q1"
        by (simp_all add: woken_def Let_def)
      have "leaving q1 = leaving q" by (rule push_cases [OF p]) simp_all
      moreover have "visited run (b_live bs) (running_of q) (running_of (snd (woken wait b i bs q1)))"
        using False none by (auto simp: visited_def r running_of_alt)
      ultimately show ?thesis
        using Cons.IH [OF m(1) _ rest] m(2-4) o visited_trans only_state_trans only_state_sel(3) [OF o(1)]
        by (metis)
    qed
  qed
qed simp

lemma set_waiting_leaving [simp]: "leaving (set_waiting q b n) = leaving q"
  by (simp add: set_waiting_def recounted_def split: option.split)

lemma count_visited_frame:
  "running_of (fold (count_visited bs wait) xs q) = running_of q"
  "leaving (fold (count_visited bs wait) xs q) = leaving q"
  by (induction xs arbitrary: q) (simp_all add: count_visited_def)

lemma reconcile_visited:
  assumes "mid_inv bs q" "reconcile_counted bs q run lost gained wait = (bs', q')"
  shows "visited run (b_live bs) (running_of q) (running_of q') \<and> only_state bs bs' \<and> harts q' = harts q \<and>
    leaving q' = leaving q"
  using assms
proof (rule reconcile_countedE)
  fix q1 bs2 q2 bs3 q3 q5 bs6 q6
  assume s: "q1 = (if harts q > 1 then fold (count_visited bs wait) (lost @ gained) q else q)"
    "mid_inv bs q1" "fold (leave_one run wait) lost (bs, q1) = (bs2, q2)" "mid_inv bs2 q2"
    "raise_floor bs2 q2 = (bs3, q3)" "q5 = (reset_if_empty q3)\<lparr>qpending := qpending q3 \<or> is_empty q3\<rparr>"
    "mid_inv bs3 q5" "harts q5 = 1 \<longrightarrow> qpending q5 \<or> 0 < qlen q5"
    "wake_all wait (rev (sort_key (b_id bs3) gained)) bs3 q5 = (bs6, q6)" "mid_inv bs6 q6"
    "raise_floor bs6 q6 = (bs', q')"
  have 1: "running_of q1 = running_of q" "leaving q1 = leaving q" "harts q1 = harts q"
    using s(1) by (simp_all add: count_visited_frame del: fold_append)
  note 2 = leave_all_visited [OF s(2,3)] and 3 = raise_floor_frame [OF s(4,5)]
  have 5: "running_of q5 = running_of q3" "leaving q5 = leaving q3" "harts q5 = harts q3"
    by (simp_all add: s(6))
  note 6 = wake_all_visited [OF s(7-9), of run] and 7 = raise_floor_frame [OF s(10,11)]
  have l: "b_live bs3 = b_live bs"
    using 2 3(2) only_state_sel(3) by metis
  show ?thesis
    using 1 2 3 5 6 7 visited_trans [of run "b_live bs" "running_of q" "running_of q3" "running_of q'"] l
    by (auto intro: only_state_trans)
qed

end
