(* ===== verification/Stride_Harts.thy ===== *)
theory Stride_Harts
  imports Stride_Refine
begin

text \<open>
  The queue wired to its runners, one per hart (\<open>Runner\<close>, \<open>Wiring\<close>, \<open>Cpu\<close> and \<open>Harts\<close> in
  \<open>libs/stride/src/lib.rs\<close>): when runtime is folded into a pass, and the order of the steps at a
  deschedule, a pick, a repick, a creation, a weight change and a destruction.

  \<open>Wiring\<close> borrows the two fields of \<open>Harts\<close>, so both are the record \<open>wiring\<close>; \<open>Cpu\<close> has its one
  runner's fields inline. The caller's closures are arguments: one that reads the budgets is a
  function of them, \<open>change\<close> and \<open>return_weight\<close> are functions from budgets to budgets, and
  \<open>next\<close>, an \<open>FnMut\<close>, threads a state of its own.
\<close>

section \<open>Runners and the wiring\<close>

record 'b runner =
  cur :: "'b option"
  r_pending :: u64

definition runner_new :: "'b runner" where
  "runner_new = \<lparr>cur = None, r_pending = 0\<rparr>"

definition accrue :: "'b runner \<Rightarrow> u64 \<Rightarrow> 'b runner" where
  "accrue r t = r\<lparr>r_pending := saturating_add (r_pending r) t\<rparr>"

datatype ('b, 't) repicked = InPlace | Other 'b 't | Declined

record 'b wiring =
  wq :: "'b queue"
  runners :: "'b runner list"

definition runner_of :: "'b wiring \<Rightarrow> 'b \<Rightarrow> nat option" where
  "runner_of w b = position (\<lambda>r. cur r = Some b) (runners w)"

definition bill ::
  "('b, 'z) budgets_scheme \<Rightarrow> 'b wiring \<Rightarrow> 'b \<Rightarrow> u64 \<Rightarrow> ('b, 'z) budgets_scheme \<times> 'b wiring" where
  "bill bs w b t =
     (case runner_of w b of
        Some h \<Rightarrow> (bs, w\<lparr>runners := (runners w)[h := accrue (runners w ! h) t]\<rparr>)
      | None \<Rightarrow>
          if b_live bs b then (case fold_charge bs (wq w) b t of (bs', q') \<Rightarrow> (bs', w\<lparr>wq := q'\<rparr>))
          else (bs, w))"

definition settle_at ::
  "'b \<Rightarrow> nat \<Rightarrow> ('b, 'z) budgets_scheme \<times> 'b wiring \<Rightarrow> ('b, 'z) budgets_scheme \<times> 'b wiring" where
  "settle_at b h bw =
     (case bw of (bs, w) \<Rightarrow>
        if cur (runners w ! h) = Some b
        then let run = r_pending (runners w ! h);
                 w1 = w\<lparr>runners := (runners w)[h := (runners w ! h)\<lparr>r_pending := 0\<rparr>]\<rparr>
             in if b_live bs b
                then (case fold_charge bs (wq w1) b run of (bs', q') \<Rightarrow> (bs', w1\<lparr>wq := q'\<rparr>))
                else (bs, w1)
        else (bs, w))"

definition settle ::
  "('b, 'z) budgets_scheme \<Rightarrow> 'b wiring \<Rightarrow> 'b \<Rightarrow> ('b, 'z) budgets_scheme \<times> 'b wiring" where
  "settle bs w b = fold (settle_at b) [0..<length (runners w)] (bs, w)"

definition change_weight ::
  "('b, 'z) budgets_scheme \<Rightarrow> 'b wiring \<Rightarrow> 'b \<Rightarrow> (('b, 'z) budgets_scheme \<Rightarrow> ('b, 'z) budgets_scheme) \<Rightarrow>
   ('b, 'z) budgets_scheme \<times> 'b wiring" where
  "change_weight bs w b change =
     (let (bs1, w1) = settle bs w b;
          old = b_weight bs1 b;
          bs2 = change bs1;
          new = b_weight bs2 b;
          (bs3, q3) = reweigh bs2 (wq w1) b old new
      in (bs3, w1\<lparr>wq := q3\<rparr>))"

text \<open>The deschedule of a switch, for the budget \<open>c\<close> taken off hart; \<open>w\<close> has the runner cleared.\<close>

definition take_off ::
  "('b, 'z) budgets_scheme \<Rightarrow> 'b wiring \<Rightarrow> 'b \<Rightarrow> u64 \<Rightarrow> bool \<Rightarrow> (('b, 'z) budgets_scheme \<Rightarrow> 'b \<Rightarrow> bool) \<Rightarrow>
   ('b, 'z) budgets_scheme \<times> 'b queue" where
  "take_off bs w c run requeued still_runnable =
     (let q1 = ran_by (wq w) c False
      in if b_live bs c
         then let (bs2, q2) = fold_charge bs (q1\<lparr>leaving := if requeued then Some c else None\<rparr>) c run;
                  still = (runner_of w c \<noteq> None \<or> still_runnable bs2 c);
                  (bs3, q3) = deschedule bs2 q2 c still
              in (bs3, q3\<lparr>leaving := None\<rparr>)
         else (bs, q1))"

definition switch ::
  "nat \<Rightarrow> ('b, 'z) budgets_scheme \<Rightarrow> 'b wiring \<Rightarrow> 'b option \<Rightarrow> bool \<Rightarrow>
   (('b, 'z) budgets_scheme \<Rightarrow> 'b \<Rightarrow> bool) \<Rightarrow> ('b, 'z) budgets_scheme \<times> 'b wiring \<times> 'b option" where
  "switch h bs w next requeued still_runnable =
     (let r = runners w ! h
      in if next = cur r then (bs, w, None)
         else let left = cur r;
                  run = max (r_pending r) MIN_CHARGE;
                  w1 = w\<lparr>runners := (runners w)[h := \<lparr>cur = None, r_pending = 0\<rparr>]\<rparr>;
                  (bs2, q2) = (case left of
                                 None \<Rightarrow> (bs, wq w1)
                               | Some c \<Rightarrow> take_off bs w1 c run requeued still_runnable);
                  q3 = (case next of None \<Rightarrow> q2 | Some n \<Rightarrow> ran_by q2 n True)
              in (bs2, w1\<lparr>wq := q3, runners := (runners w1)[h := \<lparr>cur = next, r_pending = 0\<rparr>]\<rparr>, left))"

definition running_on :: "'b wiring \<Rightarrow> 'b \<Rightarrow> bool" where
  "running_on w b \<longleftrightarrow> (\<exists>r\<in>set (runners w). cur r = Some b)"

definition w_reconcile ::
  "('b, 'z) budgets_scheme \<Rightarrow> 'b wiring \<Rightarrow> 'b list \<Rightarrow> 'b list \<Rightarrow> (('b, 'z) budgets_scheme \<Rightarrow> 'b \<Rightarrow> u32) \<Rightarrow>
   ('b, 'z) budgets_scheme \<times> 'b wiring" where
  "w_reconcile bs w lost gained wait =
     (case reconcile_counted bs (wq w) (running_on w) lost gained wait of (bs', q') \<Rightarrow> (bs', w\<lparr>wq := q'\<rparr>))"

section \<open>Pick and repick\<close>

text \<open>
  The bits of the runners whose budget was passed over. A shift by an index past the word's width
  is masked, as the release build does.
\<close>

definition passed_over :: "'b wiring \<Rightarrow> u64 \<Rightarrow> 'b \<Rightarrow> bool" where
  "passed_over w passed b \<longleftrightarrow>
     (\<exists>i\<in>set [0..<length (runners w)].
        and (drop_bit (i mod 64) passed) 1 \<noteq> 0 \<and> cur (runners w ! i) = Some b)"

partial_function (option) pick_loop ::
  "('s \<Rightarrow> ('b, 'z) budgets_scheme \<Rightarrow> 'b \<Rightarrow> 't option \<times> 's) \<Rightarrow> u64 \<Rightarrow> ('b, 'z) budgets_scheme \<Rightarrow> 'b wiring \<Rightarrow> 's \<Rightarrow>
   (('b \<times> 't) option \<times> ('b, 'z) budgets_scheme \<times> 'b wiring \<times> 's) option" where
  "pick_loop next passed bs w st =
     (case pick (wq w) (passed_over w passed) of
        None \<Rightarrow> Some (None, bs, w, st)
      | Some b \<Rightarrow>
          (case next st bs b of
             (Some t, st') \<Rightarrow> Some (Some (b, t), bs, w, st')
           | (None, st') \<Rightarrow>
               (case runner_of w b of
                  Some h \<Rightarrow> pick_loop next (or passed (push_bit (h mod 64) 1)) bs w st'
                | None \<Rightarrow>
                    (case deschedule bs (wq w) b False of
                       (bs', q') \<Rightarrow> pick_loop next passed bs' (w\<lparr>wq := q'\<rparr>) st'))))"

definition w_pick ::
  "('b, 'z) budgets_scheme \<Rightarrow> 'b wiring \<Rightarrow> ('s \<Rightarrow> ('b, 'z) budgets_scheme \<Rightarrow> 'b \<Rightarrow> 't option \<times> 's) \<Rightarrow> 's \<Rightarrow>
   (('b \<times> 't) option \<times> ('b, 'z) budgets_scheme \<times> 'b wiring \<times> 's) option" where
  "w_pick bs w next st = pick_loop next 0 bs w st"

text \<open>
  The closure \<open>repick\<close> gives the pick: the preempted thread is taken at most once. A repick that
  reaches the \<open>unreachable!\<close> is \<open>Inl ()\<close>.
\<close>

definition own_next ::
  "'b \<Rightarrow> ('s \<Rightarrow> ('b, 'z) budgets_scheme \<Rightarrow> 'b \<Rightarrow> 't option \<times> 's) \<Rightarrow>
   't option \<times> 's \<Rightarrow> ('b, 'z) budgets_scheme \<Rightarrow> 'b \<Rightarrow> 't option \<times> ('t option \<times> 's)" where
  "own_next b next os bs x =
     (case os of (own, st) \<Rightarrow>
        if x = b then (own, (None, st))
        else (case next st bs x of (t, st') \<Rightarrow> (t, (own, st'))))"

definition repick ::
  "nat \<Rightarrow> ('b, 'z) budgets_scheme \<Rightarrow> 'b wiring \<Rightarrow> 'b list \<Rightarrow> 'b list \<Rightarrow> (('b, 'z) budgets_scheme \<Rightarrow> 'b \<Rightarrow> u32) \<Rightarrow> 't \<Rightarrow>
   ('s \<Rightarrow> ('b, 'z) budgets_scheme \<Rightarrow> 'b \<Rightarrow> 't option \<times> 's) \<Rightarrow> 's \<Rightarrow>
   (unit + ('b, 't) repicked \<times> ('b, 'z) budgets_scheme \<times> 'b wiring) option" where
  "repick h bs w lost gained wait own next st =
     (case cur (runners w ! h) of
        None \<Rightarrow> Some (Inr (Declined, bs, w))
      | Some b \<Rightarrow>
          if wait bs b > 0 then Some (Inr (Declined, bs, w))
          else
            let counted = (\<lambda>bs x. wait bs x + (if x = b then 1 else 0));
                w1 = w\<lparr>wq := set_waiting (wq w) b 1\<rparr>;
                (bs2, w2, _) = switch h bs w1 None True (\<lambda>_ _. True);
                (bs3, w3) = w_reconcile bs2 w2 lost gained counted;
                (bs4, w4) = w_reconcile bs3 w3 [] [] counted
            in (case w_pick bs4 w4 (own_next b next) (Some own, st) of
                  None \<Rightarrow> None
                | Some (Some (n, t), bs5, w5, _) \<Rightarrow>
                    if n = b then
                      let w6 = w5\<lparr>wq := set_waiting (wq w5) b 0\<rparr>;
                          (bs7, w7, _) = switch h bs5 w6 (Some b) False (\<lambda>_ _. True);
                          (bs8, w8) = w_reconcile bs7 w7 [b] [] wait
                      in Some (Inr (InPlace, bs8, w8))
                    else Some (Inr (Other n t, bs5, w5))
                | Some (None, _) \<Rightarrow> Some (Inl ())))"

definition w_create ::
  "('b, 'z) budgets_scheme \<Rightarrow> 'b wiring \<Rightarrow> 'b \<Rightarrow> 'b option \<Rightarrow> ('b, 'z) budgets_scheme \<times> 'b wiring" where
  "w_create bs w child parent =
     (let (bs1, w1) = (case parent of Some p \<Rightarrow> settle bs w p | None \<Rightarrow> (bs, w));
          (bs2, q2) = create bs1 (wq w1) child parent
      in (bs2, w1\<lparr>wq := q2\<rparr>))"

definition w_destroy ::
  "('b, 'z) budgets_scheme \<Rightarrow> 'b wiring \<Rightarrow> 'b \<Rightarrow> 'b option \<Rightarrow> (('b, 'z) budgets_scheme \<Rightarrow> ('b, 'z) budgets_scheme) \<Rightarrow>
   ('b, 'z) budgets_scheme \<times> 'b wiring" where
  "w_destroy bs w child parent return_weight =
     (let (bs1, w1) = settle bs w child;
          w2 = w1\<lparr>runners := map (\<lambda>r. if cur r = Some child then runner_new else r) (runners w1)\<rparr>;
          w_child = b_weight bs1 child;
          (bs3, w3, w_parent) =
            (case parent of
               Some p \<Rightarrow> (case change_weight bs1 w2 p return_weight of (bs', w') \<Rightarrow> (bs', w', b_weight bs' p))
             | None \<Rightarrow> (bs1, w2, 0));
          (bs4, q4) = destroy bs3 (wq w3) child parent w_child w_parent
      in (bs4, w3\<lparr>wq := q4\<rparr>))"

section \<open>The harts\<close>

definition harts_new :: "nat \<Rightarrow> nat \<Rightarrow> 'b wiring" where
  "harts_new N H = \<lparr>wq = queue_new N, runners = replicate H runner_new\<rparr>"

definition cur_of :: "'b wiring \<Rightarrow> nat \<Rightarrow> 'b option" where
  "cur_of w h = cur (runners w ! h)"

definition accrue_on :: "'b wiring \<Rightarrow> nat \<Rightarrow> u64 \<Rightarrow> 'b wiring" where
  "accrue_on w h t = w\<lparr>runners := (runners w)[h := accrue (runners w ! h) t]\<rparr>"

definition count_slot :: "'b wiring \<Rightarrow> ('b \<Rightarrow> u32) \<Rightarrow> ('b \<Rightarrow> u64) \<Rightarrow> nat \<Rightarrow> 'b queue \<Rightarrow> 'b queue" where
  "count_slot w wait weight i q =
     (case slots q ! i of
        None \<Rightarrow> q
      | Some b \<Rightarrow>
          q\<lparr>waiting := (waiting q)[i := wait b],
            running := (running q)[i := of_nat (length (filter (\<lambda>r. cur r = Some b) (runners w)))],
            weights := (weights q)[i := weight b], lift_to := (lift_to q)[i := qfloor q]\<rparr>)"

definition w_set_harts :: "'b wiring \<Rightarrow> u32 \<Rightarrow> ('b \<Rightarrow> u32) \<Rightarrow> ('b \<Rightarrow> u64) \<Rightarrow> 'b wiring" where
  "w_set_harts w n wait weight =
     w\<lparr>wq := fold (count_slot w wait weight) [0..<qlen (wq w)] (set_harts (wq w) n)\<rparr>"

definition w_set_waiting :: "'b wiring \<Rightarrow> 'b \<Rightarrow> u32 \<Rightarrow> 'b wiring" where
  "w_set_waiting w b n = w\<lparr>wq := set_waiting (wq w) b n\<rparr>"

section \<open>One CPU\<close>

record 'b cpu =
  cpu_q :: "'b queue"
  cpu_cur :: "'b option"
  cpu_pending :: u64

definition cpu_new :: "nat \<Rightarrow> 'b cpu" where
  "cpu_new N = \<lparr>cpu_q = queue_new N, cpu_cur = None, cpu_pending = 0\<rparr>"

definition to_wiring :: "'b cpu \<Rightarrow> 'b wiring" where
  "to_wiring c = \<lparr>wq = cpu_q c, runners = [\<lparr>cur = cpu_cur c, r_pending = cpu_pending c\<rparr>]\<rparr>"

definition of_wiring :: "'b wiring \<Rightarrow> 'b cpu" where
  "of_wiring w = \<lparr>cpu_q = wq w, cpu_cur = cur (runners w ! 0), cpu_pending = r_pending (runners w ! 0)\<rparr>"

definition wired :: "('b wiring \<Rightarrow> 'r \<times> 'b wiring) \<Rightarrow> 'b cpu \<Rightarrow> 'r \<times> 'b cpu" where
  "wired f c = (case f (to_wiring c) of (r, w) \<Rightarrow> (r, of_wiring w))"

definition cpu_accrue :: "'b cpu \<Rightarrow> u64 \<Rightarrow> 'b cpu" where
  "cpu_accrue c t = c\<lparr>cpu_pending := saturating_add (cpu_pending c) t\<rparr>"

definition cpu_bill where
  "cpu_bill bs c b t = wired (\<lambda>w. bill bs w b t) c"

definition cpu_settle where
  "cpu_settle bs c b = wired (\<lambda>w. settle bs w b) c"

definition cpu_change_weight where
  "cpu_change_weight bs c b change = wired (\<lambda>w. change_weight bs w b change) c"

definition cpu_switch ::
  "('b, 'z) budgets_scheme \<Rightarrow> 'b cpu \<Rightarrow> 'b option \<Rightarrow> (('b, 'z) budgets_scheme \<Rightarrow> 'b \<Rightarrow> bool) \<Rightarrow>
   (('b, 'z) budgets_scheme \<times> 'b option) \<times> 'b cpu" where
  "cpu_switch bs c next still_runnable =
     wired (\<lambda>w. case switch 0 bs w next False still_runnable of (bs', w', left) \<Rightarrow> ((bs', left), w')) c"

definition cpu_reconcile ::
  "('b, 'z) budgets_scheme \<Rightarrow> 'b cpu \<Rightarrow> 'b list \<Rightarrow> 'b list \<Rightarrow> (('b, 'z) budgets_scheme \<Rightarrow> 'b \<Rightarrow> bool) \<Rightarrow>
   ('b, 'z) budgets_scheme \<times> 'b cpu" where
  "cpu_reconcile bs c lost gained runnable =
     wired (\<lambda>w. w_reconcile bs w lost gained (\<lambda>bs b. if runnable bs b then 1 else 0)) c"

definition cpu_pick ::
  "('b, 'z) budgets_scheme \<Rightarrow> 'b cpu \<Rightarrow> ('s \<Rightarrow> ('b, 'z) budgets_scheme \<Rightarrow> 'b \<Rightarrow> 't option \<times> 's) \<Rightarrow> 's \<Rightarrow>
   (('b \<times> 't) option \<times> ('b, 'z) budgets_scheme \<times> 'b cpu \<times> 's) option" where
  "cpu_pick bs c next st =
     map_option (\<lambda>(r, bs', w, st'). (r, bs', of_wiring w, st')) (w_pick bs (to_wiring c) next st)"

definition cpu_create where
  "cpu_create bs c child parent = wired (\<lambda>w. w_create bs w child parent) c"

definition cpu_destroy where
  "cpu_destroy bs c child parent return_weight = wired (\<lambda>w. w_destroy bs w child parent return_weight) c"

end
