(* ===== verification/Stride_Wired.thy ===== *)
theory Stride_Wired
  imports Stride_Harts
begin

text \<open>
  The invariant of the queue wired to its runners and that every entry of the wiring keeps it: a
  live budget on a hart is queued, and on several harts each queued budget's count of running
  threads is the number of harts whose runner it is. A pick ends, returns the lowest rank with a
  thread to run, and a repick never reaches its \<open>unreachable!\<close>.
\<close>

section \<open>The invariant\<close>

definition curs :: "'b wiring \<Rightarrow> 'b option list" where
  "curs w = map cur (runners w)"

definition count_run :: "'b wiring \<Rightarrow> 'b \<Rightarrow> nat" where
  "count_run w b = count_list (curs w) (Some b)"

definition wired_ok :: "('b, 'z) budgets_scheme \<Rightarrow> 'b wiring \<Rightarrow> bool" where
  "wired_ok bs w \<longleftrightarrow>
     mid_inv bs (wq w) \<and> length (runners w) < 2 ^ 32 \<and>
     (\<forall>b. running_on w b \<longrightarrow> b_live bs b \<longrightarrow> contains (wq w) b) \<and>
     (harts (wq w) \<noteq> 1 \<longrightarrow> (\<forall>b n. running_of (wq w) b = Some n \<longrightarrow> n = of_nat (count_run w b)))"

lemma running_on_curs: "running_on w b \<longleftrightarrow> Some b \<in> set (curs w)"
  unfolding running_on_def curs_def set_map image_iff by metis

lemma running_on_count: "running_on w b \<longleftrightarrow> count_run w b > 0"
  by (simp add: running_on_curs count_run_def count_list_0_iff zero_less_iff_neq_zero)

lemma runner_of_None: "runner_of w b = None \<longleftrightarrow> \<not> running_on w b"
  by (auto simp: runner_of_def position_None_iff running_on_def)

lemma runner_of_SomeD: "runner_of w b = Some h \<Longrightarrow> h < length (runners w) \<and> cur (runners w ! h) = Some b"
  by (auto simp: runner_of_def dest: position_SomeD)

lemma visited_cases:
  assumes "visited run live m m'" "m' b = Some n"
  obtains "m b = Some n" | "\<not> run b" "n = 0" | "m b = None" "live b" "n = 0"
proof -
  have "m' b = m b \<or> (\<not> run b \<and> m' b \<in> {None, Some 0}) \<or> (m b = None \<and> live b \<and> m' b = Some 0)"
    using assms(1) by (simp add: visited_def)
  then show ?thesis using assms(2) that by auto
qed

lemma wired_okD:
  assumes "wired_ok bs w"
  shows "mid_inv bs (wq w)" "running_on w b \<Longrightarrow> b_live bs b \<Longrightarrow> contains (wq w) b"
    "harts (wq w) \<noteq> 1 \<Longrightarrow> running_of (wq w) b = Some n \<Longrightarrow> n = of_nat (count_run w b)"
    "length (runners w) < 2 ^ 32"
  using assms unfolding wired_ok_def by blast+

lemma wired_step:
  assumes "wired_ok bs w" "mid_inv bs' (wq w')" "b_live bs' = b_live bs"
    and "visited (running_on w) (b_live bs) (running_of (wq w)) (running_of (wq w'))"
    and "harts (wq w') = harts (wq w)" "curs w' = curs w"
  shows "wired_ok bs' w'"
proof -
  have len: "length (runners w') = length (runners w)"
    using assms(6) by (metis curs_def length_map)
  have run: "running_on w' b \<longleftrightarrow> running_on w b" "count_run w' b = count_run w b" for b
    by (simp_all add: running_on_curs count_run_def assms(6))
  have "contains (wq w') b" if "running_on w b" "b_live bs b" for b
    using wired_okD(2) [OF assms(1) that] visited_queued [OF assms(4) that(1)] by (simp add: contains_running)
  moreover have "n = of_nat (count_run w b)" if "harts (wq w) \<noteq> 1" "running_of (wq w') b = Some n" for b n
    using assms(4) that(2)
  proof (cases rule: visited_cases)
    case 1
    then show ?thesis by (rule wired_okD(3) [OF assms(1) that(1)])
  next
    case 2
    then show ?thesis using running_on_count [of w b] by simp
  next
    case 3
    then have "\<not> running_on w b" using wired_okD(2) [OF assms(1), of b] by (auto simp: contains_running)
    then show ?thesis using 3 running_on_count [of w b] by simp
  qed
  ultimately show ?thesis
    unfolding wired_ok_def run len assms(3,5) using assms(2) wired_okD(4) [OF assms(1)] by blast
qed

lemma wired_queue: "wired_ok bs w \<Longrightarrow> mid_inv bs (wq w)"
  by (simp add: wired_ok_def)

lemma curs_wq [simp]: "curs (w\<lparr>wq := q\<rparr>) = curs w" "running_on (w\<lparr>wq := q\<rparr>) b = running_on w b"
  "runner_of (w\<lparr>wq := q\<rparr>) b = runner_of w b" "count_run (w\<lparr>wq := q\<rparr>) b = count_run w b"
  by (simp_all add: curs_def running_on_def runner_of_def count_run_def)

lemma running_on_wq [simp]: "running_on (w\<lparr>wq := q\<rparr>) = running_on w"
  by (simp add: fun_eq_iff)

lemma curs_pending:
  "h < length (runners w) \<Longrightarrow> cur r = cur (runners w ! h) \<Longrightarrow> curs (w\<lparr>runners := (runners w)[h := r]\<rparr>) = curs w"
  by (simp add: curs_def map_update) (metis list_update_id map_update)

lemma wired_fold:
  assumes "wired_ok bs w" "fold_charge bs (wq w) b t = (bs', q')"
  shows "wired_ok bs' (w\<lparr>wq := q'\<rparr>)" "only_state bs bs'"
proof -
  note f = fold_charge_frame [OF wired_queue [OF assms(1)] assms(2)]
  show "wired_ok bs' (w\<lparr>wq := q'\<rparr>)"
    using f only_state_sel(3) [OF f(2)] by (intro wired_step [OF assms(1)]) (auto intro: mid_invI)
  show "only_state bs bs'" by (rule f(2))
qed

section \<open>Charging\<close>

lemma accrue_on_wired: "wired_ok bs w \<Longrightarrow> h < length (runners w) \<Longrightarrow> wired_ok bs (accrue_on w h t)"
  by (rule wired_step [of bs w]) (simp_all add: accrue_on_def wired_queue curs_pending accrue_def)

lemma bill_wired:
  assumes "wired_ok bs w" "bill bs w b t = (bs', w')"
  shows "wired_ok bs' w'"
proof (cases "runner_of w b")
  case (Some h)
  then have "h < length (runners w)" using runner_of_SomeD [of w b h] by simp
  then show ?thesis
    using accrue_on_wired [OF assms(1), of h t] assms(2) Some by (auto simp: bill_def accrue_on_def)
next
  case None
  then show ?thesis
    using assms wired_fold(1) [OF assms(1)] by (auto simp: bill_def split: if_splits prod.splits)
qed

lemma settle_at_wired:
  assumes "wired_ok (fst bw) (snd bw)" "h < length (runners (snd bw))"
  shows "wired_ok (fst (settle_at b h bw)) (snd (settle_at b h bw)) \<and> only_state (fst bw) (fst (settle_at b h bw)) \<and>
    curs (snd (settle_at b h bw)) = curs (snd bw) \<and> harts (wq (snd (settle_at b h bw))) = harts (wq (snd bw)) \<and>
    running_of (wq (snd (settle_at b h bw))) = running_of (wq (snd bw))"
proof (cases bw)
  case (Pair bs w)
  let ?w = "w\<lparr>runners := (runners w)[h := (runners w ! h)\<lparr>r_pending := 0\<rparr>]\<rparr>"
  have c: "curs ?w = curs w" using assms(2) Pair by (intro curs_pending) simp_all
  then have w: "wired_ok bs ?w"
    using assms(1) Pair by (simp_all add: wired_step [of bs w] wired_queue)
  obtain bs' q' where f: "fold_charge bs (wq ?w) b (r_pending (runners w ! h)) = (bs', q')" by fastforce
  note ok = wired_fold [OF w f] fold_charge_frame [OF wired_queue [OF w] f]
  have "settle_at b h bw \<in> {(bs, w), (bs, ?w), (bs', ?w\<lparr>wq := q'\<rparr>)}"
    using f by (simp add: settle_at_def Let_def Pair)
  then consider "settle_at b h bw = (bs, w)" | "settle_at b h bw = (bs, ?w)" | "settle_at b h bw = (bs', ?w\<lparr>wq := q'\<rparr>)"
    by blast
  then show ?thesis
    using assms(1) Pair w c ok by cases simp_all
qed

lemma settle_wired:
  assumes "wired_ok bs w" "settle bs w b = (bs', w')"
  shows "wired_ok bs' w'" "only_state bs bs'" "curs w' = curs w" "harts (wq w') = harts (wq w)"
    "running_of (wq w') = running_of (wq w)"
proof -
  let ?P = "\<lambda>bw. wired_ok (fst bw) (snd bw) \<and> only_state bs (fst bw) \<and> curs (snd bw) = curs w \<and>
    harts (wq (snd bw)) = harts (wq w) \<and> running_of (wq (snd bw)) = running_of (wq w)"
  have "?P (fold (settle_at b) [0..<length (runners w)] (bs, w))"
  proof (rule fold_invariant [where Q = "\<lambda>h. h < length (runners w)"])
    show "?P (settle_at b h bw)" if "h < length (runners w)" "?P bw" for h bw
    proof -
      have "length (runners (snd bw)) = length (runners w)" using that(2) by (metis curs_def length_map)
      then show ?thesis
        using that settle_at_wired [of bw h b] by (auto intro: only_state_trans)
    qed
  qed (use assms(1) in simp_all)
  then show "wired_ok bs' w'" "only_state bs bs'" "curs w' = curs w" "harts (wq w') = harts (wq w)"
    "running_of (wq w') = running_of (wq w)"
    using assms(2) by (simp_all add: settle_def)
qed

text \<open>What the caller's \<open>change\<close> does: stride weights, and nothing the queue reads elsewhere.\<close>

definition only_weight :: "(('b, 'z) budgets_scheme \<Rightarrow> ('b, 'z) budgets_scheme) \<Rightarrow> bool" where
  "only_weight change \<longleftrightarrow>
     (\<forall>bs. b_state (change bs) = b_state bs \<and> b_id (change bs) = b_id bs \<and> b_live (change bs) = b_live bs)"

lemma only_weight_mid: "only_weight change \<Longrightarrow> mid_inv (change bs) q = mid_inv bs q"
  by (simp add: only_weight_def mid_inv_def synced_def)

lemma change_weight_wired:
  assumes "wired_ok bs w" "only_weight change" "change_weight bs w b change = (bs', w')"
  shows "wired_ok bs' w'" "b_live bs' = b_live bs" "curs w' = curs w" "harts (wq w') = harts (wq w)"
    "running_of (wq w') = running_of (wq w)"
proof -
  obtain bs1 w1 where s: "settle bs w b = (bs1, w1)" by fastforce
  obtain bs3 q3 where r: "reweigh (change bs1) (wq w1) b (b_weight bs1 b) (b_weight (change bs1) b) = (bs3, q3)"
    by fastforce
  have e: "bs' = bs3" "w' = w1\<lparr>wq := q3\<rparr>"
    using assms(3) s r by (simp_all add: change_weight_def Let_def)
  note st = settle_wired [OF assms(1) s] and f = reweigh_frame [OF r]
  have m: "mid_inv bs3 q3"
    using reweigh_inv(2) [OF r] only_weight_mid [OF assms(2)] wired_queue [OF st(1)] by simp
  have l: "b_live bs3 = b_live bs1"
    using only_state_sel(3) [OF f(2)] assms(2) by (simp add: only_weight_def)
  show "wired_ok bs' w'"
    unfolding e by (rule wired_step [OF st(1)]) (use m l f in simp_all)
  show "b_live bs' = b_live bs" using l only_state_sel(3) [OF st(2)] by (simp add: e)
  show "curs w' = curs w" "harts (wq w') = harts (wq w)" "running_of (wq w') = running_of (wq w)"
    using st f by (simp_all add: e)
qed

section \<open>A switch\<close>

lemma count_list_update:
  "h < length xs \<Longrightarrow>
   count_list (xs[h := y]) z + of_bool (xs ! h = z) = count_list xs z + of_bool (y = z)"
proof (induction xs arbitrary: h)
  case (Cons x xs)
  then show ?case by (cases h) auto
qed simp

lemma count_run_update:
  "h < length (runners w) \<Longrightarrow>
   count_run (w\<lparr>runners := (runners w)[h := r]\<rparr>) b + of_bool (cur (runners w ! h) = Some b) =
     count_run w b + of_bool (cur r = Some b)"
  using count_list_update [of h "curs w" "cur r" "Some b"] by (simp add: count_run_def curs_def map_update)

lemma count_run_le: "count_run w b \<le> length (runners w)"
  by (simp add: count_run_def curs_def) (metis count_le_length length_map)

lemma mid_leaving [simp]: "mid_inv bs (q\<lparr>leaving := l\<rparr>) = mid_inv bs q"
  by (simp add: mid_inv_def queue_wf_def synced_def floor_held_def ties_held_def alone_held_def holds_floor_def
      has_thread_def thread_count_def at_floor_def)

lemma contains_leaving [simp]: "contains (q\<lparr>leaving := l\<rparr>) b = contains q b"
  by (simp add: contains_running)

lemma wired_leaving: "wired_ok bs (w\<lparr>wq := q\<lparr>leaving := l\<rparr>\<rparr>) = wired_ok bs (w\<lparr>wq := q\<rparr>)"
  by (simp add: wired_ok_def)

lemma contains_ran_by [simp]: "contains (ran_by q b s) c = contains q c"
  by (simp add: contains_def)

lemma saturating_sub_of_nat:
  assumes "0 < n" "n < 2 ^ 32"
  shows "saturating_sub (of_nat n :: u32) 1 = of_nat (n - 1)"
  using assms by (simp add: saturating_sub_def word_le_nat_alt take_bit_nat_eq_self of_nat_diff unat_of_nat)

lemma clear_wired:
  assumes "wired_ok bs w" "h < length (runners w)" "cur (runners w ! h) = Some c"
  shows "wired_ok bs (w\<lparr>runners := (runners w)[h := \<lparr>cur = None, r_pending = 0\<rparr>], wq := ran_by (wq w) c False\<rparr>)"
    (is "wired_ok bs ?w")
proof -
  have count: "count_run ?w b + of_bool (b = c) = count_run w b" for b
    using count_run_update [OF assms(2), of "\<lparr>cur = None, r_pending = 0\<rparr>" b] assms(3)
    by (auto simp: of_bool_def split: if_splits)
  have "contains (wq ?w) b" if "running_on ?w b" "b_live bs b" for b
    using wired_okD(2) [OF assms(1) _ that(2)] that(1) count [of b] by (simp add: running_on_count)
  moreover have "n = of_nat (count_run ?w b)" if h: "harts (wq w) \<noteq> 1" and r: "running_of (wq ?w) b = Some n" for b n
  proof (cases "b = c")
    case True
    then obtain m where m: "running_of (wq w) c = Some m" "n = saturating_sub m 1"
      using h r ran_by_running [OF mid_wf [OF wired_queue [OF assms(1)]], of c False] by auto
    have "m = of_nat (count_run w c)" by (rule wired_okD(3) [OF assms(1) h m(1)])
    moreover have "0 < count_run w c" "count_run w c < 2 ^ 32"
      using count [of c] count_run_le [of w c] wired_okD(4) [OF assms(1)] by auto
    ultimately show ?thesis
      using count [of c] m(2) True saturating_sub_of_nat [of "count_run w c"] by (metis add_diff_cancel_right' of_bool_eq_1_iff)
  next
    case False
    then have "running_of (wq w) b = Some n"
      using h r ran_by_running [OF mid_wf [OF wired_queue [OF assms(1)]], of c False] by simp
    then show ?thesis
      using wired_okD(3) [OF assms(1) h] count [of b] False by simp
  qed
  moreover have "mid_inv bs (wq ?w)"
    using ran_by_mid [OF wired_queue [OF assms(1)]] by simp
  ultimately show ?thesis
    using wired_okD(4) [OF assms(1)] by (simp add: wired_ok_def)
qed

lemma enter_wired:
  assumes "wired_ok bs w" "h < length (runners w)" "cur (runners w ! h) = None" "contains (wq w) n"
  shows "wired_ok bs (w\<lparr>wq := ran_by (wq w) n True, runners := (runners w)[h := \<lparr>cur = Some n, r_pending = 0\<rparr>]\<rparr>)"
    (is "wired_ok bs ?w")
proof -
  have count: "count_run ?w b = count_run w b + of_bool (b = n)" for b
    using count_run_update [OF assms(2), of "\<lparr>cur = Some n, r_pending = 0\<rparr>" b] assms(3)
    by (simp add: count_run_def curs_def eq_commute)
  have "contains (wq ?w) b" if "running_on ?w b" "b_live bs b" for b
    using wired_okD(2) [OF assms(1) _ that(2)] that(1) count [of b] assms(4)
    by (cases "b = n") (simp_all add: running_on_count)
  moreover have "m = of_nat (count_run ?w b)" if h: "harts (wq w) \<noteq> 1" and r: "running_of (wq ?w) b = Some m" for b m
  proof (cases "b = n")
    case True
    then obtain k where k: "running_of (wq w) n = Some k" "m = k + 1"
      using h r ran_by_running [OF mid_wf [OF wired_queue [OF assms(1)]], of n True] by auto
    then show ?thesis
      using wired_okD(3) [OF assms(1) h k(1)] count [of n] True by simp
  next
    case False
    then have "running_of (wq w) b = Some m"
      using h r ran_by_running [OF mid_wf [OF wired_queue [OF assms(1)]], of n True] by simp
    then show ?thesis
      using wired_okD(3) [OF assms(1) h] count [of b] False by simp
  qed
  moreover have "mid_inv bs (wq ?w)"
    using ran_by_mid [OF wired_queue [OF assms(1)]] by simp
  ultimately show ?thesis
    using wired_okD(4) [OF assms(1)] by (simp add: wired_ok_def)
qed

lemma take_off_wired:
  assumes "wired_ok bs w" "h < length (runners w)" "cur (runners w ! h) = Some c"
    and "w1 = w\<lparr>runners := (runners w)[h := \<lparr>cur = None, r_pending = 0\<rparr>]\<rparr>"
    and "take_off bs w1 c run requeued still = (bs', q')"
  shows "wired_ok bs' (w1\<lparr>wq := q'\<rparr>)" "only_state bs bs'" "harts q' = harts (wq w)"
    "b \<noteq> c \<Longrightarrow> contains q' b = contains (wq w) b"
    "b_live bs c \<Longrightarrow> running_on w1 c \<or> (\<forall>bs b. still bs b) \<Longrightarrow> contains q' c"
proof -
  define q1 where "q1 = ran_by (wq w) c False"
  have w1: "wired_ok bs (w1\<lparr>wq := q1\<rparr>)" and c1: "\<And>b. contains q1 b = contains (wq w) b" "harts q1 = harts (wq w)"
    using clear_wired [OF assms(1-3)] by (simp_all add: assms(4) q1_def)
  have "wired_ok bs' (w1\<lparr>wq := q'\<rparr>) \<and> only_state bs bs' \<and> harts q' = harts (wq w) \<and>
    (b \<noteq> c \<longrightarrow> contains q' b = contains (wq w) b) \<and>
    (b_live bs c \<longrightarrow> running_on w1 c \<or> (\<forall>bs b. still bs b) \<longrightarrow> contains q' c)"
  proof (cases "b_live bs c")
    case False
    then show ?thesis
      using assms(5) w1 c1 by (simp add: take_off_def Let_def assms(4) q1_def)
  next
    case True
    have c: "contains (wq w) c"
      by (rule wired_okD(2) [OF assms(1) _ True]) (metis assms(2,3) nth_mem running_on_def)
    let ?q = "q1\<lparr>leaving := if requeued then Some c else None\<rparr>"
    obtain bs2 q2 where f: "fold_charge bs ?q c run = (bs2, q2)" by fastforce
    obtain bs3 q3 where d: "deschedule bs2 q2 c (runner_of w1 c \<noteq> None \<or> still bs2 c) = (bs3, q3)" by fastforce
    have e: "bs' = bs3" "q' = q3\<lparr>leaving := None\<rparr>"
      using assms(5) True f d by (simp_all add: take_off_def Let_def assms(4) q1_def)
    have "wired_ok bs (w1\<lparr>wq := ?q\<rparr>)" using w1 by (simp add: wired_leaving)
    then have w2: "wired_ok bs2 (w1\<lparr>wq := q2\<rparr>)" using wired_fold(1) [of bs "w1\<lparr>wq := ?q\<rparr>"] f by simp
    note ff = fold_charge_frame [OF _ f]
    have f2: "running_of q2 = running_of q1" "only_state bs bs2" "harts q2 = harts q1"
      using ff wired_queue [OF w1] by simp_all
    have c2: "contains q2 c" using c c1 f2(1) by (simp add: contains_running)
    note df = deschedule_frame [OF _ d]
    have d3: "running_of q3 = (if runner_of w1 c \<noteq> None \<or> still bs2 c then running_of q2 else (running_of q2)(c := None))"
      "only_state bs2 bs3" "harts q3 = harts q2"
      using df wired_queue [OF w2] c2 by simp_all
    have "mid_inv bs3 q3"
      using deschedule_inv [OF _ d] wired_queue [OF w2] c2 by (auto intro: mid_invI)
    moreover have "visited (running_on w1) (b_live bs2) (running_of q2) (running_of q3)"
      by (auto simp: d3(1) visited_def runner_of_None)
    ultimately have "wired_ok bs3 (w1\<lparr>wq := q3\<rparr>)"
      using d3(3) only_state_sel(3) [OF d3(2)] by (intro wired_step [OF w2]) simp_all
    then have "wired_ok bs' (w1\<lparr>wq := q'\<rparr>)" by (simp add: e wired_leaving)
    moreover have "only_state bs bs'" using only_state_trans [OF f2(2) d3(2)] by (simp add: e)
    ultimately show ?thesis
      using d3(1,3) f2(1,3) c1 c2 by (auto simp: e contains_running runner_of_None)
  qed
  then show "wired_ok bs' (w1\<lparr>wq := q'\<rparr>)" "only_state bs bs'" "harts q' = harts (wq w)"
    "b \<noteq> c \<Longrightarrow> contains q' b = contains (wq w) b"
    "b_live bs c \<Longrightarrow> running_on w1 c \<or> (\<forall>bs b. still bs b) \<Longrightarrow> contains q' c"
    by blast+
qed

lemma switch_wired:
  assumes "wired_ok bs w" "h < length (runners w)" "\<And>n. next = Some n \<Longrightarrow> contains (wq w) n"
    and "switch h bs w next requeued still = (bs', w', left)"
  shows "wired_ok bs' w' \<and> only_state bs bs' \<and> harts (wq w') = harts (wq w) \<and> cur (runners w' ! h) = next \<and>
    length (runners w') = length (runners w)"
proof (cases "next = cur (runners w ! h)")
  case True
  then show ?thesis using assms by (simp add: switch_def Let_def)
next
  case False
  define w1 where "w1 = w\<lparr>runners := (runners w)[h := \<lparr>cur = None, r_pending = 0\<rparr>]\<rparr>"
  obtain bs2 q2 where t: "(case cur (runners w ! h) of None \<Rightarrow> (bs, wq w1)
      | Some c \<Rightarrow> take_off bs w1 c (max (r_pending (runners w ! h)) MIN_CHARGE) requeued still) = (bs2, q2)" by fastforce
  define w2 where "w2 = w1\<lparr>wq := q2\<rparr>"
  have e: "bs' = bs2" "w' = w2\<lparr>wq := (case next of None \<Rightarrow> q2 | Some n \<Rightarrow> ran_by q2 n True),
      runners := (runners w2)[h := \<lparr>cur = next, r_pending = 0\<rparr>]\<rparr>"
    using assms(4) unfolding switch_def Let_def w1_def [symmetric] t by (simp_all add: False w2_def)
  have w2: "wired_ok bs2 w2 \<and> only_state bs bs2 \<and> harts q2 = harts (wq w) \<and> (\<forall>n. next = Some n \<longrightarrow> contains q2 n)"
  proof (cases "cur (runners w ! h)")
    case None
    have "curs w2 = curs w"
      unfolding w2_def w1_def curs_wq using assms(2) None by (intro curs_pending) simp_all
    then have "wired_ok bs2 w2"
      using t None wired_queue [OF assms(1)] by (intro wired_step [OF assms(1)]) (auto simp: w2_def w1_def)
    then show ?thesis using t None assms(3) by (auto simp: w1_def)
  next
    case (Some c)
    note tk = take_off_wired [OF assms(1,2) Some w1_def]
    have "take_off bs w1 c (max (r_pending (runners w ! h)) MIN_CHARGE) requeued still = (bs2, q2)"
      using t Some by simp
    from tk [OF this] show ?thesis using False Some assms(3) by (auto simp: w2_def)
  qed
  have h: "h < length (runners w2)" "cur (runners w2 ! h) = None" "length (runners w2) = length (runners w)"
    using assms(2) by (simp_all add: w2_def w1_def)
  show ?thesis
  proof (cases "next")
    case None
    have "curs w' = curs w2"
      using h None by (simp add: e curs_def map_update) (metis list_update_id map_update)
    then have "wired_ok bs' w'"
      using w2 None wired_queue [of bs2 w2] by (simp add: wired_step [of bs2 w2] e w2_def)
    then show ?thesis using w2 h None by (simp add: e)
  next
    case (Some n)
    have "wired_ok bs' w'"
      using enter_wired [of bs2 w2 h n] w2 h Some by (simp add: e) (simp add: w2_def)
    then show ?thesis using w2 h Some by (simp add: e)
  qed
qed

section \<open>Reconcile, creation, destruction, harts online\<close>

lemma w_reconcile_wired:
  assumes "wired_ok bs w" "w_reconcile bs w lost gained wait = (bs', w')"
  shows "wired_ok bs' w'" "queue_inv bs' (wq w')" "only_state bs bs'" "runners w' = runners w"
    "harts (wq w') = harts (wq w)" "running_on w b \<Longrightarrow> contains (wq w) b \<Longrightarrow> contains (wq w') b"
proof -
  obtain q' where r: "reconcile_counted bs (wq w) (running_on w) lost gained wait = (bs', q')" and e: "w' = w\<lparr>wq := q'\<rparr>"
    using assms(2) by (auto simp: w_reconcile_def split: prod.splits)
  note m = wired_queue [OF assms(1)]
  note v = reconcile_visited [OF m r]
  show "queue_inv bs' (wq w')" using reconcile_counted_inv(1) [OF m r] by (simp add: e)
  then show "wired_ok bs' w'"
    using v only_state_sel(3) [of bs bs'] by (intro wired_step [OF assms(1)]) (auto intro: mid_invI simp: e)
  show "only_state bs bs'" "runners w' = runners w" "harts (wq w') = harts (wq w)" using v by (simp_all add: e)
  show "running_on w b \<Longrightarrow> contains (wq w) b \<Longrightarrow> contains (wq w') b"
    using v visited_queued [of "running_on w" "b_live bs" "running_of (wq w)" "running_of q'" b]
    by (simp add: e contains_running)
qed

lemma w_create_wired:
  assumes "wired_ok bs w" "\<not> contains (wq w) child" "w_create bs w child parent = (bs', w')"
  shows "wired_ok bs' w'"
proof -
  obtain bs1 w1 where s: "(case parent of Some p \<Rightarrow> settle bs w p | None \<Rightarrow> (bs, w)) = (bs1, w1)" by fastforce
  have w1: "wired_ok bs1 w1" "running_of (wq w1) = running_of (wq w)"
    using s assms(1) settle_wired(1,5) [OF assms(1)] by (auto split: option.splits)
  have n: "\<not> contains (wq w1) child" using assms(2) w1(2) by (simp add: contains_running)
  obtain bs2 where c: "create bs1 (wq w1) child parent = (bs2, wq w1)"
    using create_frame(3) by (metis surj_pair)
  have e: "bs' = bs2" "w' = w1" using assms(3) s c by (simp_all add: w_create_def)
  show ?thesis
    unfolding e
    by (rule wired_step [OF w1(1)])
      (use create_inv(2) [OF n c wired_queue [OF w1(1)]] only_state_sel(3) [OF create_frame(2) [OF c]] in simp_all)
qed

lemma clear_child_wired:
  assumes "wired_ok bs w"
    and "w1 = w\<lparr>runners := map (\<lambda>r. if cur r = Some child then runner_new else r) (runners w)\<rparr>"
  shows "b \<noteq> child \<Longrightarrow> count_run w1 b = count_run w b" "\<not> running_on w1 child"
    "length (runners w1) = length (runners w)" "wq w1 = wq w"
proof -
  have "count_list (map cur (map (\<lambda>r. if cur r = Some child then runner_new else r) rs)) (Some b) =
      count_list (map cur rs) (Some b)" if "b \<noteq> child" for rs :: "'a runner list"
    using that by (induction rs) (auto simp: runner_new_def)
  then show "b \<noteq> child \<Longrightarrow> count_run w1 b = count_run w b"
    by (simp add: assms(2) count_run_def curs_def)
  show "\<not> running_on w1 child" "length (runners w1) = length (runners w)" "wq w1 = wq w"
    by (auto simp: assms(2) running_on_def runner_new_def)
qed

text \<open>
  Between the clearing of its runners and its leaving the queue, a destroyed budget's own count is
  out of step; \<open>wired_but\<close> excepts it.
\<close>

definition wired_but :: "'b \<Rightarrow> ('b, 'z) budgets_scheme \<Rightarrow> 'b wiring \<Rightarrow> bool" where
  "wired_but c bs w \<longleftrightarrow>
     mid_inv bs (wq w) \<and> length (runners w) < 2 ^ 32 \<and> \<not> running_on w c \<and>
     (\<forall>b. running_on w b \<longrightarrow> b_live bs b \<longrightarrow> contains (wq w) b) \<and>
     (harts (wq w) \<noteq> 1 \<longrightarrow> (\<forall>b n. b \<noteq> c \<longrightarrow> running_of (wq w) b = Some n \<longrightarrow> n = of_nat (count_run w b)))"

lemma wired_but_step:
  assumes "wired_but c bs w" "mid_inv bs' (wq w')" "b_live bs' = b_live bs" "running_of (wq w') = running_of (wq w)"
    and "harts (wq w') = harts (wq w)" "curs w' = curs w"
  shows "wired_but c bs' w'"
proof -
  have len: "length (runners w') = length (runners w)"
    using assms(6) by (metis curs_def length_map)
  have run: "running_on w' b \<longleftrightarrow> running_on w b" "count_run w' b = count_run w b" for b
    by (simp_all add: running_on_curs count_run_def assms(6))
  show ?thesis
    using assms(1,2) unfolding wired_but_def contains_running run len assms(3-5) by blast
qed

lemma mid_pending_runner: "h < length (runners w) \<Longrightarrow>
   curs (w\<lparr>runners := (runners w)[h := (runners w ! h)\<lparr>r_pending := p\<rparr>], wq := q\<rparr>) = curs w"
  using curs_pending [of h w "(runners w ! h)\<lparr>r_pending := p\<rparr>"] by simp

lemma settle_but:
  assumes "wired_but c bs w" "settle bs w b = (bs', w')"
  shows "wired_but c bs' w'" "only_state bs bs'"
proof -
  let ?P = "\<lambda>bw. wired_but c (fst bw) (snd bw) \<and> only_state bs (fst bw) \<and> curs (snd bw) = curs w"
  have "?P (fold (settle_at b) [0..<length (runners w)] (bs, w))"
  proof (rule fold_invariant [where Q = "\<lambda>h. h < length (runners w)"])
    show "?P (settle_at b h bw)" if h: "h < length (runners w)" and P: "?P bw" for h bw
    proof (cases bw)
      case (Pair bs1 w1)
      have len: "length (runners w1) = length (runners w)" using P Pair by (metis curs_def length_map snd_conv)
      let ?w = "w1\<lparr>runners := (runners w1)[h := (runners w1 ! h)\<lparr>r_pending := 0\<rparr>]\<rparr>"
      obtain bs2 q2 where f: "fold_charge bs1 (wq w1) b (r_pending (runners w1 ! h)) = (bs2, q2)" by fastforce
      have m: "mid_inv bs1 (wq w1)" using P Pair by (simp add: wired_but_def)
      note fr = fold_charge_frame [OF m f]
      have "settle_at b h bw \<in> {(bs1, w1), (bs1, ?w), (bs2, ?w\<lparr>wq := q2\<rparr>)}"
        using f by (simp add: settle_at_def Let_def Pair)
      moreover have "?P (bs1, ?w)" "?P (bs2, ?w\<lparr>wq := q2\<rparr>)"
        using P Pair h len m fr mid_pending_runner [of h w1] curs_pending [of h w1] mid_invI [OF fr(5)]
          only_state_sel(3) [OF fr(2)] only_state_trans [OF _ fr(2)]
        by (auto intro: wired_but_step [of c bs1 w1])
      ultimately show ?thesis using P Pair by auto
    qed
  qed (use assms(1) in simp_all)
  then show "wired_but c bs' w'" "only_state bs bs'" using assms(2) by (simp_all add: settle_def)
qed

lemma change_weight_but:
  assumes "wired_but c bs w" "only_weight change" "change_weight bs w b change = (bs', w')"
  shows "wired_but c bs' w'" "b_live bs' = b_live bs"
proof -
  obtain bs1 w1 where s: "settle bs w b = (bs1, w1)" by fastforce
  obtain bs3 q3 where r: "reweigh (change bs1) (wq w1) b (b_weight bs1 b) (b_weight (change bs1) b) = (bs3, q3)"
    by fastforce
  have e: "bs' = bs3" "w' = w1\<lparr>wq := q3\<rparr>"
    using assms(3) s r by (simp_all add: change_weight_def Let_def)
  note st = settle_but [OF assms(1) s] and f = reweigh_frame [OF r]
  have m: "mid_inv bs3 q3"
    using reweigh_inv(2) [OF r] only_weight_mid [OF assms(2)] st(1) by (simp add: wired_but_def)
  have l: "b_live bs3 = b_live bs1"
    using only_state_sel(3) [OF f(2)] assms(2) by (simp add: only_weight_def)
  show "wired_but c bs' w'"
    unfolding e by (rule wired_but_step [OF st(1)]) (use m l f in simp_all)
  show "b_live bs' = b_live bs" using l only_state_sel(3) [OF st(2)] by (simp add: e)
qed

lemma clear_child_but:
  assumes "wired_ok bs w"
    and "w1 = w\<lparr>runners := map (\<lambda>r. if cur r = Some child then runner_new else r) (runners w)\<rparr>"
  shows "wired_but child bs w1"
proof -
  note w1 = clear_child_wired [OF assms]
  have "contains (wq w1) b" if "running_on w1 b" "b_live bs b" for b
  proof -
    have "b \<noteq> child" using that(1) w1(2) by blast
    then have "running_on w b" using that(1) w1(1) [of b] by (simp add: running_on_count)
    then show ?thesis using wired_okD(2) [OF assms(1)] that(2) w1(4) by simp
  qed
  moreover have "n = of_nat (count_run w1 b)" if "harts (wq w1) \<noteq> 1" "b \<noteq> child" "running_of (wq w1) b = Some n" for b n
    using wired_okD(3) [OF assms(1), of b n] that w1(1,4) by simp
  ultimately show ?thesis
    using w1(2-4) wired_okD(1,4) [OF assms(1)] by (simp add: wired_but_def)
qed

lemma wired_but_leave:
  assumes "wired_but c bs w" "mid_inv bs' q'" "running_of q' = (running_of (wq w))(c := None)"
    and "b_live bs' = b_live bs" "harts q' = harts (wq w)"
  shows "wired_ok bs' (w\<lparr>wq := q'\<rparr>)"
proof -
  have "contains q' b" if "running_on w b" "b_live bs b" for b
  proof -
    have "b \<noteq> c" using that(1) assms(1) by (auto simp: wired_but_def)
    then show ?thesis using that assms(1,3) by (simp add: wired_but_def contains_running)
  qed
  moreover have "n = of_nat (count_run w b)" if "harts (wq w) \<noteq> 1" "running_of q' b = Some n" for b n
    using that assms(1,3) by (simp add: wired_but_def split: if_splits)
  ultimately show ?thesis
    using assms(1,2,4,5) by (simp add: wired_ok_def wired_but_def)
qed

lemma w_destroy_wired:
  assumes "wired_ok bs w" "only_weight return_weight" "w_destroy bs w child parent return_weight = (bs', w')"
  shows "wired_ok bs' w'" "queue_inv bs' (wq w')" "\<not> contains (wq w') child" "\<not> running_on w' child"
proof -
  obtain bs1 w1 where s: "settle bs w child = (bs1, w1)" by fastforce
  define w2 where "w2 = w1\<lparr>runners := map (\<lambda>r. if cur r = Some child then runner_new else r) (runners w1)\<rparr>"
  note w1 = settle_wired(1) [OF assms(1) s]
  note w2 = clear_child_but [OF w1 w2_def]
  obtain bs3 w3 wp where p: "(case parent of
      Some p \<Rightarrow> (case change_weight bs1 w2 p return_weight of (bs', w') \<Rightarrow> (bs', w', b_weight bs' p))
    | None \<Rightarrow> (bs1, w2, 0)) = (bs3, w3, wp)" by (rule prod_cases3)
  have w3: "wired_but child bs3 w3"
  proof (cases parent)
    case (Some b)
    obtain bs' w' where c: "change_weight bs1 w2 b return_weight = (bs', w')" by fastforce
    show ?thesis
      using change_weight_but(1) [OF w2 assms(2) c] p c Some by simp
  qed (use w2 p in simp)
  obtain bs4 q4 where d: "destroy bs3 (wq w3) child parent (b_weight bs1 child) wp = (bs4, q4)" by fastforce
  have e: "bs' = bs4" "w' = w3\<lparr>wq := q4\<rparr>"
    using assms(3) unfolding w_destroy_def Let_def s prod.case w2_def [symmetric] p d by simp_all
  have m: "mid_inv bs3 (wq w3)" using w3 by (simp add: wired_but_def)
  note fr = destroy_frame [OF m d]
  show q: "queue_inv bs' (wq w')" using destroy_inv(1) [OF m d] by (simp add: e)
  show "\<not> contains (wq w') child" using fr by (simp add: e contains_running)
  show n: "\<not> running_on w' child" using w3 by (simp add: e wired_but_def)
  show "wired_ok bs' w'"
    unfolding e
    by (rule wired_but_leave [OF w3]) (use q fr only_state_sel(3) [of bs3 bs4] in \<open>auto simp: e intro: mid_invI\<close>)
qed

text \<open>Harts coming online: the counts are made afresh, for every queued budget.\<close>

lemma count_slot_sel [simp]:
  "slots (count_slot w wait weight i q) = slots q" "qlen (count_slot w wait weight i q) = qlen q"
  "ranks (count_slot w wait weight i q) = ranks q" "capped (count_slot w wait weight i q) = capped q"
  "harts (count_slot w wait weight i q) = harts q" "qfloor (count_slot w wait weight i q) = qfloor q"
  "tie_front (count_slot w wait weight i q) = tie_front q" "tie_back (count_slot w wait weight i q) = tie_back q"
  "qpending (count_slot w wait weight i q) = qpending q" "slot_of (count_slot w wait weight i q) b = slot_of q b"
  "length (waiting (count_slot w wait weight i q)) = length (waiting q)"
  "length (running (count_slot w wait weight i q)) = length (running q)"
  "length (weights (count_slot w wait weight i q)) = length (weights q)"
  "length (lift_to (count_slot w wait weight i q)) = length (lift_to q)"
  by (simp_all add: count_slot_def slot_of_def split: option.split)

lemma count_run_filter: "length (filter (\<lambda>r. cur r = Some b) (runners w)) = count_run w b"
proof -
  have "length (filter (\<lambda>r. cur r = Some b) rs) = count_list (map cur rs) (Some b)" for rs :: "'a runner list"
    by (induction rs) auto
  then show ?thesis by (simp add: count_run_def curs_def)
qed

lemma count_slot_at:
  assumes "slots q ! i = Some b"
  shows "running (count_slot w wait weight i q) = (running q)[i := of_nat (count_run w b)]"
    "waiting (count_slot w wait weight i q) = (waiting q)[i := wait b]"
    "weights (count_slot w wait weight i q) = (weights q)[i := weight b]"
  using assms by (simp_all add: count_slot_def count_run_filter)

lemma count_slots:
  assumes "queue_wf q" "n \<le> qlen q" "q' = fold (count_slot w wait weight) [0..<n] q"
  shows "slots q' = slots q \<and> qlen q' = qlen q \<and> ranks q' = ranks q \<and> capped q' = capped q \<and> harts q' = harts q \<and>
    qfloor q' = qfloor q \<and> tie_front q' = tie_front q \<and> tie_back q' = tie_back q \<and> qpending q' = qpending q \<and>
    length (waiting q') = length (waiting q) \<and> length (running q') = length (running q) \<and>
    length (weights q') = length (weights q) \<and> length (lift_to q') = length (lift_to q) \<and>
    (\<forall>i<n. \<forall>b. slots q ! i = Some b \<longrightarrow>
       running q' ! i = of_nat (count_run w b) \<and> waiting q' ! i = wait b \<and> weights q' ! i = weight b)"
  using assms(2,3)
proof (induction n arbitrary: q')
  case (Suc n)
  define q1 where "q1 = fold (count_slot w wait weight) [0..<n] q"
  have q': "q' = count_slot w wait weight n q1" using Suc.prems by (simp add: q1_def)
  note IH = Suc.IH [OF Suc_leD [OF Suc.prems(1)] q1_def]
  obtain b where b: "slots q ! n = Some b"
    using wf_slot_nonempty [OF assms(1), of n] Suc.prems(1) by auto
  then have "slots q1 ! n = Some b" using IH by simp
  moreover have "n < length (running q1)" "n < length (waiting q1)" "n < length (weights q1)"
    using assms(1) Suc.prems(1) IH by (auto simp: queue_wf_def)
  ultimately show ?case
    using IH b by (auto simp: q' count_slot_at less_Suc_eq nth_list_update)
qed simp

lemma w_set_harts_wired:
  assumes "wired_ok bs w" "harts (wq w) \<le> n"
  shows "wired_ok bs (w_set_harts w n wait weight)"
proof -
  let ?q = "set_harts (wq w) n"
  define q' where "q' = fold (count_slot w wait weight) [0..<qlen (wq w)] ?q"
  have m: "mid_inv bs (wq w)" by (rule wired_queue [OF assms(1)])
  have "max n 1 \<noteq> 0" by (auto simp: max_def)
  then have wf: "queue_wf ?q" using mid_wf [OF m] by (simp add: queue_wf_def set_harts_def)
  have c: "slots q' = slots (wq w)" "qlen q' = qlen (wq w)" "ranks q' = ranks (wq w)" "capped q' = capped (wq w)"
    "harts q' = max n 1" "qfloor q' = qfloor (wq w)" "tie_front q' = tie_front (wq w)" "tie_back q' = tie_back (wq w)"
    "qpending q' = qpending (wq w)" "length (waiting q') = length (waiting (wq w))"
    "length (running q') = length (running (wq w))" "length (weights q') = length (weights (wq w))"
    "length (lift_to q') = length (lift_to (wq w))"
    "\<And>i b. i < qlen (wq w) \<Longrightarrow> slots (wq w) ! i = Some b \<Longrightarrow> running q' ! i = of_nat (count_run w b)"
    using count_slots [OF wf _ q'_def] by (simp_all add: set_harts_def)
  have one: "harts (wq w) = 1" if "harts q' = 1"
    using that c(5) assms(2) harts_one_or_more [OF mid_wf [OF m]] by (auto simp: max_def split: if_splits)
  have "queue_wf q'" "synced bs q'" "ties_held q'"
    using m \<open>max n 1 \<noteq> 0\<close> by (simp_all add: mid_inv_def queue_wf_def synced_def ties_held_def c)
  moreover have "floor_held q' \<and> alone_held q'" if "harts q' = 1"
    using m one [OF that] that
    by (simp add: mid_inv_def alone_held_def c floor_held_def holds_floor_def has_thread_def at_floor_def) blast
  ultimately have "mid_inv bs q'" by (auto simp: mid_inv_def alone_held_def)
  moreover have "contains q' b = contains (wq w) b" for b
    by (simp add: contains_def slot_of_def c)
  moreover have "k = of_nat (count_run w b)" if "running_of q' b = Some k" for b k
    using that c(14) slot_of_SomeD [of q' b] by (auto simp: running_of_alt c)
  ultimately have "wired_ok bs (w\<lparr>wq := q'\<rparr>)"
    using assms(1) by (simp add: wired_ok_def)
  then show ?thesis by (simp add: w_set_harts_def q'_def)
qed

section \<open>Picking\<close>

lemma pick_SomeD:
  assumes "pick q passed = Some b"
  shows "\<exists>i<qlen q. slots q ! i = Some b \<and> \<not> passed b \<and>
    (\<forall>j<qlen q. \<forall>c. slots q ! j = Some c \<longrightarrow> \<not> passed c \<longrightarrow> ranks q ! i \<le> ranks q ! j)"
proof -
  let ?xs = "filter (\<lambda>i. case slots q ! i of None \<Rightarrow> False | Some b \<Rightarrow> \<not> passed b) [0..<qlen q]"
  obtain i where i: "min_by_key (\<lambda>i. ranks q ! i) ?xs = Some i" "slots q ! i = Some b"
    using assms by (auto simp: pick_def split: option.splits)
  from min_by_key_SomeD [OF i(1)] i(2) show ?thesis by (auto split: option.splits)
qed

lemma pick_NoneD:
  assumes "pick q passed = None" "queue_wf q" "j < qlen q" "slots q ! j = Some c"
  shows "passed c"
proof -
  let ?xs = "filter (\<lambda>i. case slots q ! i of None \<Rightarrow> False | Some b \<Rightarrow> \<not> passed b) [0..<qlen q]"
  have "min_by_key (\<lambda>i. ranks q ! i) ?xs = None"
  proof (cases "min_by_key (\<lambda>i. ranks q ! i) ?xs")
    case (Some i)
    then have "i < qlen q" using min_by_key_SomeD [OF Some] by auto
    then show ?thesis using assms(1) Some wf_slot_nonempty [OF assms(2), of i] by (auto simp: pick_def)
  qed
  then have "?xs = []" by (simp add: min_by_key_None)
  then have "j \<notin> set ?xs" by (metis empty_iff list.set(1))
  then show ?thesis using assms(3,4) by auto
qed

lemma passed_over_bit:
  "passed_over w passed b \<longleftrightarrow> (\<exists>i<length (runners w). bit passed (i mod 64) \<and> cur (runners w ! i) = Some b)"
  by (auto simp: passed_over_def and_one_eq bit_iff_odd_drop_bit odd_iff_mod_2_eq_one)

lemma deschedule_len:
  assumes "mid_inv bs q" "deschedule bs q b False = (bs', q')" "slot_of q b = Some i"
  shows "qlen q' < qlen q"
proof -
  let ?s = "(b_state bs b)\<lparr>queued := False\<rparr>"
  obtain q3 where r: "raise_floor (set_state b ?s bs) (remove_at q i) = (bs', q3)" "q' = reset_if_empty q3"
    using assms(2,3) by (auto simp: deschedule_def requeue_slot_def Let_def split: prod.splits)
  have m: "mid_inv (set_state b ?s bs) (remove_at q i)"
    using drop_slot_mid [OF assms(1), of b ?s] assms(3) by simp
  have "qlen q' = qlen q - 1"
    using raise_floor_inv(3) [OF m r(1)] r(2) by (simp add: same_slots_def)
  then show ?thesis using slot_of_SomeD [OF assms(3)] by simp
qed

lemma take_out_wired:
  assumes "wired_ok bs w" "runner_of w b = None" "deschedule bs (wq w) b False = (bs1, q1)"
  shows "wired_ok bs1 (w\<lparr>wq := q1\<rparr>)" "only_state bs bs1" "c \<noteq> b \<Longrightarrow> contains q1 c = contains (wq w) c"
proof -
  note m = wired_queue [OF assms(1)]
  have f: "running_of q1 = (running_of (wq w))(b := None)" "only_state bs bs1" "harts q1 = harts (wq w)"
    using deschedule_frame [OF m assms(3)] by simp_all
  have "mid_inv bs1 q1" using deschedule_inv [OF m assms(3)] by (simp add: mid_invI)
  moreover have "visited (running_on w) (b_live bs) (running_of (wq w)) (running_of q1)"
    using assms(2) by (auto simp: f(1) visited_def runner_of_None)
  ultimately show "wired_ok bs1 (w\<lparr>wq := q1\<rparr>)"
    using f(3) only_state_sel(3) [OF f(2)] by (intro wired_step [OF assms(1)]) simp_all
  show "only_state bs bs1" "c \<noteq> b \<Longrightarrow> contains q1 c = contains (wq w) c"
    using f by (simp_all add: contains_running)
qed

definition unpassed :: "u64 \<Rightarrow> nat" where
  "unpassed p = card {i. i < 64 \<and> \<not> bit p i}"

lemma unpassed_less:
  assumes "\<not> bit p (h mod 64)"
  shows "unpassed (or p (push_bit (h mod 64) 1)) < unpassed p"
proof -
  have "bit (or p (push_bit (h mod 64) 1)) i \<longleftrightarrow> bit p i \<or> i = h mod 64" if "i < 64" for i
    using that by (auto simp: bit_or_iff bit_exp_iff)
  then have "{i. i < 64 \<and> \<not> bit (or p (push_bit (h mod 64) 1)) i} = {i. i < 64 \<and> \<not> bit p i} - {h mod 64}"
    by blast
  moreover have "h mod 64 \<in> {i. i < 64 \<and> \<not> bit p i}" using assms by simp
  moreover have "finite {i::nat. i < 64 \<and> \<not> bit p i}" by simp
  ultimately show ?thesis unfolding unpassed_def by (simp only: card_Diff1_less)
qed

text \<open>
  The rule for the pick's loop: every turn passes a runner over or takes a budget out, so the loop
  ends, and what the invariant \<open>I\<close> gives at its two exits holds of what it returns.
\<close>

lemma pick_loop_rule:
  assumes "wired_ok bs w" "I passed bs w st"
    and none: "\<And>passed bs w st. wired_ok bs w \<Longrightarrow> I passed bs w st \<Longrightarrow>
      pick (wq w) (passed_over w passed) = None \<Longrightarrow> Q None bs w st"
    and found: "\<And>passed bs w st b t st'. wired_ok bs w \<Longrightarrow> I passed bs w st \<Longrightarrow>
      pick (wq w) (passed_over w passed) = Some b \<Longrightarrow> next st bs b = (Some t, st') \<Longrightarrow> Q (Some (b, t)) bs w st'"
    and pass: "\<And>passed bs w st b st' h. wired_ok bs w \<Longrightarrow> I passed bs w st \<Longrightarrow> contains (wq w) b \<Longrightarrow>
      next st bs b = (None, st') \<Longrightarrow> h < length (runners w) \<Longrightarrow> cur (runners w ! h) = Some b \<Longrightarrow>
      I (or passed (push_bit (h mod 64) 1)) bs w st'"
    and out: "\<And>passed bs w st b st' bs' q'. wired_ok bs w \<Longrightarrow> I passed bs w st \<Longrightarrow> next st bs b = (None, st') \<Longrightarrow>
      wired_ok bs' (w\<lparr>wq := q'\<rparr>) \<Longrightarrow> only_state bs bs' \<Longrightarrow>
      (\<And>c. c \<noteq> b \<Longrightarrow> contains q' c = contains (wq w) c) \<Longrightarrow> I passed bs' (w\<lparr>wq := q'\<rparr>) st'"
  shows "\<exists>r bs' w' st'. pick_loop next passed bs w st = Some (r, bs', w', st') \<and> wired_ok bs' w' \<and> Q r bs' w' st'"
  using assms(1,2)
proof (induction "qlen (wq w) + unpassed passed" arbitrary: passed bs w st rule: less_induct)
  case less
  note m = wired_queue [OF less.prems(1)]
  show ?case
  proof (cases "pick (wq w) (passed_over w passed)")
    case None
    then show ?thesis using less.prems(1) none [OF less.prems None] by (subst pick_loop.simps) simp
  next
    case (Some b)
    obtain i where i: "i < qlen (wq w)" "slots (wq w) ! i = Some b" "\<not> passed_over w passed b"
      using pick_SomeD [OF Some] by blast
    note so = slot_of_eq_Some [OF mid_wf [OF m] i(1,2)]
    obtain t st1 where n: "next st bs b = (t, st1)" by fastforce
    consider (found) x where "t = Some x" | (pass) h where "t = None" "runner_of w b = Some h"
      | (out) "t = None" "runner_of w b = None" by fastforce
    then show ?thesis
    proof cases
      case found
      then show ?thesis
        using less.prems(1) assms(4) [OF less.prems Some] Some n by (subst pick_loop.simps) simp
    next
      case pass
      let ?p = "or passed (push_bit (h mod 64) 1)"
      have h: "h < length (runners w)" "cur (runners w ! h) = Some b" using runner_of_SomeD [OF pass(2)] by auto
      then have "\<not> bit passed (h mod 64)" using i(3) by (auto simp: passed_over_bit)
      then have "unpassed ?p < unpassed passed" by (rule unpassed_less)
      moreover have "I ?p bs w st1"
        using assms(5) [OF less.prems _ _ h, of st1] n pass(1) so by (simp add: contains_def)
      moreover have "pick_loop next passed bs w st = pick_loop next ?p bs w st1"
        using Some n pass by (subst pick_loop.simps) simp
      ultimately show ?thesis using less.hyps [of w ?p bs st1] less.prems(1) by simp
    next
      case out
      obtain bs1 q1 where d: "deschedule bs (wq w) b False = (bs1, q1)" by fastforce
      note w1 = take_out_wired [OF less.prems(1) out(2) d]
      have "qlen q1 < qlen (wq w)" by (rule deschedule_len [OF m d so])
      moreover have "I passed bs1 (w\<lparr>wq := q1\<rparr>) st1"
        using assms(6) [OF less.prems _ w1] n out(1) by simp
      moreover have "pick_loop next passed bs w st = pick_loop next passed bs1 (w\<lparr>wq := q1\<rparr>) st1"
        using Some n out d by (subst pick_loop.simps) simp
      ultimately show ?thesis using less.hyps [of "w\<lparr>wq := q1\<rparr>" passed bs1 st1] w1(1) by simp
    qed
  qed
qed

definition picked :: "('b \<times> 't) option \<Rightarrow> 'b wiring \<Rightarrow> bool" where
  "picked r w \<longleftrightarrow> (case r of None \<Rightarrow> True | Some (b, _) \<Rightarrow> contains (wq w) b)"

lemma view_rank_min:
  assumes "queue_wf q" "pick q passed = Some b" "contains q c" "\<not> passed c"
  shows "v_rank (the (view q b)) \<le> v_rank (the (view q c))"
proof -
  obtain i where i: "i < qlen q" "slots q ! i = Some b"
    and le: "\<And>j c. j < qlen q \<Longrightarrow> slots q ! j = Some c \<Longrightarrow> \<not> passed c \<Longrightarrow> ranks q ! i \<le> ranks q ! j"
    using pick_SomeD [OF assms(2)] by metis
  obtain j where j: "j < qlen q" "slots q ! j = Some c" using assms(3) contains_iff [OF assms(1)] by blast
  show ?thesis
    using slot_of_eq_Some [OF assms(1) i] slot_of_eq_Some [OF assms(1) j] le [OF j assms(4)]
    by (simp add: view_def slot_at_def)
qed

lemma pick_contains: "queue_wf q \<Longrightarrow> pick q passed = Some b \<Longrightarrow> contains q b"
  using pick_SomeD [of q passed b] contains_iff [of q b] by blast

lemma wired_pick_contains: "wired_ok bs w \<Longrightarrow> pick (wq w) passed = Some b \<Longrightarrow> contains (wq w) b"
  by (rule pick_contains [OF mid_wf [OF wired_queue]])

lemma pick_loop_ends:
  assumes "wired_ok bs w"
  shows "\<exists>r bs' w' st'. pick_loop next passed bs w st = Some (r, bs', w', st') \<and> wired_ok bs' w' \<and>
    runners w' = runners w \<and> only_state bs bs' \<and> picked r w'"
  by (rule pick_loop_rule [OF assms, where I = "\<lambda>_ bs1 w1 _. runners w1 = runners w \<and> only_state bs bs1"])
    (auto simp: picked_def intro: only_state_trans wired_pick_contains)

text \<open>A budget that is queued, not passed over and sure to offer a thread is not missed.\<close>

definition offers :: "('s \<Rightarrow> bool) \<Rightarrow> ('s \<Rightarrow> ('b, 'z) budgets_scheme \<Rightarrow> 'b \<Rightarrow> 't option \<times> 's) \<Rightarrow> 'b \<Rightarrow> bool" where
  "offers P next b \<longleftrightarrow>
     (\<forall>st bs. P st \<longrightarrow> fst (next st bs b) \<noteq> None) \<and> (\<forall>st bs c. P st \<longrightarrow> c \<noteq> b \<longrightarrow> P (snd (next st bs c)))"

lemma offersD:
  assumes "offers P next b" "P st" "next st bs c = (None, st')"
  shows "b \<noteq> c" "P st'"
  using assms unfolding offers_def by (metis fst_conv, metis fst_conv snd_conv)

lemma passed_over_or:
  assumes "length (runners w) \<le> 64" "h < length (runners w)" "cur (runners w ! h) = Some c" "b \<noteq> c"
  shows "passed_over w (or passed (push_bit (h mod 64) 1)) b \<longleftrightarrow> passed_over w passed b"
proof -
  have "bit (or passed (push_bit (h mod 64) 1)) (i mod 64) \<longleftrightarrow> bit passed (i mod 64) \<or> i = h"
    if "i < length (runners w)" for i
    using that assms(1,2) by (auto simp: bit_or_iff bit_exp_iff)
  then have "(bit (or passed (push_bit (h mod 64) 1)) (i mod 64) \<and> cur (runners w ! i) = Some b) \<longleftrightarrow>
      bit passed (i mod 64) \<and> cur (runners w ! i) = Some b" if "i < length (runners w)" for i
    using that assms(3,4) by auto
  then show ?thesis unfolding passed_over_bit by blast
qed

lemma passed_over_wq [simp]: "passed_over (w\<lparr>wq := q\<rparr>) passed b = passed_over w passed b"
  by (simp add: passed_over_def)

lemma pick_None_passed:
  assumes "wired_ok bs w" "pick (wq w) (passed_over w passed) = None" "contains (wq w) b"
  shows "passed_over w passed b"
  using pick_NoneD [OF assms(2) mid_wf [OF wired_queue [OF assms(1)]]] assms(3)
    contains_iff [OF mid_wf [OF wired_queue [OF assms(1)]]] by blast

lemma pick_loop_finds:
  assumes "wired_ok bs w" "length (runners w) \<le> 64" "offers P next b" "P st" "contains (wq w) b" "\<not> passed_over w passed b"
  shows "\<exists>r bs' w' st'. pick_loop next passed bs w st = Some (r, bs', w', st') \<and> wired_ok bs' w' \<and> r \<noteq> None"
proof (rule pick_loop_rule [OF assms(1), where
      I = "\<lambda>passed _ w st. length (runners w) \<le> 64 \<and> P st \<and> contains (wq w) b \<and> \<not> passed_over w passed b"])
  fix passed bs w st c st' h
  assume I: "length (runners w) \<le> 64 \<and> P st \<and> contains (wq w) b \<and> \<not> passed_over w passed b"
    and n: "next st bs c = (None, st')" and h: "h < length (runners w)" "cur (runners w ! h) = Some c"
  then show "length (runners w) \<le> 64 \<and> P st' \<and> contains (wq w) b \<and> \<not> passed_over w (or passed (push_bit (h mod 64) 1)) b"
    using offersD [OF assms(3) _ n] passed_over_or [OF _ h] by blast
next
  fix passed bs w st c st' bs' q'
  assume I: "length (runners w) \<le> 64 \<and> P st \<and> contains (wq w) b \<and> \<not> passed_over w passed b"
    and n: "next st bs c = (None, st')" and q: "\<And>x. x \<noteq> c \<Longrightarrow> contains q' x = contains (wq w) x"
  then show "length (runners (w\<lparr>wq := q'\<rparr>)) \<le> 64 \<and> P st' \<and> contains (wq (w\<lparr>wq := q'\<rparr>)) b \<and>
      \<not> passed_over (w\<lparr>wq := q'\<rparr>) passed b"
    using offersD [OF assms(3) _ n] by simp
next
  fix passed bs w st
  assume w: "wired_ok bs w" and p: "pick (wq w) (passed_over w passed) = None"
    and I: "length (runners w) \<le> 64 \<and> P st \<and> contains (wq w) b \<and> \<not> passed_over w passed b"
  have "passed_over w passed b" using pick_None_passed [OF w p, of b] I by simp
  then show "None \<noteq> None" using I by blast
qed (use assms in simp_all)

text \<open>With choices that do not change, what a pick returns is the lowest rank of those it could.\<close>

lemma pick_loop_min:
  fixes f :: "'b \<Rightarrow> 't option" and bs :: "('b, 'z) budgets_scheme" and st :: 's
  assumes "wired_ok bs w" "length (runners w) \<le> 64"
  shows "\<exists>r bs' w' st'. pick_loop (\<lambda>st _ b. (f b, st)) 0 bs w st = Some (r, bs', w', st') \<and> wired_ok bs' w' \<and>
    (\<forall>c. contains (wq w) c \<and> f c \<noteq> None \<longrightarrow> contains (wq w') c) \<and>
    (case r of
       None \<Rightarrow> \<forall>c. contains (wq w) c \<longrightarrow> f c = None
     | Some (b, t) \<Rightarrow> f b = Some t \<and> contains (wq w') b \<and>
         (\<forall>c. contains (wq w') c \<and> f c \<noteq> None \<longrightarrow> v_rank (the (view (wq w') b)) \<le> v_rank (the (view (wq w') c))))"
    (is "\<exists>r bs' w' st'. _ \<and> _ \<and> ?Q r bs' w' st'")
proof (rule pick_loop_rule [OF assms(1), where I = "\<lambda>passed _ w1 _. length (runners w1) \<le> 64 \<and>
      (\<forall>c. passed_over w1 passed c \<longrightarrow> f c = None) \<and> (\<forall>c. contains (wq w) c \<and> f c \<noteq> None \<longrightarrow> contains (wq w1) c)"])
  show "length (runners w) \<le> 64 \<and> (\<forall>c. passed_over w 0 c \<longrightarrow> f c = None) \<and>
      (\<forall>c. contains (wq w) c \<and> f c \<noteq> None \<longrightarrow> contains (wq w) c)"
    using assms(2) by (simp add: passed_over_bit)
next
  fix passed w1 and bs :: "('b, 'z) budgets_scheme" and st :: 's
  assume w1: "wired_ok bs w1" and p: "pick (wq w1) (passed_over w1 passed) = None"
    and I: "length (runners w1) \<le> 64 \<and> (\<forall>c. passed_over w1 passed c \<longrightarrow> f c = None) \<and>
      (\<forall>c. contains (wq w) c \<and> f c \<noteq> None \<longrightarrow> contains (wq w1) c)"
  then show "?Q None bs w1 st" using pick_None_passed [OF w1 p] by auto
next
  fix passed w1 b t and bs :: "('b, 'z) budgets_scheme" and st st' :: 's
  assume w1: "wired_ok bs w1" and p: "pick (wq w1) (passed_over w1 passed) = Some b" and n: "(f b, st) = (Some t, st')"
    and I: "length (runners w1) \<le> 64 \<and> (\<forall>c. passed_over w1 passed c \<longrightarrow> f c = None) \<and>
      (\<forall>c. contains (wq w) c \<and> f c \<noteq> None \<longrightarrow> contains (wq w1) c)"
  note wf = mid_wf [OF wired_queue [OF w1]]
  have "v_rank (the (view (wq w1) b)) \<le> v_rank (the (view (wq w1) c))" if "contains (wq w1) c" "f c \<noteq> None" for c
  proof (rule view_rank_min [OF wf p that(1)])
    from I have "passed_over w1 passed c \<longrightarrow> f c = None" by (elim conjE) (erule spec)
    then show "\<not> passed_over w1 passed c" using that(2) by simp
  qed
  then show "?Q (Some (b, t)) bs w1 st'" using I n pick_contains [OF wf p] by auto
next
  fix passed bs w1 st c st' h
  assume I: "length (runners w1) \<le> 64 \<and> (\<forall>c. passed_over w1 passed c \<longrightarrow> f c = None) \<and>
      (\<forall>c. contains (wq w) c \<and> f c \<noteq> None \<longrightarrow> contains (wq w1) c)"
    and n: "(f c, st) = (None, st')" and h: "h < length (runners w1)" "cur (runners w1 ! h) = Some c"
  have "f x = None" if "passed_over w1 (or passed (push_bit (h mod 64) 1)) x" for x
    using that passed_over_or [OF _ h, of x passed] I n by (cases "x = c") auto
  with I show "length (runners w1) \<le> 64 \<and> (\<forall>c. passed_over w1 (or passed (push_bit (h mod 64) 1)) c \<longrightarrow> f c = None) \<and>
      (\<forall>c. contains (wq w) c \<and> f c \<noteq> None \<longrightarrow> contains (wq w1) c)" by blast
next
  fix passed bs w1 st c st' bs' q'
  assume I: "length (runners w1) \<le> 64 \<and> (\<forall>c. passed_over w1 passed c \<longrightarrow> f c = None) \<and>
      (\<forall>c. contains (wq w) c \<and> f c \<noteq> None \<longrightarrow> contains (wq w1) c)"
    and n: "(f c, st) = (None, st')" and q: "\<And>x. x \<noteq> c \<Longrightarrow> contains q' x = contains (wq w1) x"
  have "contains q' x" if "contains (wq w) x" "f x \<noteq> None" for x
    using that I n q [of x] by (cases "x = c") auto
  with I show "length (runners (w1\<lparr>wq := q'\<rparr>)) \<le> 64 \<and> (\<forall>c. passed_over (w1\<lparr>wq := q'\<rparr>) passed c \<longrightarrow> f c = None) \<and>
      (\<forall>c. contains (wq w) c \<and> f c \<noteq> None \<longrightarrow> contains (wq (w1\<lparr>wq := q'\<rparr>)) c)" by simp
qed

section \<open>Repicking\<close>

lemma leave_all_keeps:
  assumes "mid_inv bs q" "fold (leave_one run wait) lost (bs, q) = (bs', q')" "contains q b"
    and "\<And>bs'. only_state bs bs' \<Longrightarrow> wait bs' b > 0"
  shows "contains q' b"
proof -
  let ?P = "\<lambda>bq. mid_inv (fst bq) (snd bq) \<and> only_state bs (fst bq) \<and> contains (snd bq) b"
  have "?P (fold (leave_one run wait) lost (bs, q))"
  proof (rule fold_invariant [where Q = "\<lambda>_. True"])
    fix x bq
    assume P: "?P bq"
    obtain bs1 q1 where bq: "bq = (bs1, q1)" by fastforce
    have os: "only_state bs1 (fst (leave_one run wait x bq))"
      using leave_one_visited [of bq "b_live bs1" "leave_one run wait x bq" run wait x] P bq by simp
    have "contains (snd (leave_one run wait x bq)) b"
    proof (cases "x = b")
      case True
      then have "leave_one run wait x bq = bq"
        using assms(4) [of bs1] P bq by (simp add: leave_one_def Let_def)
      then show ?thesis using P by simp
    next
      case False
      then show ?thesis
        using P bq running_of_drop [OF mid_wf, of bs1 q1 x]
        by (auto simp: leave_one_def Let_def contains_running)
    qed
    then show "?P (leave_one run wait x bq)"
      using leave_one_mid [of bq run wait x] P os bq by (auto intro: only_state_trans)
  qed (use assms(1,3) in simp_all)
  then show ?thesis by (simp add: assms(2))
qed

lemma reconcile_keeps:
  assumes "mid_inv bs q" "reconcile_counted bs q run lost gained wait = (bs', q')" "contains q b"
    and "\<And>bs'. only_state bs bs' \<Longrightarrow> wait bs' b > 0"
  shows "contains q' b"
  using assms(1,2)
proof (rule reconcile_countedE)
  fix q1 bs2 q2 bs3 q3 q5 bs6 q6
  assume s: "q1 = (if harts q > 1 then fold (count_visited bs wait) (lost @ gained) q else q)"
    "mid_inv bs q1" "fold (leave_one run wait) lost (bs, q1) = (bs2, q2)" "mid_inv bs2 q2"
    "raise_floor bs2 q2 = (bs3, q3)" "q5 = (reset_if_empty q3)\<lparr>qpending := qpending q3 \<or> is_empty q3\<rparr>"
    "mid_inv bs3 q5" "harts q5 = 1 \<longrightarrow> qpending q5 \<or> 0 < qlen q5"
    "wake_all wait (rev (sort_key (b_id bs3) gained)) bs3 q5 = (bs6, q6)" "mid_inv bs6 q6"
    "raise_floor bs6 q6 = (bs', q')"
  have "contains q1 b"
    using assms(3) by (simp add: s(1) contains_running count_visited_frame del: fold_append)
  then have "contains q2 b" by (rule leave_all_keeps [OF s(2,3) _ assms(4)])
  then have "contains q5 b" using raise_floor_frame(1) [OF s(4,5)] by (simp add: s(6) contains_running)
  then have "contains q6 b"
    using wake_all_visited [OF s(7-9), of "\<lambda>_. True"] visited_queued [of "\<lambda>_. True" "b_live bs3" "running_of q5" "running_of q6" b]
    by (simp add: contains_running)
  then show "contains q' b" using raise_floor_frame(1) [OF s(10,11)] by (simp add: contains_running)
qed

lemma switch_off_keeps:
  assumes "wired_ok bs w" "h < length (runners w)" "cur (runners w ! h) = Some c" "b_live bs c"
    and "switch h bs w None requeued (\<lambda>_ _. True) = (bs', w', left)"
  shows "contains (wq w') c"
proof -
  let ?w = "w\<lparr>runners := (runners w)[h := \<lparr>cur = None, r_pending = 0\<rparr>]\<rparr>"
  obtain bs2 q2 where t: "take_off bs ?w c (max (r_pending (runners w ! h)) MIN_CHARGE) requeued (\<lambda>_ _. True) = (bs2, q2)"
    by fastforce
  have "wq w' = q2" using assms(3,5) t by (auto simp: switch_def Let_def)
  then show ?thesis using take_off_wired(5) [OF assms(1-3) refl t assms(4)] by simp
qed

lemma offers_own: "offers (\<lambda>st. fst st \<noteq> None) (own_next b next) b"
  by (auto simp: offers_def own_next_def split: prod.splits)

lemma set_waiting_wired: "wired_ok bs w \<Longrightarrow> wired_ok bs (w\<lparr>wq := set_waiting (wq w) b n\<rparr>)"
  by (rule wired_step [of bs w]) (simp_all add: set_waiting_mid wired_queue)

lemma w_reconcile_keeps:
  assumes "wired_ok bs w" "w_reconcile bs w lost gained wait = (bs', w')" "contains (wq w) b"
    and "\<And>bs'. only_state bs bs' \<Longrightarrow> wait bs' b > 0"
  shows "contains (wq w') b"
  using assms(2) reconcile_keeps [where wait = wait, OF wired_queue [OF assms(1)] _ assms(3,4)]
  by (auto simp: w_reconcile_def split: prod.splits)

text \<open>The steps of a repick up to its pick, for the preempted budget \<open>b\<close>.\<close>

lemma repick_picks:
  assumes "wired_ok bs w" "h < length (runners w)" "length (runners w) \<le> 64" "cur (runners w ! h) = Some b" "b_live bs b"
    and "\<And>bs'. only_state bs bs' \<Longrightarrow> wait bs' b = 0"
    and "switch h bs (w\<lparr>wq := set_waiting (wq w) b 1\<rparr>) None True (\<lambda>_ _. True) = (bs2, w2, left)"
    and "w_reconcile bs2 w2 lost gained (\<lambda>bs x. wait bs x + (if x = b then 1 else 0)) = (bs3, w3)"
    and "w_reconcile bs3 w3 [] [] (\<lambda>bs x. wait bs x + (if x = b then 1 else 0)) = (bs4, w4)"
  shows "\<exists>n t bs5 w5 st'. w_pick bs4 w4 (own_next b next) (Some own, st) = Some (Some (n, t), bs5, w5, st') \<and>
    wired_ok bs5 w5 \<and> only_state bs bs5 \<and> runners w5 = runners w2 \<and> contains (wq w5) n \<and>
    cur (runners w5 ! h) = None \<and> length (runners w5) = length (runners w)"
proof -
  let ?w1 = "w\<lparr>wq := set_waiting (wq w) b 1\<rparr>" and ?counted = "\<lambda>bs x. wait bs x + (if x = b then 1 else 0 :: u32)"
  have w1: "wired_ok bs ?w1" "h < length (runners ?w1)" "cur (runners ?w1 ! h) = Some b"
    using assms(1,2,4) set_waiting_wired by simp_all
  have w2: "wired_ok bs2 w2" "only_state bs bs2" "cur (runners w2 ! h) = None" "length (runners w2) = length (runners w)"
    using switch_wired [OF w1(1,2) _ assms(7)] by simp_all
  have c2: "contains (wq w2) b" by (rule switch_off_keeps [OF w1 assms(5,7)])
  have pos: "?counted bs' b > 0" if "only_state bs bs'" for bs' using assms(6) [OF that] by simp
  note w3 = w_reconcile_wired [OF w2(1) assms(8)]
  have o3: "only_state bs bs3" using only_state_trans [OF w2(2) w3(3)] .
  have c3: "contains (wq w3) b"
    by (rule w_reconcile_keeps [OF w2(1) assms(8) c2 pos [OF only_state_trans [OF w2(2)]]])
  note w4 = w_reconcile_wired [OF w3(1) assms(9)]
  have c4: "contains (wq w4) b"
    by (rule w_reconcile_keeps [OF w3(1) assms(9) c3 pos [OF only_state_trans [OF o3]]])
  obtain r bs5 w5 st' where p: "pick_loop (own_next b next) 0 bs4 w4 (Some own, st) = Some (r, bs5, w5, st')"
    and w5: "wired_ok bs5 w5" "runners w5 = runners w4" "only_state bs4 bs5" "picked r w5"
    using pick_loop_ends [OF w4(1)] by metis
  have "\<exists>r bs' w' st'. pick_loop (own_next b next) 0 bs4 w4 (Some own, st) = Some (r, bs', w', st') \<and> wired_ok bs' w' \<and> r \<noteq> None"
    by (rule pick_loop_finds [OF w4(1) _ offers_own _ c4])
      (use assms(3) w2(4) w3(4) w4(4) in \<open>simp_all add: passed_over_bit\<close>)
  then have "r \<noteq> None" using p by auto
  then obtain n t where "r = Some (n, t)" by (metis not_None_eq surj_pair)
  then show ?thesis
    using p w5 w2(3,4) w3(4) w4(4) only_state_trans [OF only_state_trans [OF o3 w4(3)] w5(3)]
    by (simp add: w_pick_def picked_def)
qed

lemma repick_wired:
  assumes "wired_ok bs w" "h < length (runners w)" "length (runners w) \<le> 64"
    and "\<And>b. cur (runners w ! h) = Some b \<Longrightarrow> b_live bs b"
    and "\<forall>b bs'. only_state bs bs' \<longrightarrow> wait bs' b = wait bs b"
  shows "\<exists>res bs' w'. repick h bs w lost gained wait own next st = Some (Inr (res, bs', w')) \<and> wired_ok bs' w' \<and>
    (res = InPlace \<longrightarrow> cur (runners w' ! h) = cur (runners w ! h)) \<and>
    (\<forall>n t. res = Other n t \<longrightarrow> cur (runners w' ! h) = None \<and> contains (wq w') n \<and> cur (runners w ! h) \<noteq> Some n) \<and>
    (res = Declined \<longrightarrow> w' = w \<and> bs' = bs)"
proof (cases "\<exists>b. cur (runners w ! h) = Some b \<and> wait bs b = 0")
  case False
  then have "repick h bs w lost gained wait own next st = Some (Inr (Declined, bs, w))"
    by (auto simp: repick_def word_gt_0 split: option.splits)
  then show ?thesis using assms(1) by simp
next
  case True
  then obtain b where b: "cur (runners w ! h) = Some b" "wait bs b = 0" by blast
  let ?counted = "\<lambda>bs x. wait bs x + (if x = b then 1 else 0 :: u32)"
  have z: "wait bs' b = 0" if "only_state bs bs'" for bs' using assms(5) [rule_format, OF that, of b] b(2) by simp
  obtain bs2 w2 l where s: "switch h bs (w\<lparr>wq := set_waiting (wq w) b 1\<rparr>) None True (\<lambda>_ _. True) = (bs2, w2, l)"
    by (rule prod_cases3)
  obtain bs3 w3 where r1: "w_reconcile bs2 w2 lost gained ?counted = (bs3, w3)" by (rule prod.exhaust)
  obtain bs4 w4 where r2: "w_reconcile bs3 w3 [] [] ?counted = (bs4, w4)" by (rule prod.exhaust)
  obtain n t bs5 w5 st' where p: "w_pick bs4 w4 (own_next b next) (Some own, st) = Some (Some (n, t), bs5, w5, st')"
    and w5: "wired_ok bs5 w5" "contains (wq w5) n" "cur (runners w5 ! h) = None" "length (runners w5) = length (runners w)"
    using repick_picks [OF assms(1-3) b(1) assms(4) [OF b(1)] z s r1 r2, of "next" own st] by blast
  have "\<not> wait bs b > 0" using b(2) by simp
  note unf = repick_def b(1) option.case if_not_P [OF this] Let_def s r1 r2 prod.case p
  show ?thesis
  proof (cases "n = b")
    case False
    then have "repick h bs w lost gained wait own next st = Some (Inr (Other n t, bs5, w5))"
      unfolding unf by simp
    then show ?thesis using w5 b(1) False by simp
  next
    case True
    obtain bs7 w7 l7 where s7: "switch h bs5 (w5\<lparr>wq := set_waiting (wq w5) b 0\<rparr>) (Some b) False (\<lambda>_ _. True) = (bs7, w7, l7)"
      by (rule prod_cases3)
    obtain bs8 w8 where r8: "w_reconcile bs7 w7 [b] [] wait = (bs8, w8)" by (rule prod.exhaust)
    have e: "repick h bs w lost gained wait own next st = Some (Inr (InPlace, bs8, w8))"
      unfolding unf using True s7 r8 by simp
    have "wired_ok bs7 w7 \<and> cur (runners w7 ! h) = Some b"
      using switch_wired [OF set_waiting_wired [OF w5(1)] _ _ s7] w5 assms(2) True by (simp add: contains_running)
    then show ?thesis using e w_reconcile_wired(1,4) [OF _ r8] b(1) by simp
  qed
qed

end
