(* ===== verification/Stride_System.thy ===== *)
theory Stride_System
  imports Stride_Wired
begin

text \<open>
  The scheduler's wiring as a state machine: one rule for each entry the kernel's \<open>sched.rs\<close> makes
  into \<open>Harts\<close>, with the guards its callers keep, and one for what the kernel does to the budgets
  meanwhile. Every reachable state keeps the wiring's invariant, so the checked kernel's audit
  after a reconcile never fails.
\<close>

section \<open>Steps\<close>

inductive harts_step ::
  "('b, 'z) budgets_scheme \<times> 'b wiring \<Rightarrow> ('b, 'z) budgets_scheme \<times> 'b wiring \<Rightarrow> bool" where
  step_accrue: "h < length (runners w) \<Longrightarrow> harts_step (bs, w) (bs, accrue_on w h t)"
| step_bill: "bill bs w b t = bw \<Longrightarrow> harts_step (bs, w) bw"
| step_settle: "settle bs w b = bw \<Longrightarrow> harts_step (bs, w) bw"
| step_weight: "only_weight change \<Longrightarrow> change_weight bs w b change = bw \<Longrightarrow> harts_step (bs, w) bw"
| step_switch:
    "h < length (runners w) \<Longrightarrow> pred_option (contains (wq w)) next \<Longrightarrow>
     switch h bs w next requeued still = (bs', w', left) \<Longrightarrow> harts_step (bs, w) (bs', w')"
| step_reconcile: "w_reconcile bs w lost gained wait = bw \<Longrightarrow> harts_step (bs, w) bw"
| step_pick:
    "w_pick bs w (next :: unit \<Rightarrow> ('b, 'z) budgets_scheme \<Rightarrow> 'b \<Rightarrow> unit option \<times> unit) st = Some (r, bs', w', st') \<Longrightarrow>
     harts_step (bs, w) (bs', w')"
| step_repick:
    "h < length (runners w) \<Longrightarrow> length (runners w) \<le> 64 \<Longrightarrow> pred_option (b_live bs) (cur (runners w ! h)) \<Longrightarrow>
     \<forall>b bs'. only_state bs bs' \<longrightarrow> wait bs' b = wait bs b \<Longrightarrow>
     repick h bs w lost gained wait () (next :: unit \<Rightarrow> ('b, 'z) budgets_scheme \<Rightarrow> 'b \<Rightarrow> unit option \<times> unit) st =
       Some (Inr (res, bs', w')) \<Longrightarrow> harts_step (bs, w) (bs', w')"
| step_waiting: "harts_step (bs, w) (bs, w_set_waiting w b n)"
| step_create: "\<not> contains (wq w) child \<Longrightarrow> w_create bs w child parent = bw \<Longrightarrow> harts_step (bs, w) bw"
| step_destroy: "only_weight ret \<Longrightarrow> w_destroy bs w child parent ret = bw \<Longrightarrow> harts_step (bs, w) bw"
| step_online: "harts (wq w) \<le> n \<Longrightarrow> harts_step (bs, w) (bs, w_set_harts w n wait weight)"
| step_budgets:
    "b_state bs' = b_state bs \<Longrightarrow> b_id bs' = b_id bs \<Longrightarrow>
     (\<And>b. running_on w b \<Longrightarrow> b_live bs' b \<Longrightarrow> b_live bs b) \<Longrightarrow> harts_step (bs, w) (bs', w)"

inductive_cases harts_stepE: "harts_step (bs, w) bw"

inductive harts_reachable :: "nat \<Rightarrow> nat \<Rightarrow> ('b, 'z) budgets_scheme \<times> 'b wiring \<Rightarrow> bool" for N H where
  init: "harts_reachable N H (bs, harts_new N H)"
| step: "harts_reachable N H bw \<Longrightarrow> harts_step bw bw' \<Longrightarrow> harts_reachable N H bw'"

lemma harts_new_wired: "H < 2 ^ 32 \<Longrightarrow> wired_ok bs (harts_new N H)"
  by (auto simp: wired_ok_def mid_inv_def harts_new_def queue_new_def queue_wf_def synced_def floor_held_def
      ties_held_def alone_held_def running_on_def runner_new_def running_of_alt slot_of_def i64_min_def i64_max_def)

lemma budgets_wired:
  assumes "wired_ok bs w" "b_state bs' = b_state bs" "b_id bs' = b_id bs"
    and "\<And>b. running_on w b \<Longrightarrow> b_live bs' b \<Longrightarrow> b_live bs b"
  shows "wired_ok bs' w"
proof -
  have "mid_inv bs' (wq w)"
    using wired_queue [OF assms(1)] assms(2,3) by (simp add: mid_inv_def synced_def)
  then show ?thesis
    using assms(1,4) unfolding wired_ok_def by blast
qed

lemma harts_step_wired:
  assumes "harts_step (bs, w) (bs', w')" "wired_ok bs w"
  shows "wired_ok bs' w'"
  using assms(1)
proof (cases rule: harts_step.cases)
  case (step_accrue h t)
  then show ?thesis using accrue_on_wired [OF assms(2)] by simp
next
  case (step_bill b t)
  then show ?thesis using bill_wired [OF assms(2)] by blast
next
  case (step_settle b)
  then show ?thesis using settle_wired(1) [OF assms(2)] by blast
next
  case (step_weight change b)
  then show ?thesis using change_weight_wired(1) [OF assms(2)] by blast
next
  case (step_switch h "next" requeued still left)
  then show ?thesis
    using switch_wired [OF assms(2), of h "next" requeued still bs' w' left] by (cases "next") simp_all
next
  case (step_reconcile lost gained wait)
  then show ?thesis using w_reconcile_wired(1) [OF assms(2)] by blast
next
  case (step_pick "next" st r st')
  then show ?thesis
    using pick_loop_ends [OF assms(2), of "next" 0 st] by (auto simp: w_pick_def)
next
  case (step_repick h wait lost gained "next" st res)
  have live: "b_live bs b" if "cur (runners w ! h) = Some b" for b using step_repick(3) that by simp
  obtain res0 bs0 w0 where
    "repick h bs w lost gained wait () next st = Some (Inr (res0, bs0, w0))" "wired_ok bs0 w0"
    using repick_wired [OF assms(2) step_repick(1,2) live step_repick(4), of lost gained "()" "next" st] by blast
  then show ?thesis using step_repick(5) by simp
next
  case (step_waiting b n)
  then show ?thesis using set_waiting_wired [OF assms(2)] by (simp add: w_set_waiting_def)
next
  case (step_create child parent)
  then show ?thesis using w_create_wired [OF assms(2)] by blast
next
  case (step_destroy ret child parent)
  then show ?thesis using w_destroy_wired(1) [OF assms(2)] by blast
next
  case (step_online n wait weight)
  then show ?thesis using w_set_harts_wired [OF assms(2)] by simp
next
  case step_budgets
  show ?thesis unfolding step_budgets(1) by (rule budgets_wired [OF assms(2) step_budgets(2-4)])
qed

lemma harts_reachable_wired:
  assumes "harts_reachable N H bw" "H < 2 ^ 32"
  shows "wired_ok (fst bw) (snd bw)"
  using assms(1)
proof (induction rule: harts_reachable.induct)
  case (init bs)
  then show ?case using harts_new_wired [OF assms(2)] by simp
next
  case (step bw bw')
  then show ?case using harts_step_wired [of "fst bw" "snd bw" "fst bw'" "snd bw'"] by simp
qed

section \<open>Properties\<close>

text \<open>
  C1: in every state the scheduler can reach, a reconcile leaves a queue the checked kernel's audit
  accepts: each queued budget's cached rank is its frame's, and no budget that holds the floor is
  above it with no raise pending.
\<close>

theorem audit_after_reconcile:
  assumes "harts_reachable N H (bs, w)" "H < 2 ^ 32" "w_reconcile bs w lost gained wait = (bs', w')"
  shows "audit bs' (wq w') = Inr ()"
proof -
  have "wired_ok bs w" using harts_reachable_wired [OF assms(1,2)] by simp
  from w_reconcile_wired(2) [OF this assms(3)] have "queue_inv bs' (wq w')" .
  then show ?thesis using audit_iff [of "wq w'" bs'] by (simp add: queue_inv_def)
qed

definition sample_budgets :: "nat budgets" where
  "sample_budgets = \<lparr>b_state = (\<lambda>_. \<lparr>pass = 0, entry = 0, rem = 0, tie = 0, queued = False\<rparr>), b_id = of_nat,
    b_weight = (\<lambda>_. 5), b_live = (\<lambda>_. True)\<rparr>"

definition sample_wake :: "nat budgets \<times> nat wiring" where
  "sample_wake = w_reconcile sample_budgets (harts_new 2 1) [] [7] (\<lambda>_ _. 1)"

theorem audit_after_reconcile_witness:
  "harts_reachable 2 1 (sample_budgets, harts_new 2 1) \<and> queued_budgets (wq (snd sample_wake)) = [7] \<and>
    audit (fst sample_wake) (wq (snd sample_wake)) = Inr ()"
proof (intro conjI)
  show "harts_reachable 2 1 (sample_budgets, harts_new 2 1)" by (rule harts_reachable.init)
  show "queued_budgets (wq (snd sample_wake)) = [7]" by code_simp
  show "audit (fst sample_wake) (wq (snd sample_wake)) = Inr ()"
    by (rule audit_after_reconcile [OF harts_reachable.init [of 2 1 sample_budgets], of "[]" "[7]" "\<lambda>_ _. 1"])
      (simp_all add: sample_wake_def)
qed

text \<open>
  C12: the audit is exact. On a queue whose arrays are well formed it reports no budget just when every
  queued budget's cached rank is its frame's and the floor is held, so it neither misses a queue out
  of step nor stops a kernel whose queue is right.
\<close>

theorem audit_exact:
  assumes "queue_wf q"
  shows "audit bs q = Inr () \<longleftrightarrow>
    (\<forall>i<qlen q. \<forall>b. slots q ! i = Some b \<longrightarrow> queued (b_state bs b) \<and>
       ranks q ! i = Rank (pass (b_state bs b)) (tie (b_state bs b)) (b_id bs b)) \<and>
    (qpending q \<or> (\<forall>i<qlen q. \<not> holds_floor q i) \<or>
     (\<exists>i<qlen q. holds_floor q i \<and> rank_pass (ranks q ! i) \<le> qfloor q))"
  using audit_iff [OF assms, of bs] by (simp add: synced_def floor_held_def at_floor_def)

text \<open>One budget queued at pass 9, the floor at 9; and the same queue once its frame has moved on to pass 10.\<close>

definition audited :: "u128 \<Rightarrow> nat budgets" where
  "audited p = sample_budgets\<lparr>b_state := (\<lambda>_. \<lparr>pass = p, entry = 0, rem = 0, tie = 0, queued = True\<rparr>)\<rparr>"

definition audited_queue :: "nat queue" where
  "audited_queue = (queue_new 3)\<lparr>qfloor := 9, slots := [Some 4, None, None], ranks := [Rank 9 0 4, Rank 0 0 0, Rank 0 0 0],
     weights := [5, 0, 0], waiting := [1, 0, 0], qlen := 1\<rparr>"

theorem audit_exact_witness:
  "queue_wf audited_queue \<and> audit (audited 9) audited_queue = Inr () \<and> audit (audited 10) audited_queue \<noteq> Inr ()"
proof -
  have wf: "queue_wf audited_queue"
    by (simp add: queue_wf_def audited_queue_def queue_new_def)
  have "audit (audited 9) audited_queue = Inr ()"
    unfolding audit_exact [OF wf]
    by (auto simp: audited_def audited_queue_def queue_new_def sample_budgets_def holds_floor_def)
  moreover have "audit (audited 10) audited_queue \<noteq> Inr ()"
    unfolding audit_exact [OF wf]
    by (simp add: audited_def audited_queue_def queue_new_def sample_budgets_def)
  ultimately show ?thesis
    using wf by blast
qed

text \<open>
  C7: a pick with fixed choices ends and is right. It returns a budget with a thread to run whose rank
  is the lowest of all the queued budgets that have one, and returns none only when no queued budget
  has one; no budget with a thread to run is taken out of the queue on the way.
\<close>

theorem pick_lowest_rank:
  fixes f :: "'b \<Rightarrow> 't option"
  assumes "wired_ok bs w" "length (runners w) \<le> 64"
  shows "\<exists>r bs' w' st'. w_pick bs w (\<lambda>st _ b. (f b, st)) st = Some (r, bs', w', st') \<and>
    (\<forall>c. contains (wq w) c \<and> f c \<noteq> None \<longrightarrow> contains (wq w') c) \<and>
    (case r of
       None \<Rightarrow> \<forall>c. contains (wq w) c \<longrightarrow> f c = None
     | Some (b, t) \<Rightarrow> f b = Some t \<and> contains (wq w') b \<and>
         (\<forall>c. contains (wq w') c \<and> f c \<noteq> None \<longrightarrow> v_rank (the (view (wq w') b)) \<le> v_rank (the (view (wq w') c))))"
  using pick_loop_min [OF assms, of f st] unfolding w_pick_def by blast

lemma sample_wake_wired: "wired_ok (fst sample_wake) (snd sample_wake)" "length (runners (snd sample_wake)) = 1"
proof -
  have "w_reconcile sample_budgets (harts_new 2 1) [] [7] (\<lambda>_ _. 1) = (fst sample_wake, snd sample_wake)"
    by (simp add: sample_wake_def)
  note w = w_reconcile_wired [OF harts_new_wired this]
  show "wired_ok (fst sample_wake) (snd sample_wake)" by (rule w(1)) simp
  show "length (runners (snd sample_wake)) = 1" using w(4) by (simp add: harts_new_def)
qed

theorem pick_lowest_rank_witness:
  "\<exists>r bs' w' st'. w_pick (fst sample_wake) (snd sample_wake) (\<lambda>st _ b. (if b = 7 then Some b else None, st)) () =
     Some (Some (7, 7), bs', w', st')"
proof -
  let ?f = "\<lambda>b :: nat. if b = 7 then Some b else None"
  have "contains (wq (snd sample_wake)) 7" by code_simp
  then show ?thesis
    using pick_lowest_rank [OF sample_wake_wired(1), of ?f "()"] sample_wake_wired(2)
    by (auto split: option.splits prod.splits if_splits)
qed

text \<open>
  C13: a repick never reaches its \<open>unreachable!\<close>, and ends. If the preempted budget is live and the
  caller's counts do not read the stride state, it gives one of its three outcomes: the hart runs the
  same budget again; it runs none and another, queued budget is picked; or nothing changed.
\<close>

theorem repick_returns:
  assumes "wired_ok bs w" "h < length (runners w)" "length (runners w) \<le> 64"
    and "\<And>b. cur (runners w ! h) = Some b \<Longrightarrow> b_live bs b"
    and "\<forall>b bs'. only_state bs bs' \<longrightarrow> wait bs' b = wait bs b"
  shows "\<exists>res bs' w'. repick h bs w lost gained wait own next st = Some (Inr (res, bs', w')) \<and> wired_ok bs' w' \<and>
    (res = InPlace \<longrightarrow> cur (runners w' ! h) = cur (runners w ! h)) \<and>
    (\<forall>n t. res = Other n t \<longrightarrow> cur (runners w' ! h) = None \<and> contains (wq w') n \<and> cur (runners w ! h) \<noteq> Some n) \<and>
    (res = Declined \<longrightarrow> w' = w \<and> bs' = bs)"
  using assms by (rule repick_wired)

definition sample_run :: "nat budgets \<times> nat wiring" where
  "sample_run = (case switch 0 (fst sample_wake) (snd sample_wake) (Some 7) False (\<lambda>_ _. True) of (bs, w, _) \<Rightarrow> (bs, w))"

lemma sample_run_wired:
  "wired_ok (fst sample_run) (snd sample_run)" "length (runners (snd sample_run)) = 1"
  "cur (runners (snd sample_run) ! 0) = Some 7" "b_live (fst sample_run) b"
proof -
  obtain bs w l where s: "switch 0 (fst sample_wake) (snd sample_wake) (Some 7) False (\<lambda>_ _. True) = (bs, w, l)"
    by (rule prod_cases3)
  have c: "contains (wq (snd sample_wake)) 7" by code_simp
  have n: "\<And>n. Some 7 = Some n \<Longrightarrow> contains (wq (snd sample_wake)) n" using c by simp
  have "wired_ok bs w \<and> only_state (fst sample_wake) bs \<and> cur (runners w ! 0) = Some 7 \<and> length (runners w) = 1"
    using switch_wired [OF sample_wake_wired(1) _ n s] sample_wake_wired(2) by simp
  moreover have "only_state sample_budgets (fst sample_wake)"
    by (rule w_reconcile_wired(3) [OF harts_new_wired, of 1 sample_budgets 2 "[]" "[7]" "\<lambda>_ _. 1" _ "snd sample_wake"])
      (simp_all add: sample_wake_def)
  ultimately show "wired_ok (fst sample_run) (snd sample_run)" "length (runners (snd sample_run)) = 1"
    "cur (runners (snd sample_run) ! 0) = Some 7" "b_live (fst sample_run) b"
    by (auto simp: sample_run_def s only_state_def sample_budgets_def)
qed

theorem repick_returns_witness:
  "\<exists>res bs' w'. repick 0 (fst sample_run) (snd sample_run) [] [] (\<lambda>_ _. 0) (3 :: nat) (\<lambda>st _ _. (None, st)) () =
     Some (Inr (res, bs', w')) \<and> wired_ok bs' w'"
  using repick_returns [OF sample_run_wired(1), of 0 "\<lambda>_ _. 0" "[]" "[]" "3 :: nat" "\<lambda>st _ _. (None, st)" "()"]
    sample_run_wired(2,4) by auto

end
