(* ===== verification/Sys_Regs.thy ===== *)
theory Sys_Regs
  imports Prelude
begin

text \<open>
  The slots of the system call ABI (\<open>libs/sys/src/regs.rs\<close>, the errors of \<open>error.rs\<close> and the
  argument kinds of \<open>call.rs\<close>): writing values into the eight argument registers or a record's
  slots in order, and reading them back, rejecting every value that does not fit its field.

  The target is rv64, where \<open>usize\<close> is 64 bits wide. A \<open>Result<T, Error>\<close> is \<open>error + 'a\<close>; a
  reader's step takes the reader and gives an error or the value and the reader advanced.
\<close>

unbundle bit_operations_syntax

section \<open>Errors\<close>

datatype error =
    BadHandle | WrongObject | InvalidArgument | OutOfMemory | OutOfProcesses | TooManyThreads
  | NotPermitted | ClassDenied | LabelDenied | Busy | Refused | TooLarge | Timeout | Dead

fun error_code :: "error \<Rightarrow> u64" where
  "error_code BadHandle = 1"
| "error_code WrongObject = 2"
| "error_code InvalidArgument = 3"
| "error_code OutOfMemory = 4"
| "error_code OutOfProcesses = 5"
| "error_code TooManyThreads = 6"
| "error_code NotPermitted = 7"
| "error_code ClassDenied = 8"
| "error_code LabelDenied = 9"
| "error_code Busy = 10"
| "error_code Refused = 11"
| "error_code TooLarge = 12"
| "error_code Timeout = 13"
| "error_code Dead = 14"

definition ALL_errors :: "error list" where
  "ALL_errors =
     [BadHandle, WrongObject, InvalidArgument, OutOfMemory, OutOfProcesses, TooManyThreads,
      NotPermitted, ClassDenied, LabelDenied, Busy, Refused, TooLarge, Timeout, Dead]"

definition from_code :: "u64 \<Rightarrow> error option" where
  "from_code code = find (\<lambda>e. error_code e = code) ALL_errors"

definition MAX_MSG_HANDLES :: nat where
  "MAX_MSG_HANDLES = 4"

section \<open>Writers and readers\<close>

definition REGS :: nat where
  "REGS = 8"

record writer =
  w_slots :: "u64 list"
  w_next :: nat
  w_split :: bool

definition writer_regs :: "u64 list \<Rightarrow> writer" where
  "writer_regs regs = \<lparr>w_slots = regs, w_next = 0, w_split = True\<rparr>"

definition writer_record :: "u64 list \<Rightarrow> writer" where
  "writer_record slots = \<lparr>w_slots = slots, w_next = 0, w_split = False\<rparr>"

definition put :: "u64 \<Rightarrow> writer \<Rightarrow> writer" where
  "put v w = w\<lparr>w_slots := (w_slots w)[w_next w := v], w_next := w_next w + 1\<rparr>"

definition w_u32 :: "u32 \<Rightarrow> writer \<Rightarrow> writer" where
  "w_u32 v w = put (ucast v) w"

definition w_u64 :: "u64 \<Rightarrow> writer \<Rightarrow> writer" where
  "w_u64 v w =
     (if w_split w then w_u32 (ucast (drop_bit 32 v)) (w_u32 (ucast v) w) else put v w)"

definition w_usize :: "u64 \<Rightarrow> writer \<Rightarrow> writer" where
  "w_usize v w = put v w"

record reader =
  r_slots :: "u64 list"
  r_next :: nat
  r_split :: bool

definition reader_regs :: "u64 list \<Rightarrow> reader" where
  "reader_regs regs = \<lparr>r_slots = regs, r_next = 0, r_split = True\<rparr>"

definition reader_record :: "u64 list \<Rightarrow> reader" where
  "reader_record slots = \<lparr>r_slots = slots, r_next = 0, r_split = False\<rparr>"

type_synonym 'a read = "reader \<Rightarrow> error + 'a \<times> reader"

text \<open>The \<open>?\<close> of the source: an error ends the reading.\<close>

definition ok :: "'a \<Rightarrow> 'a read" where
  "ok x r = Inr (x, r)"

definition fails :: "error \<Rightarrow> 'a read" where
  "fails e r = Inl e"

definition andThen :: "'a read \<Rightarrow> ('a \<Rightarrow> 'b read) \<Rightarrow> 'b read" where
  "andThen m f r = (case m r of Inl e \<Rightarrow> Inl e | Inr (x, r') \<Rightarrow> f x r')"

definition ok_or :: "'a option \<Rightarrow> error \<Rightarrow> 'a read" where
  "ok_or x e = (case x of None \<Rightarrow> fails e | Some y \<Rightarrow> ok y)"

definition raw :: "u64 read" where
  "raw r = Inr (if r_next r < length (r_slots r) then r_slots r ! r_next r else 0, r\<lparr>r_next := r_next r + 1\<rparr>)"

definition u32_try_from :: "u64 \<Rightarrow> u32 option" where
  "u32_try_from v = (if v \<le> 0xFFFFFFFF then Some (ucast v) else None)"

definition r_u32 :: "u32 read" where
  "r_u32 = andThen raw (\<lambda>v. ok_or (u32_try_from v) InvalidArgument)"

definition r_u64 :: "u64 read" where
  "r_u64 r =
     (if r_split r
      then andThen r_u32 (\<lambda>low. andThen r_u32 (\<lambda>high. ok (ucast low OR push_bit 32 (ucast high)))) r
      else raw r)"

definition r_usize :: "u64 read" where
  "r_usize = raw"

definition r_tag :: "'a list \<Rightarrow> 'a read" where
  "r_tag values =
     andThen raw (\<lambda>v. if v = 0 then fails InvalidArgument
                      else if unat (v - 1) < length values then ok (values ! unat (v - 1))
                      else fails InvalidArgument)"

definition finish :: "unit read" where
  "finish r = (if \<forall>v\<in>set (drop (r_next r) (r_slots r)). v = 0 then Inr ((), r) else Inl InvalidArgument)"

text \<open>Reading a value and then nothing but zeros: what every decoder ends with.\<close>

definition whole :: "'a read \<Rightarrow> 'a read" where
  "whole rd = andThen rd (\<lambda>x. andThen finish (\<lambda>_. ok x))"

section \<open>Argument kinds\<close>

datatype handle = Handle (index: u32)

definition handle_new :: "u32 \<Rightarrow> handle option" where
  "handle_new i = (if i = 0 then None else Some (Handle i))"

definition handle_to_raw :: "handle \<Rightarrow> u64" where
  "handle_to_raw h = ucast (index h)"

definition handle_from_raw :: "u64 \<Rightarrow> error + handle" where
  "handle_from_raw v =
     (case Option.bind (u32_try_from v) handle_new of None \<Rightarrow> Inl BadHandle | Some h \<Rightarrow> Inr h)"

datatype mem_flags = MemFlags (bits: u32)

definition NONE :: mem_flags where "NONE = MemFlags 0"
definition READ :: mem_flags where "READ = MemFlags 1"
definition WRITE :: mem_flags where "WRITE = MemFlags 2"
definition EXECUTE :: mem_flags where "EXECUTE = MemFlags 4"

definition flags_contains :: "mem_flags \<Rightarrow> mem_flags \<Rightarrow> bool" where
  "flags_contains f other \<longleftrightarrow> bits f AND bits other = bits other"

definition flags_bitor :: "mem_flags \<Rightarrow> mem_flags \<Rightarrow> mem_flags" where
  "flags_bitor f other = MemFlags (bits f OR bits other)"

definition from_bits :: "u32 \<Rightarrow> mem_flags option" where
  "from_bits b =
     (let wx = bits WRITE OR bits EXECUTE
      in if b AND NOT 7 = 0 \<and> b AND wx \<noteq> wx then Some (MemFlags b) else None)"

record pages =
  p_addr :: u64
  npages :: u64

definition pages_write :: "pages option \<Rightarrow> writer \<Rightarrow> writer" where
  "pages_write ps w =
     (let (addr, n) = (case ps of None \<Rightarrow> (0, 0) | Some p \<Rightarrow> (p_addr p, npages p))
      in w_usize n (w_usize addr w))"

definition pages_read :: "pages option read" where
  "pages_read =
     andThen r_usize (\<lambda>addr. andThen r_usize (\<lambda>n.
       if addr = 0 \<and> n = 0 then ok None
       else if n \<noteq> 0 \<and> addr \<noteq> 0 then ok (Some \<lparr>p_addr = addr, npages = n\<rparr>)
       else fails InvalidArgument))"

datatype mint_source = SourceMessage u64 | SourceHandle handle

datatype reset_kind = PowerOff | Reboot | PowerOffFailure

datatype hold = Take | Release | ReleaseOpen

fun reset_kind_code :: "reset_kind \<Rightarrow> u32" where
  "reset_kind_code PowerOff = 1"
| "reset_kind_code Reboot = 2"
| "reset_kind_code PowerOffFailure = 3"

fun hold_code :: "hold \<Rightarrow> u32" where
  "hold_code Take = 1"
| "hold_code Release = 2"
| "hold_code ReleaseOpen = 3"

text \<open>The \<open>Arg\<close> implementations that are not a writer's or a reader's own.\<close>

definition nonzero_read :: "u64 read" where
  "nonzero_read = andThen r_u64 (\<lambda>v. if v = 0 then fails InvalidArgument else ok v)"

definition handle_write :: "handle \<Rightarrow> writer \<Rightarrow> writer" where
  "handle_write h = w_u32 (index h)"

definition lift_result :: "error + 'a \<Rightarrow> 'a read" where
  "lift_result x r = (case x of Inl e \<Rightarrow> Inl e | Inr y \<Rightarrow> Inr (y, r))"

definition handle_read :: "handle read" where
  "handle_read = andThen raw (\<lambda>v. lift_result (handle_from_raw v))"

definition opt_handle_write :: "handle option \<Rightarrow> writer \<Rightarrow> writer" where
  "opt_handle_write h = w_u32 (case h of None \<Rightarrow> 0 | Some h \<Rightarrow> index h)"

definition opt_handle_read :: "handle option read" where
  "opt_handle_read =
     andThen raw (\<lambda>v. if v = 0 then ok None else andThen (lift_result (handle_from_raw v)) (\<lambda>h. ok (Some h)))"

definition flags_write :: "mem_flags \<Rightarrow> writer \<Rightarrow> writer" where
  "flags_write f = w_u32 (bits f)"

definition flags_read :: "mem_flags read" where
  "flags_read = andThen r_u32 (\<lambda>b. ok_or (from_bits b) InvalidArgument)"

definition mint_source_write :: "mint_source \<Rightarrow> writer \<Rightarrow> writer" where
  "mint_source_write s w =
     (let (tag, value) = (case s of SourceMessage i \<Rightarrow> (1, i) | SourceHandle h \<Rightarrow> (2, handle_to_raw h))
      in w_u64 value (w_u32 tag w))"

definition mint_source_read :: "mint_source read" where
  "mint_source_read =
     andThen raw (\<lambda>tag. andThen r_u64 (\<lambda>value.
       if tag = 1 then (if value = 0 then fails InvalidArgument else ok (SourceMessage value))
       else if tag = 2 then andThen (lift_result (handle_from_raw value)) (\<lambda>h. ok (SourceHandle h))
       else fails InvalidArgument))"

definition reset_kind_write :: "reset_kind \<Rightarrow> writer \<Rightarrow> writer" where
  "reset_kind_write k = w_u32 (reset_kind_code k)"

definition reset_kind_read :: "reset_kind read" where
  "reset_kind_read = r_tag [PowerOff, Reboot, PowerOffFailure]"

definition hold_write :: "hold \<Rightarrow> writer \<Rightarrow> writer" where
  "hold_write h = w_u32 (hold_code h)"

definition hold_read :: "hold read" where
  "hold_read = r_tag [Take, Release, ReleaseOpen]"

section \<open>Slots written and read\<close>

definition slot_at_next :: "reader \<Rightarrow> nat \<Rightarrow> u64" where
  "slot_at_next r k = (if r_next r + k < length (r_slots r) then r_slots r ! (r_next r + k) else 0)"

text \<open>The next slots are \<open>xs\<close>; a reader past the end of its slots reads 0.\<close>

definition has :: "reader \<Rightarrow> u64 list \<Rightarrow> bool" where
  "has r xs \<longleftrightarrow> (\<forall>k<length xs. slot_at_next r k = xs ! k)"

definition adv :: "nat \<Rightarrow> reader \<Rightarrow> reader" where
  "adv n r = r\<lparr>r_next := r_next r + n\<rparr>"

lemma adv_sel [simp]:
  "r_slots (adv n r) = r_slots r" "r_split (adv n r) = r_split r" "r_next (adv n r) = r_next r + n"
  "adv m (adv n r) = adv (n + m) r" "adv 0 r = r"
  by (simp_all add: adv_def)

lemma has_Nil [simp]: "has r []"
  by (simp add: has_def)

lemma slot_adv [simp]: "slot_at_next (adv n r) k = slot_at_next r (n + k)"
  by (simp add: slot_at_next_def add.assoc)

lemma has_Cons: "has r (x # xs) \<longleftrightarrow> slot_at_next r 0 = x \<and> has (adv 1 r) xs"
  by (simp add: has_def All_less_Suc2)

lemma has_append: "has r (xs @ ys) \<longleftrightarrow> has r xs \<and> has (adv (length xs) r) ys"
  by (induction xs arbitrary: r) (simp_all add: has_Cons)

lemma raw_eq: "raw r = Inr (slot_at_next r 0, adv 1 r)"
  by (simp add: raw_def slot_at_next_def adv_def)

lemma andThen_Inr: "andThen m f r = Inr y \<longleftrightarrow> (\<exists>x r'. m r = Inr (x, r') \<and> f x r' = Inr y)"
  by (auto simp: andThen_def split: sum.splits)

lemma andThen_Inl:
  "andThen m f r = Inl e \<longleftrightarrow> m r = Inl e \<or> (\<exists>x r'. m r = Inr (x, r') \<and> f x r' = Inl e)"
  by (auto simp: andThen_def split: sum.splits)

lemma ok_simps [simp]: "ok x r = Inr (y, r') \<longleftrightarrow> x = y \<and> r = r'" "ok x r \<noteq> Inl e" "ok x r = Inr z \<longleftrightarrow> (x, r) = z"
  by (auto simp: ok_def)

lemma fails_simps [simp]: "fails e r \<noteq> Inr z" "fails e r = Inl e' \<longleftrightarrow> e = e'"
  by (auto simp: fails_def)

lemma ok_or_simps [simp]:
  "ok_or x e r = Inr z \<longleftrightarrow> (\<exists>y. x = Some y \<and> z = (y, r))" "ok_or x e r = Inl e' \<longleftrightarrow> x = None \<and> e = e'"
  by (auto simp: ok_or_def split: option.split)

lemma lift_result_simps [simp]:
  "lift_result x r = Inr z \<longleftrightarrow> (\<exists>y. x = Inr y \<and> z = (y, r))" "lift_result x r = Inl e \<longleftrightarrow> x = Inl e"
  by (auto simp: lift_result_def split: sum.split)

lemma raw_simps [simp]: "raw r = Inr z \<longleftrightarrow> z = (slot_at_next r 0, adv 1 r)" "raw r \<noteq> Inl e"
  by (auto simp: raw_eq)

text \<open>What the fits of the source's widths say.\<close>

lemma ucast_u32_u64_u32 [simp]: "ucast (ucast x :: u64) = x" for x :: u32
  by (rule bit_word_eqI) (simp add: bit_ucast_iff)

lemma u32_try_from_Some: "u32_try_from v = Some x \<longleftrightarrow> v = ucast x"
proof
  assume "u32_try_from v = Some x"
  then have "unat v < 2 ^ 32" "x = ucast v"
    by (auto simp: u32_try_from_def word_le_nat_alt split: if_splits)
  then show "v = ucast x"
    by (simp add: word_unat_eq_iff unsigned_ucast_eq take_bit_nat_eq_self)
next
  assume "v = ucast x"
  moreover have "unat x < 2 ^ LENGTH(32)" by (rule unsigned_less)
  ultimately show "u32_try_from v = Some x"
    by (simp add: u32_try_from_def word_le_nat_alt unat_ucast_32_64)
qed

lemma u32_try_from_None: "u32_try_from v = None \<longleftrightarrow> (\<forall>x :: u32. v \<noteq> ucast x)"
  by (simp add: u32_try_from_Some [symmetric])

lemma ucast_u32_eq [simp]: "(ucast a :: u64) = ucast b \<longleftrightarrow> a = b" for a b :: u32
  by (metis option.inject u32_try_from_Some)

lemma ucast_u32_0 [simp]: "(ucast a :: u64) = 0 \<longleftrightarrow> a = 0" for a :: u32
  using ucast_u32_eq [of a 0] by simp

lemma u32_try_from_ucast [simp]: "u32_try_from (ucast x) = Some x"
  by (simp add: u32_try_from_Some)

lemma handle_from_raw_Inr: "handle_from_raw v = Inr h \<longleftrightarrow> index h \<noteq> 0 \<and> v = ucast (index h)"
proof (cases "u32_try_from v")
  case None
  then have "handle_from_raw v = Inl BadHandle" by (simp add: handle_from_raw_def)
  moreover have "v \<noteq> ucast (index h)" using None by (simp add: u32_try_from_None)
  ultimately show ?thesis by simp
next
  case (Some a)
  then have "v = ucast a" by (simp add: u32_try_from_Some)
  then show ?thesis by (cases h) (auto simp: handle_from_raw_def handle_new_def)
qed

lemma handle_from_raw_Inl: "handle_from_raw v = Inl e \<Longrightarrow> e = BadHandle"
  by (auto simp: handle_from_raw_def split: option.splits)

section \<open>Slots written and read\<close>

lemma put_split [simp]: "w_split (put v w) = w_split w"
  by (simp add: put_def)

lemma fold_put_split [simp]: "w_split (fold put xs w) = w_split w"
  by (induction xs arbitrary: w) simp_all

lemma fold_put:
  assumes "w_next w + length xs \<le> length (w_slots w)"
  shows "w_slots (fold put xs w) = take (w_next w) (w_slots w) @ xs @ drop (w_next w + length xs) (w_slots w)"
    and "w_next (fold put xs w) = w_next w + length xs"
    and "w_split (fold put xs w) = w_split w"
proof -
  have "w_slots (fold put xs w) = take (w_next w) (w_slots w) @ xs @ drop (w_next w + length xs) (w_slots w) \<and>
      w_next (fold put xs w) = w_next w + length xs \<and> w_split (fold put xs w) = w_split w"
    using assms
  proof (induction xs arbitrary: w)
    case (Cons x xs)
    have "w_next (put x w) + length xs \<le> length (w_slots (put x w))"
      using Cons.prems by (simp add: put_def)
    from Cons.IH [OF this] show ?case
      using Cons.prems by (simp add: put_def take_Suc_conv_app_nth nth_list_update)
  qed simp
  then show "w_slots (fold put xs w) = take (w_next w) (w_slots w) @ xs @ drop (w_next w + length xs) (w_slots w)"
    "w_next (fold put xs w) = w_next w + length xs" "w_split (fold put xs w) = w_split w"
    by auto
qed

lemma filled:
  assumes "length xs \<le> length ss"
  shows "has \<lparr>r_slots = ss, r_next = 0, r_split = sp\<rparr> xs \<and> (\<forall>v\<in>set (drop (length xs) ss). v = 0) \<longleftrightarrow>
    ss = xs @ replicate (length ss - length xs) 0"
proof -
  have "has \<lparr>r_slots = ss, r_next = 0, r_split = sp\<rparr> xs \<longleftrightarrow> take (length xs) ss = xs"
    using assms by (auto simp: has_def slot_at_next_def list_eq_iff_nth_eq)
  moreover have "(\<forall>v\<in>set ys. v = 0) \<longleftrightarrow> ys = replicate (length ys) 0" for ys :: "u64 list"
    by (induction ys) auto
  from this [of "drop (length xs) ss"]
  have "(\<forall>v\<in>set (drop (length xs) ss). v = 0) \<longleftrightarrow> drop (length xs) ss = replicate (length ss - length xs) 0"
    by (simp only: length_drop)
  moreover have "ss = xs @ zs \<longleftrightarrow> take (length xs) ss = xs \<and> drop (length xs) ss = zs" for zs
    by (metis append_eq_conv_conj)
  ultimately show ?thesis
    by (simp only:)
qed

lemma finish_simps: "finish r = Inr z \<longleftrightarrow> z = ((), r) \<and> (\<forall>v\<in>set (drop (r_next r) (r_slots r)). v = 0)"
  "finish r = Inl e \<longleftrightarrow> e = InvalidArgument \<and> \<not> (\<forall>v\<in>set (drop (r_next r) (r_slots r)). v = 0)"
  by (auto simp: finish_def)

lemma map_sum_Inr: "map_sum f g x = Inr y \<longleftrightarrow> (\<exists>z. x = Inr z \<and> y = g z)"
  by (cases x) auto

lemma map_sum_Inl: "map_sum f g x = Inl y \<longleftrightarrow> (\<exists>z. x = Inl z \<and> y = f z)"
  by (cases x) auto

section \<open>The contract of an argument kind\<close>

text \<open>
  A kind of value is written as the slots \<open>words x\<close>, and what its reader accepts is exactly a valid
  value's slots: so each valid value has one encoding, and every accepted encoding is one.
\<close>

locale slot_codec =
  fixes sp :: bool
    and wr :: "'a \<Rightarrow> writer \<Rightarrow> writer"
    and rd :: "'a read"
    and words :: "'a \<Rightarrow> u64 list"
    and valid :: "'a \<Rightarrow> bool"
  assumes write_words: "w_split w = sp \<Longrightarrow> wr x w = fold put (words x) w"
    and read_iff: "r_split r = sp \<Longrightarrow>
      rd r = Inr z \<longleftrightarrow> (\<exists>x. z = (x, adv (length (words x)) r) \<and> valid x \<and> has r (words x))"
begin

lemma read_words: "r_split r = sp \<Longrightarrow> valid x \<Longrightarrow> has r (words x) \<Longrightarrow> rd r = Inr (x, adv (length (words x)) r)"
  by (auto simp: read_iff)

lemma words_inject:
  assumes "valid x" "valid y" "words x = words y"
  shows "x = y"
proof -
  let ?r = "\<lparr>r_slots = words x, r_next = 0, r_split = sp\<rparr>"
  have "has ?r (words x)" by (simp add: has_def slot_at_next_def)
  then show ?thesis using read_words [of ?r x] read_words [of ?r y] assms by simp
qed

text \<open>Reading all of the slots, the unused ones 0, undoes writing them into zeros, and nothing else does.\<close>

lemma whole_iff:
  assumes "valid x \<Longrightarrow> length (words x) \<le> length slots"
  shows "(\<exists>r'. whole rd \<lparr>r_slots = slots, r_next = 0, r_split = sp\<rparr> = Inr (x, r')) \<longleftrightarrow>
    valid x \<and> slots = w_slots (wr x \<lparr>w_slots = replicate (length slots) 0, w_next = 0, w_split = sp\<rparr>)"
proof -
  let ?r = "\<lparr>r_slots = slots, r_next = 0, r_split = sp\<rparr>"
  let ?w = "\<lparr>w_slots = replicate (length slots) 0, w_next = 0, w_split = sp\<rparr>"
  have read: "(\<exists>r'. whole rd ?r = Inr (x, r')) \<longleftrightarrow>
      valid x \<and> has ?r (words x) \<and> (\<forall>v\<in>set (drop (length (words x)) slots). v = 0)"
    by (auto simp: whole_def andThen_Inr read_iff finish_simps)
  show ?thesis
  proof (cases "valid x")
    case True
    then have "w_slots (wr x ?w) = words x @ replicate (length slots - length (words x)) 0"
      using assms fold_put(1) [of ?w "words x"] by (simp add: write_words)
    with True show ?thesis
      using read filled [OF assms, of sp] by simp
  qed (simp add: read)
qed

end

text \<open>An argument's errors are those of stage 1 of the ABI's checks for one value.\<close>

definition decode_error :: "error \<Rightarrow> bool" where
  "decode_error e \<longleftrightarrow> e = BadHandle \<or> e = InvalidArgument"

locale arg_codec = slot_codec +
  assumes read_error: "rd r = Inl e \<Longrightarrow> decode_error e"

section \<open>The kinds keep it\<close>

definition words_u64 :: "bool \<Rightarrow> u64 \<Rightarrow> u64 list" where
  "words_u64 sp v = (if sp then [ucast (ucast v :: u32), ucast (ucast (drop_bit 32 v) :: u32)] else [v])"

lemma halves_u64: "v = ucast (l :: u32) OR push_bit 32 (ucast (h :: u32)) \<longleftrightarrow> l = ucast v \<and> h = ucast (drop_bit 32 v)"
  for v :: u64
proof
  assume v: "v = ucast l OR push_bit 32 (ucast h)"
  have "\<not> bit l (32 + n)" for n using bit_imp_le_length [of l "32 + n"] by auto
  then show "l = ucast v \<and> h = ucast (drop_bit 32 v)"
    unfolding v by (auto intro!: bit_word_eqI simp: bit_ucast_iff bit_or_iff bit_push_bit_iff bit_drop_bit_eq)
next
  assume "l = ucast v \<and> h = ucast (drop_bit 32 v)"
  then show "v = ucast l OR push_bit 32 (ucast h)"
    by (auto intro!: bit_word_eqI simp: bit_ucast_iff bit_or_iff bit_push_bit_iff bit_drop_bit_eq)
qed

lemma halves_simps [simp]:
  "ucast (ucast v :: u32) OR push_bit 32 (ucast (ucast (drop_bit 32 v) :: u32)) = v"
  "ucast (ucast l OR push_bit 32 (ucast h) :: u64) = l"
  "ucast (drop_bit 32 (ucast l OR push_bit 32 (ucast h) :: u64)) = h" for v :: u64 and l h :: u32
  using halves_u64 [of v "ucast v" "ucast (drop_bit 32 v)"] halves_u64 [of "ucast l OR push_bit 32 (ucast h)" l h]
  by simp_all

lemma drop_halves [simp]:
  "drop_bit 32 (ucast l :: u64) = 0" "drop_bit 32 (push_bit 32 (ucast l :: u64)) = ucast l" for l :: u32
proof -
  have n: "\<not> bit l (32 + n)" for n using bit_imp_le_length [of l "32 + n"] by auto
  show "drop_bit 32 (ucast l :: u64) = 0"
    by (rule bit_word_eqI) (simp add: bit_drop_bit_eq bit_ucast_iff n)
  show "drop_bit 32 (push_bit 32 (ucast l :: u64)) = ucast l"
    by (rule bit_word_eqI) (use bit_imp_le_length [of l] in \<open>fastforce simp: bit_drop_bit_eq bit_push_bit_iff bit_ucast_iff\<close>)
qed

lemma r_u32_iff: "r_u32 r = Inr z \<longleftrightarrow> (\<exists>x. z = (x, adv 1 r) \<and> slot_at_next r 0 = ucast x)"
  by (auto simp: r_u32_def andThen_Inr u32_try_from_Some)

lemma r_u32_error: "r_u32 r = Inl e \<Longrightarrow> e = InvalidArgument"
  by (auto simp: r_u32_def andThen_Inl)

interpretation arg_u32: arg_codec sp w_u32 r_u32 "\<lambda>x. [ucast x]" "\<lambda>_. True" for sp
  by unfold_locales (auto simp: w_u32_def r_u32_iff has_Cons decode_error_def dest: r_u32_error)

interpretation arg_usize: arg_codec sp w_usize r_usize "\<lambda>x. [x]" "\<lambda>_. True" for sp
  by unfold_locales (auto simp: w_usize_def r_usize_def has_Cons)

interpretation arg_u64: arg_codec sp w_u64 r_u64 "words_u64 sp" "\<lambda>_. True" for sp
proof
  fix w :: writer and v
  assume "w_split w = sp"
  then show "w_u64 v w = fold put (words_u64 sp v) w"
    by (simp add: w_u64_def words_u64_def w_u32_def)
next
  fix r :: reader and z
  assume "r_split r = sp"
  then show "r_u64 r = Inr z \<longleftrightarrow> (\<exists>x. z = (x, adv (length (words_u64 sp x)) r) \<and> True \<and> has r (words_u64 sp x))"
    by (cases sp) (auto simp: r_u64_def words_u64_def andThen_Inr r_u32_iff has_Cons)
next
  fix r e
  assume "r_u64 r = Inl e"
  then show "decode_error e"
    by (auto simp: r_u64_def andThen_Inl decode_error_def split: if_splits dest: r_u32_error)
qed

interpretation arg_nonzero: arg_codec sp w_u64 nonzero_read "words_u64 sp" "\<lambda>v. v \<noteq> 0" for sp
proof
  show "w_split w = sp \<Longrightarrow> w_u64 v w = fold put (words_u64 sp v) w" for w v
    by (rule arg_u64.write_words)
  show "r_split r = sp \<Longrightarrow> nonzero_read r = Inr z \<longleftrightarrow>
      (\<exists>x. z = (x, adv (length (words_u64 sp x)) r) \<and> x \<noteq> 0 \<and> has r (words_u64 sp x))" for r z
    by (auto simp: nonzero_read_def andThen_Inr arg_u64.read_iff split: if_splits)
  show "nonzero_read r = Inl e \<Longrightarrow> decode_error e" for r e
    by (auto simp: nonzero_read_def andThen_Inl decode_error_def split: if_splits dest: arg_u64.read_error)
qed

interpretation arg_handle: arg_codec sp handle_write handle_read "\<lambda>h. [ucast (index h)]" "\<lambda>h. index h \<noteq> 0" for sp
  by unfold_locales (auto simp: handle_write_def w_u32_def handle_read_def andThen_Inr andThen_Inl handle_from_raw_Inr
      has_Cons decode_error_def dest: handle_from_raw_Inl)

definition opt_index :: "handle option \<Rightarrow> u32" where
  "opt_index h = (case h of None \<Rightarrow> 0 | Some h \<Rightarrow> index h)"

interpretation arg_opt_handle: arg_codec sp opt_handle_write opt_handle_read "\<lambda>h. [ucast (opt_index h)]"
  "\<lambda>h. pred_option (\<lambda>h. index h \<noteq> 0) h" for sp
proof
  show "opt_handle_write x w = fold put [ucast (opt_index x)] w" for x w
    by (simp add: opt_handle_write_def w_u32_def opt_index_def)
  show "opt_handle_read r = Inr z \<longleftrightarrow> (\<exists>x. z = (x, adv (length [ucast (opt_index x) :: u64]) r) \<and>
      pred_option (\<lambda>h. index h \<noteq> 0) x \<and> has r [ucast (opt_index x)])" for r z
    by (auto simp: opt_handle_read_def andThen_Inr handle_from_raw_Inr has_Cons opt_index_def
        split: if_splits option.splits)
  show "opt_handle_read r = Inl e \<Longrightarrow> decode_error e" for r e
    by (auto simp: opt_handle_read_def andThen_Inl decode_error_def split: if_splits dest: handle_from_raw_Inl)
qed

definition flags_valid :: "mem_flags \<Rightarrow> bool" where
  "flags_valid f \<longleftrightarrow> from_bits (bits f) = Some f"

lemma from_bits_Some: "from_bits b = Some f \<longleftrightarrow> b = bits f \<and> flags_valid f"
  by (cases f) (auto simp: from_bits_def flags_valid_def Let_def)

interpretation arg_flags: arg_codec sp flags_write flags_read "\<lambda>f. [ucast (bits f)]" flags_valid for sp
proof
  show "flags_write x w = fold put [ucast (bits x)] w" for x w
    by (simp add: flags_write_def w_u32_def)
  show "flags_read r = Inr z \<longleftrightarrow> (\<exists>x. z = (x, adv (length [ucast (bits x) :: u64]) r) \<and> flags_valid x \<and>
      has r [ucast (bits x)])" for r z
    by (auto simp: flags_read_def andThen_Inr r_u32_iff from_bits_Some has_Cons)
  show "flags_read r = Inl e \<Longrightarrow> decode_error e" for r e
    by (auto simp: flags_read_def andThen_Inl decode_error_def dest: r_u32_error)
qed

definition words_pages :: "pages option \<Rightarrow> u64 list" where
  "words_pages ps = (case ps of None \<Rightarrow> [0, 0] | Some p \<Rightarrow> [p_addr p, npages p])"

definition pages_valid :: "pages option \<Rightarrow> bool" where
  "pages_valid ps = pred_option (\<lambda>p. p_addr p \<noteq> 0 \<and> npages p \<noteq> 0) ps"

interpretation arg_pages: arg_codec sp pages_write pages_read words_pages pages_valid for sp
proof
  show "pages_write x w = fold put (words_pages x) w" for x w
    by (simp add: pages_write_def words_pages_def w_usize_def split: option.split)
  show "pages_read r = Inr z \<longleftrightarrow> (\<exists>x. z = (x, adv (length (words_pages x)) r) \<and> pages_valid x \<and> has r (words_pages x))"
    for r z
    by (auto simp: pages_read_def andThen_Inr r_usize_def words_pages_def pages_valid_def has_Cons
        split: if_splits option.splits intro!: pages.equality)
  show "pages_read r = Inl e \<Longrightarrow> decode_error e" for r e
    by (auto simp: pages_read_def andThen_Inl r_usize_def decode_error_def split: if_splits)
qed

definition words_mint :: "bool \<Rightarrow> mint_source \<Rightarrow> u64 list" where
  "words_mint sp s = (case s of SourceMessage i \<Rightarrow> 1 # words_u64 sp i | SourceHandle h \<Rightarrow> 2 # words_u64 sp (ucast (index h)))"

definition mint_valid :: "mint_source \<Rightarrow> bool" where
  "mint_valid s = (case s of SourceMessage i \<Rightarrow> i \<noteq> 0 | SourceHandle h \<Rightarrow> index h \<noteq> 0)"

interpretation arg_mint: arg_codec sp mint_source_write mint_source_read "words_mint sp" mint_valid for sp
proof
  show "w_split w = sp \<Longrightarrow> mint_source_write x w = fold put (words_mint sp x) w" for x w
    by (simp add: mint_source_write_def words_mint_def w_u32_def arg_u64.write_words handle_to_raw_def
        split: mint_source.split)
  show "mint_source_read r = Inr z \<longleftrightarrow>
      (\<exists>x. z = (x, adv (length (words_mint sp x)) r) \<and> mint_valid x \<and> has r (words_mint sp x))" (is "_ \<longleftrightarrow> ?r")
    if "r_split r = sp" for r z
  proof
    assume "mint_source_read r = Inr z"
    with that show ?r
      by (auto simp: mint_source_read_def andThen_Inr arg_u64.read_iff words_mint_def mint_valid_def has_Cons
          handle_from_raw_Inr split: if_splits)
  next
    assume ?r
    then obtain x where x: "z = (x, adv (length (words_mint sp x)) r)" "mint_valid x" "has r (words_mint sp x)" by blast
    show "mint_source_read r = Inr z"
    proof (cases x)
      case (SourceMessage i)
      then show ?thesis
        using x that arg_u64.read_words [of "adv 1 r" sp i]
        by (simp add: mint_source_read_def andThen_def words_mint_def mint_valid_def has_Cons raw_eq ok_def)
    next
      case (SourceHandle h)
      have "handle_from_raw (ucast (index h)) = Inr h" if "index h \<noteq> 0" using that by (simp add: handle_from_raw_Inr)
      then show ?thesis
        using SourceHandle x that arg_u64.read_words [of "adv 1 r" sp "ucast (index h)"]
        by (simp add: mint_source_read_def andThen_def words_mint_def mint_valid_def has_Cons raw_eq ok_def
            lift_result_def)
    qed
  qed
  show "mint_source_read r = Inl e \<Longrightarrow> decode_error e" for r e
    by (auto simp: mint_source_read_def andThen_Inl decode_error_def split: if_splits
        dest: arg_u64.read_error handle_from_raw_Inl)
qed

text \<open>A tag is the position of its value, from 1.\<close>

lemma tag_word:
  "n < 2 ^ 64 - 1 \<Longrightarrow> v \<noteq> 0 \<and> unat (v - 1) = n \<longleftrightarrow> v = of_nat (Suc n)" for v :: u64
proof -
  assume "n < 2 ^ 64 - 1"
  then have "unat (of_nat (Suc n) :: u64) = Suc n"
    by (simp only: unat_of_nat) (simp add: take_bit_nat_eq_self del: of_nat_Suc)
  then have "v = of_nat (Suc n) \<longleftrightarrow> unat v = Suc n" by (metis word_unat_eq_iff)
  moreover have "v \<noteq> 0 \<Longrightarrow> 0 < unat v" by (simp add: word_gt_0_unat [symmetric] word_gt_0)
  ultimately show "v \<noteq> 0 \<and> unat (v - 1) = n \<longleftrightarrow> v = of_nat (Suc n)"
    by (cases "v = 0") (auto simp: unat_minus_one)
qed

lemma r_tag_iff:
  assumes "length vs < 2 ^ 64"
  shows "r_tag vs r = Inr z \<longleftrightarrow> (\<exists>i<length vs. z = (vs ! i, adv 1 r) \<and> slot_at_next r 0 = of_nat (Suc i))"
proof -
  let ?v = "slot_at_next r 0"
  have "?v = of_nat (Suc i) \<longleftrightarrow> ?v \<noteq> 0 \<and> unat (?v - 1) = i" if "i < length vs" for i
    using tag_word [of i ?v] that assms by simp
  then show ?thesis
    by (auto simp: r_tag_def andThen_Inr split: if_splits)
qed

lemma r_tag_three:
  "r_tag [a, b, c] r = Inr z \<longleftrightarrow>
     z = (a, adv 1 r) \<and> slot_at_next r 0 = 1 \<or> z = (b, adv 1 r) \<and> slot_at_next r 0 = 2 \<or>
     z = (c, adv 1 r) \<and> slot_at_next r 0 = 3"
proof -
  have "(\<exists>i<Suc (Suc (Suc 0)). P i) \<longleftrightarrow> P 0 \<or> P (Suc 0) \<or> P (Suc (Suc 0))" for P
    by (auto simp: less_Suc_eq)
  then show ?thesis by (simp add: r_tag_iff)
qed

lemma ex_reset_kind: "(\<exists>k. P k) \<longleftrightarrow> P PowerOff \<or> P Reboot \<or> P PowerOffFailure"
  by (metis reset_kind.exhaust)

lemma ex_hold: "(\<exists>h. P h) \<longleftrightarrow> P Take \<or> P Release \<or> P ReleaseOpen"
  by (metis hold.exhaust)

lemma r_tag_error: "r_tag vs r = Inl e \<Longrightarrow> e = InvalidArgument"
  by (auto simp: r_tag_def andThen_Inl split: if_splits)

interpretation arg_reset: arg_codec sp reset_kind_write reset_kind_read "\<lambda>k. [ucast (reset_kind_code k)]" "\<lambda>_. True" for sp
proof
  show "reset_kind_write x w = fold put [ucast (reset_kind_code x)] w" for x w
    by (simp add: reset_kind_write_def w_u32_def)
  show "reset_kind_read r = Inr z \<longleftrightarrow> (\<exists>x. z = (x, adv (length [ucast (reset_kind_code x) :: u64]) r) \<and> True \<and>
      has r [ucast (reset_kind_code x)])" for r z
    by (auto simp: reset_kind_read_def r_tag_three has_Cons ex_reset_kind)
  show "reset_kind_read r = Inl e \<Longrightarrow> decode_error e" for r e
    by (auto simp: reset_kind_read_def decode_error_def dest: r_tag_error)
qed

interpretation arg_hold: arg_codec sp hold_write hold_read "\<lambda>k. [ucast (hold_code k)]" "\<lambda>_. True" for sp
proof
  show "hold_write x w = fold put [ucast (hold_code x)] w" for x w
    by (simp add: hold_write_def w_u32_def)
  show "hold_read r = Inr z \<longleftrightarrow> (\<exists>x. z = (x, adv (length [ucast (hold_code x) :: u64]) r) \<and> True \<and>
      has r [ucast (hold_code x)])" for r z
    by (auto simp: hold_read_def r_tag_three has_Cons ex_hold)
  show "hold_read r = Inl e \<Longrightarrow> decode_error e" for r e
    by (auto simp: hold_read_def decode_error_def dest: r_tag_error)
qed

end
