(* ===== verification/Sys_Call.thy ===== *)
theory Sys_Call
  imports Sys_Regs
begin

text \<open>
  The system calls and their argument registers (\<open>libs/sys/src/call.rs\<close>): the one table of calls, with
  what its macro generates from it: the numbers, the encoding of a call into the registers
  \<open>a0..=a7\<close> and its decoding, which rejects every malformed value.

  A constructor of \<open>number\<close> is its call's with an \<open>N\<close> before it.
\<close>

section \<open>The table\<close>

definition NUMBER_BASE :: u64 where
  "NUMBER_BASE = 0x100"

definition MAX_START_HANDLES :: u32 where
  "MAX_START_HANDLES = 128"

datatype (plugins only: code size) number =
    NMapAnon
  | NUnmap
  | NSetFlags
  | NMapDevice
  | NDmaAlloc
  | NThreadCreate
  | NThreadExit
  | NProcessExit
  | NProcessCreate
  | NProcessMap
  | NProcessStart
  | NEndpointCreate
  | NMint
  | NCall
  | NSend
  | NReceive
  | NReply
  | NServe
  | NHandleClose
  | NBudgetCreate
  | NBudgetDestroy
  | NBudgetUsage
  | NTimeNow
  | NRandom
  | NSystemReset
  | NMapFixed
  | NDeviceInfo
  | NBudgetReap
  | NConsoleHold
  | NReplyReceive
  | NSendReceive

datatype (plugins only: code size) call =
    MapAnon u64 mem_flags
  | Unmap u64 u64
  | SetFlags u64 u64 mem_flags
  | MapDevice handle
  | DmaAlloc handle u64
  | ThreadCreate u64 u64 u64
  | ThreadExit
  | ProcessExit u32
  | ProcessCreate handle handle
  | ProcessMap handle u64 u64 u64 mem_flags
  | ProcessStart handle u64 u64 u64 u64 u32
  | EndpointCreate "handle option"
  | Mint mint_source u64 "handle option"
  | Call handle u64 "pages option" u64
  | Send handle u64 "pages option" u64
  | Receive "handle option" u64 u64 u64
  | Reply u64 u64
  | Serve u64
  | HandleClose handle
  | BudgetCreate handle u64
  | BudgetDestroy handle
  | BudgetUsage handle u64
  | TimeNow
  | Random
  | SystemReset handle reset_kind
  | MapFixed u64 u64 mem_flags
  | DeviceInfo handle
  | BudgetReap handle
  | ConsoleHold handle hold
  | ReplyReceive "handle option" u64 u64 u64 u64
  | SendReceive "handle option" u64 u64 u64 u64

fun number_value :: "number \<Rightarrow> u64" where
  "number_value NMapAnon = 1"
| "number_value NUnmap = 2"
| "number_value NSetFlags = 3"
| "number_value NMapDevice = 4"
| "number_value NDmaAlloc = 5"
| "number_value NThreadCreate = 6"
| "number_value NThreadExit = 7"
| "number_value NProcessExit = 8"
| "number_value NProcessCreate = 9"
| "number_value NProcessMap = 10"
| "number_value NProcessStart = 11"
| "number_value NEndpointCreate = 12"
| "number_value NMint = 13"
| "number_value NCall = 14"
| "number_value NSend = 15"
| "number_value NReceive = 16"
| "number_value NReply = 17"
| "number_value NServe = 18"
| "number_value NHandleClose = 19"
| "number_value NBudgetCreate = 20"
| "number_value NBudgetDestroy = 21"
| "number_value NBudgetUsage = 22"
| "number_value NTimeNow = 23"
| "number_value NRandom = 24"
| "number_value NSystemReset = 25"
| "number_value NMapFixed = 26"
| "number_value NDeviceInfo = 27"
| "number_value NBudgetReap = 28"
| "number_value NConsoleHold = 29"
| "number_value NReplyReceive = 30"
| "number_value NSendReceive = 31"

definition number_code :: "number \<Rightarrow> u64" where
  "number_code n = NUMBER_BASE + number_value n"

definition ALL_numbers :: "number list" where
  "ALL_numbers =
     [NMapAnon, NUnmap, NSetFlags, NMapDevice, NDmaAlloc,
      NThreadCreate, NThreadExit, NProcessExit, NProcessCreate, NProcessMap,
      NProcessStart, NEndpointCreate, NMint, NCall, NSend,
      NReceive, NReply, NServe, NHandleClose, NBudgetCreate,
      NBudgetDestroy, NBudgetUsage, NTimeNow, NRandom, NSystemReset,
      NMapFixed, NDeviceInfo, NBudgetReap, NConsoleHold, NReplyReceive,
      NSendReceive]"

definition number_from_raw :: "u64 \<Rightarrow> number option" where
  "number_from_raw v = find (\<lambda>n. number_code n = v) ALL_numbers"

fun number_name :: "number \<Rightarrow> string" where
  "number_name NMapAnon = ''map_anon''"
| "number_name NUnmap = ''unmap''"
| "number_name NSetFlags = ''set_flags''"
| "number_name NMapDevice = ''map_device''"
| "number_name NDmaAlloc = ''dma_alloc''"
| "number_name NThreadCreate = ''thread_create''"
| "number_name NThreadExit = ''thread_exit''"
| "number_name NProcessExit = ''process_exit''"
| "number_name NProcessCreate = ''process_create''"
| "number_name NProcessMap = ''process_map''"
| "number_name NProcessStart = ''process_start''"
| "number_name NEndpointCreate = ''endpoint_create''"
| "number_name NMint = ''mint''"
| "number_name NCall = ''call''"
| "number_name NSend = ''send''"
| "number_name NReceive = ''receive''"
| "number_name NReply = ''reply''"
| "number_name NServe = ''serve''"
| "number_name NHandleClose = ''handle_close''"
| "number_name NBudgetCreate = ''budget_create''"
| "number_name NBudgetDestroy = ''budget_destroy''"
| "number_name NBudgetUsage = ''budget_usage''"
| "number_name NTimeNow = ''time_now''"
| "number_name NRandom = ''random''"
| "number_name NSystemReset = ''system_reset''"
| "number_name NMapFixed = ''map_fixed''"
| "number_name NDeviceInfo = ''device_info''"
| "number_name NBudgetReap = ''budget_reap''"
| "number_name NConsoleHold = ''console_hold''"
| "number_name NReplyReceive = ''reply_receive''"
| "number_name NSendReceive = ''send_receive''"

fun call_number :: "call \<Rightarrow> number" where
  "call_number (MapAnon len flags) = NMapAnon"
| "call_number (Unmap addr len) = NUnmap"
| "call_number (SetFlags addr len flags) = NSetFlags"
| "call_number (MapDevice device) = NMapDevice"
| "call_number (DmaAlloc device pgs) = NDmaAlloc"
| "call_number (ThreadCreate entry sp arg) = NThreadCreate"
| "call_number ThreadExit = NThreadExit"
| "call_number (ProcessExit code) = NProcessExit"
| "call_number (ProcessCreate budget exit_endpoint) = NProcessCreate"
| "call_number (ProcessMap process src dst len flags) = NProcessMap"
| "call_number (ProcessStart process entry sp arg handles_rec count) = NProcessStart"
| "call_number (EndpointCreate budget) = NEndpointCreate"
| "call_number (Mint source badge budget) = NMint"
| "call_number (Call endpoint body_rec lend timeout) = NCall"
| "call_number (Send endpoint body_rec transfer timeout) = NSend"
| "call_number (Receive from timeout max_transfer received_rec) = NReceive"
| "call_number (Reply msg_id body_rec) = NReply"
| "call_number (Serve msg_id) = NServe"
| "call_number (HandleClose handle) = NHandleClose"
| "call_number (BudgetCreate parent spec_rec) = NBudgetCreate"
| "call_number (BudgetDestroy budget) = NBudgetDestroy"
| "call_number (BudgetUsage budget usage_rec) = NBudgetUsage"
| "call_number TimeNow = NTimeNow"
| "call_number Random = NRandom"
| "call_number (SystemReset device kind) = NSystemReset"
| "call_number (MapFixed addr len flags) = NMapFixed"
| "call_number (DeviceInfo device) = NDeviceInfo"
| "call_number (BudgetReap budget) = NBudgetReap"
| "call_number (ConsoleHold device hld) = NConsoleHold"
| "call_number (ReplyReceive from timeout max_transfer received_rec first_rec) = NReplyReceive"
| "call_number (SendReceive from timeout max_transfer received_rec first_rec) = NSendReceive"

section \<open>Encoding and decoding\<close>

fun write_args :: "call \<Rightarrow> writer \<Rightarrow> writer" where
  "write_args (MapAnon len flags) w = flags_write flags (w_usize len w)"
| "write_args (Unmap addr len) w = w_usize len (w_usize addr w)"
| "write_args (SetFlags addr len flags) w = flags_write flags (w_usize len (w_usize addr w))"
| "write_args (MapDevice device) w = handle_write device w"
| "write_args (DmaAlloc device pgs) w = w_usize pgs (handle_write device w)"
| "write_args (ThreadCreate entry sp arg) w = w_usize arg (w_usize sp (w_usize entry w))"
| "write_args ThreadExit w = w"
| "write_args (ProcessExit code) w = w_u32 code w"
| "write_args (ProcessCreate budget exit_endpoint) w = handle_write exit_endpoint (handle_write budget w)"
| "write_args (ProcessMap process src dst len flags) w = flags_write flags (w_usize len (w_usize dst (w_usize src (handle_write process w))))"
| "write_args (ProcessStart process entry sp arg handles_rec count) w = w_u32 count (w_usize handles_rec (w_usize arg (w_usize sp (w_usize entry (handle_write process w)))))"
| "write_args (EndpointCreate budget) w = opt_handle_write budget w"
| "write_args (Mint source badge budget) w = opt_handle_write budget (w_u64 badge (mint_source_write source w))"
| "write_args (Call endpoint body_rec lend timeout) w = w_u64 timeout (pages_write lend (w_usize body_rec (handle_write endpoint w)))"
| "write_args (Send endpoint body_rec transfer timeout) w = w_u64 timeout (pages_write transfer (w_usize body_rec (handle_write endpoint w)))"
| "write_args (Receive from timeout max_transfer received_rec) w = w_usize received_rec (w_usize max_transfer (w_u64 timeout (opt_handle_write from w)))"
| "write_args (Reply msg_id body_rec) w = w_usize body_rec (w_u64 msg_id w)"
| "write_args (Serve msg_id) w = w_u64 msg_id w"
| "write_args (HandleClose handle) w = handle_write handle w"
| "write_args (BudgetCreate parent spec_rec) w = w_usize spec_rec (handle_write parent w)"
| "write_args (BudgetDestroy budget) w = handle_write budget w"
| "write_args (BudgetUsage budget usage_rec) w = w_usize usage_rec (handle_write budget w)"
| "write_args TimeNow w = w"
| "write_args Random w = w"
| "write_args (SystemReset device kind) w = reset_kind_write kind (handle_write device w)"
| "write_args (MapFixed addr len flags) w = flags_write flags (w_usize len (w_usize addr w))"
| "write_args (DeviceInfo device) w = handle_write device w"
| "write_args (BudgetReap budget) w = handle_write budget w"
| "write_args (ConsoleHold device hld) w = hold_write hld (handle_write device w)"
| "write_args (ReplyReceive from timeout max_transfer received_rec first_rec) w = w_usize first_rec (w_usize received_rec (w_usize max_transfer (w_u64 timeout (opt_handle_write from w))))"
| "write_args (SendReceive from timeout max_transfer received_rec first_rec) w = w_usize first_rec (w_usize received_rec (w_usize max_transfer (w_u64 timeout (opt_handle_write from w))))"

definition encode :: "call \<Rightarrow> u64 list" where
  "encode c =
     w_slots (write_args c (w_u32 (ucast (number_code (call_number c))) (writer_regs (replicate REGS 0))))"

fun read_args :: "number \<Rightarrow> call read" where
  "read_args NMapAnon =
     andThen r_usize (\<lambda>len. andThen flags_read (\<lambda>flags. ok (MapAnon len flags)))"
| "read_args NUnmap =
     andThen r_usize (\<lambda>addr. andThen r_usize (\<lambda>len. ok (Unmap addr len)))"
| "read_args NSetFlags =
     andThen r_usize (\<lambda>addr. andThen r_usize (\<lambda>len. andThen flags_read (\<lambda>flags. ok (SetFlags addr len flags))))"
| "read_args NMapDevice =
     andThen handle_read (\<lambda>device. ok (MapDevice device))"
| "read_args NDmaAlloc =
     andThen handle_read (\<lambda>device. andThen r_usize (\<lambda>pgs. ok (DmaAlloc device pgs)))"
| "read_args NThreadCreate =
     andThen r_usize (\<lambda>entry. andThen r_usize (\<lambda>sp. andThen r_usize (\<lambda>arg. ok (ThreadCreate entry sp arg))))"
| "read_args NThreadExit =
     ok ThreadExit"
| "read_args NProcessExit =
     andThen r_u32 (\<lambda>code. ok (ProcessExit code))"
| "read_args NProcessCreate =
     andThen handle_read (\<lambda>budget. andThen handle_read (\<lambda>exit_endpoint. ok (ProcessCreate budget exit_endpoint)))"
| "read_args NProcessMap =
     andThen handle_read (\<lambda>process. andThen r_usize (\<lambda>src. andThen r_usize (\<lambda>dst. andThen r_usize (\<lambda>len. andThen flags_read (\<lambda>flags. ok (ProcessMap process src dst len flags))))))"
| "read_args NProcessStart =
     andThen handle_read (\<lambda>process. andThen r_usize (\<lambda>entry. andThen r_usize (\<lambda>sp. andThen r_usize (\<lambda>arg. andThen r_usize (\<lambda>handles_rec. andThen r_u32 (\<lambda>count. ok (ProcessStart process entry sp arg handles_rec count)))))))"
| "read_args NEndpointCreate =
     andThen opt_handle_read (\<lambda>budget. ok (EndpointCreate budget))"
| "read_args NMint =
     andThen mint_source_read (\<lambda>source. andThen nonzero_read (\<lambda>badge. andThen opt_handle_read (\<lambda>budget. ok (Mint source badge budget))))"
| "read_args NCall =
     andThen handle_read (\<lambda>endpoint. andThen r_usize (\<lambda>body_rec. andThen pages_read (\<lambda>lend. andThen r_u64 (\<lambda>timeout. ok (Call endpoint body_rec lend timeout)))))"
| "read_args NSend =
     andThen handle_read (\<lambda>endpoint. andThen r_usize (\<lambda>body_rec. andThen pages_read (\<lambda>transfer. andThen r_u64 (\<lambda>timeout. ok (Send endpoint body_rec transfer timeout)))))"
| "read_args NReceive =
     andThen opt_handle_read (\<lambda>from. andThen r_u64 (\<lambda>timeout. andThen r_usize (\<lambda>max_transfer. andThen r_usize (\<lambda>received_rec. ok (Receive from timeout max_transfer received_rec)))))"
| "read_args NReply =
     andThen nonzero_read (\<lambda>msg_id. andThen r_usize (\<lambda>body_rec. ok (Reply msg_id body_rec)))"
| "read_args NServe =
     andThen nonzero_read (\<lambda>msg_id. ok (Serve msg_id))"
| "read_args NHandleClose =
     andThen handle_read (\<lambda>handle. ok (HandleClose handle))"
| "read_args NBudgetCreate =
     andThen handle_read (\<lambda>parent. andThen r_usize (\<lambda>spec_rec. ok (BudgetCreate parent spec_rec)))"
| "read_args NBudgetDestroy =
     andThen handle_read (\<lambda>budget. ok (BudgetDestroy budget))"
| "read_args NBudgetUsage =
     andThen handle_read (\<lambda>budget. andThen r_usize (\<lambda>usage_rec. ok (BudgetUsage budget usage_rec)))"
| "read_args NTimeNow =
     ok TimeNow"
| "read_args NRandom =
     ok Random"
| "read_args NSystemReset =
     andThen handle_read (\<lambda>device. andThen reset_kind_read (\<lambda>kind. ok (SystemReset device kind)))"
| "read_args NMapFixed =
     andThen r_usize (\<lambda>addr. andThen r_usize (\<lambda>len. andThen flags_read (\<lambda>flags. ok (MapFixed addr len flags))))"
| "read_args NDeviceInfo =
     andThen handle_read (\<lambda>device. ok (DeviceInfo device))"
| "read_args NBudgetReap =
     andThen handle_read (\<lambda>budget. ok (BudgetReap budget))"
| "read_args NConsoleHold =
     andThen handle_read (\<lambda>device. andThen hold_read (\<lambda>hld. ok (ConsoleHold device hld)))"
| "read_args NReplyReceive =
     andThen opt_handle_read (\<lambda>from. andThen r_u64 (\<lambda>timeout. andThen r_usize (\<lambda>max_transfer. andThen r_usize (\<lambda>received_rec. andThen r_usize (\<lambda>first_rec. ok (ReplyReceive from timeout max_transfer received_rec first_rec))))))"
| "read_args NSendReceive =
     andThen opt_handle_read (\<lambda>from. andThen r_u64 (\<lambda>timeout. andThen r_usize (\<lambda>max_transfer. andThen r_usize (\<lambda>received_rec. andThen r_usize (\<lambda>first_rec. ok (SendReceive from timeout max_transfer received_rec first_rec))))))"

text \<open>The one bounded count is its call's last argument.\<close>

definition check_count :: "call \<Rightarrow> unit read" where
  "check_count c =
     (case c of
        ProcessStart process entry sp arg handles_rec count \<Rightarrow>
          if count > MAX_START_HANDLES then fails TooLarge else ok ()
      | _ \<Rightarrow> ok ())"

definition decode_call :: "call read" where
  "decode_call =
     andThen raw (\<lambda>v. andThen (ok_or (number_from_raw v) InvalidArgument) (\<lambda>n.
       andThen (read_args n) (\<lambda>c. andThen (check_count c) (\<lambda>_. andThen finish (\<lambda>_. ok c)))))"

definition decode :: "u64 list \<Rightarrow> error + call" where
  "decode regs = map_sum id fst (decode_call (reader_regs regs))"

section \<open>The slots of a call\<close>

fun arg_words :: "call \<Rightarrow> u64 list" where
  "arg_words (MapAnon len flags) = [len] @ [ucast (bits flags)]"
| "arg_words (Unmap addr len) = [addr] @ [len]"
| "arg_words (SetFlags addr len flags) = [addr] @ [len] @ [ucast (bits flags)]"
| "arg_words (MapDevice device) = [ucast (index device)]"
| "arg_words (DmaAlloc device pgs) = [ucast (index device)] @ [pgs]"
| "arg_words (ThreadCreate entry sp arg) = [entry] @ [sp] @ [arg]"
| "arg_words ThreadExit = []"
| "arg_words (ProcessExit code) = [ucast code]"
| "arg_words (ProcessCreate budget exit_endpoint) = [ucast (index budget)] @ [ucast (index exit_endpoint)]"
| "arg_words (ProcessMap process src dst len flags) = [ucast (index process)] @ [src] @ [dst] @ [len] @ [ucast (bits flags)]"
| "arg_words (ProcessStart process entry sp arg handles_rec count) = [ucast (index process)] @ [entry] @ [sp] @ [arg] @ [handles_rec] @ [ucast count]"
| "arg_words (EndpointCreate budget) = [ucast (opt_index budget)]"
| "arg_words (Mint source badge budget) = words_mint True source @ words_u64 True badge @ [ucast (opt_index budget)]"
| "arg_words (Call endpoint body_rec lend timeout) = [ucast (index endpoint)] @ [body_rec] @ words_pages lend @ words_u64 True timeout"
| "arg_words (Send endpoint body_rec transfer timeout) = [ucast (index endpoint)] @ [body_rec] @ words_pages transfer @ words_u64 True timeout"
| "arg_words (Receive from timeout max_transfer received_rec) = [ucast (opt_index from)] @ words_u64 True timeout @ [max_transfer] @ [received_rec]"
| "arg_words (Reply msg_id body_rec) = words_u64 True msg_id @ [body_rec]"
| "arg_words (Serve msg_id) = words_u64 True msg_id"
| "arg_words (HandleClose handle) = [ucast (index handle)]"
| "arg_words (BudgetCreate parent spec_rec) = [ucast (index parent)] @ [spec_rec]"
| "arg_words (BudgetDestroy budget) = [ucast (index budget)]"
| "arg_words (BudgetUsage budget usage_rec) = [ucast (index budget)] @ [usage_rec]"
| "arg_words TimeNow = []"
| "arg_words Random = []"
| "arg_words (SystemReset device kind) = [ucast (index device)] @ [ucast (reset_kind_code kind)]"
| "arg_words (MapFixed addr len flags) = [addr] @ [len] @ [ucast (bits flags)]"
| "arg_words (DeviceInfo device) = [ucast (index device)]"
| "arg_words (BudgetReap budget) = [ucast (index budget)]"
| "arg_words (ConsoleHold device hld) = [ucast (index device)] @ [ucast (hold_code hld)]"
| "arg_words (ReplyReceive from timeout max_transfer received_rec first_rec) = [ucast (opt_index from)] @ words_u64 True timeout @ [max_transfer] @ [received_rec] @ [first_rec]"
| "arg_words (SendReceive from timeout max_transfer received_rec first_rec) = [ucast (opt_index from)] @ words_u64 True timeout @ [max_transfer] @ [received_rec] @ [first_rec]"

fun call_valid :: "call \<Rightarrow> bool" where
  "call_valid (MapAnon len flags) \<longleftrightarrow> flags_valid flags"
| "call_valid (Unmap addr len) \<longleftrightarrow> True"
| "call_valid (SetFlags addr len flags) \<longleftrightarrow> flags_valid flags"
| "call_valid (MapDevice device) \<longleftrightarrow> index device \<noteq> 0"
| "call_valid (DmaAlloc device pgs) \<longleftrightarrow> index device \<noteq> 0"
| "call_valid (ThreadCreate entry sp arg) \<longleftrightarrow> True"
| "call_valid ThreadExit \<longleftrightarrow> True"
| "call_valid (ProcessExit code) \<longleftrightarrow> True"
| "call_valid (ProcessCreate budget exit_endpoint) \<longleftrightarrow> index budget \<noteq> 0 \<and> index exit_endpoint \<noteq> 0"
| "call_valid (ProcessMap process src dst len flags) \<longleftrightarrow> index process \<noteq> 0 \<and> flags_valid flags"
| "call_valid (ProcessStart process entry sp arg handles_rec count) \<longleftrightarrow> index process \<noteq> 0 \<and> count \<le> MAX_START_HANDLES"
| "call_valid (EndpointCreate budget) \<longleftrightarrow> pred_option (\<lambda>h. index h \<noteq> 0) budget"
| "call_valid (Mint source badge budget) \<longleftrightarrow> mint_valid source \<and> badge \<noteq> 0 \<and> pred_option (\<lambda>h. index h \<noteq> 0) budget"
| "call_valid (Call endpoint body_rec lend timeout) \<longleftrightarrow> index endpoint \<noteq> 0 \<and> pages_valid lend"
| "call_valid (Send endpoint body_rec transfer timeout) \<longleftrightarrow> index endpoint \<noteq> 0 \<and> pages_valid transfer"
| "call_valid (Receive from timeout max_transfer received_rec) \<longleftrightarrow> pred_option (\<lambda>h. index h \<noteq> 0) from"
| "call_valid (Reply msg_id body_rec) \<longleftrightarrow> msg_id \<noteq> 0"
| "call_valid (Serve msg_id) \<longleftrightarrow> msg_id \<noteq> 0"
| "call_valid (HandleClose handle) \<longleftrightarrow> index handle \<noteq> 0"
| "call_valid (BudgetCreate parent spec_rec) \<longleftrightarrow> index parent \<noteq> 0"
| "call_valid (BudgetDestroy budget) \<longleftrightarrow> index budget \<noteq> 0"
| "call_valid (BudgetUsage budget usage_rec) \<longleftrightarrow> index budget \<noteq> 0"
| "call_valid TimeNow \<longleftrightarrow> True"
| "call_valid Random \<longleftrightarrow> True"
| "call_valid (SystemReset device kind) \<longleftrightarrow> index device \<noteq> 0"
| "call_valid (MapFixed addr len flags) \<longleftrightarrow> flags_valid flags"
| "call_valid (DeviceInfo device) \<longleftrightarrow> index device \<noteq> 0"
| "call_valid (BudgetReap budget) \<longleftrightarrow> index budget \<noteq> 0"
| "call_valid (ConsoleHold device hld) \<longleftrightarrow> index device \<noteq> 0"
| "call_valid (ReplyReceive from timeout max_transfer received_rec first_rec) \<longleftrightarrow> pred_option (\<lambda>h. index h \<noteq> 0) from"
| "call_valid (SendReceive from timeout max_transfer received_rec first_rec) \<longleftrightarrow> pred_option (\<lambda>h. index h \<noteq> 0) from"

end
