(* ===== verification/Sys_Codec.thy ===== *)
theory Sys_Codec
  imports Sys_Call
begin

text \<open>
  The call codec is two-sided: the registers \<open>decode\<close> accepts are exactly those \<open>encode\<close> writes for a
  well-formed call, so decoding is a partial inverse of encoding and no two register vectors mean
  the same call.  \<open>arg_words\<close> gives the slots of a call's arguments; every argument kind's
  \<open>arg_codec\<close> contract gives one step of the proofs.
\<close>

section \<open>The numbers\<close>

lemma number_from_raw_code: "number_from_raw (number_code n) = Some n"
  by (cases n) (simp_all add: number_from_raw_def ALL_numbers_def number_code_def NUMBER_BASE_def)

lemma number_from_raw_Some: "number_from_raw v = Some n \<longleftrightarrow> v = number_code n"
  by (auto simp: number_from_raw_code) (auto simp: number_from_raw_def find_Some_iff)

lemma number_code_inj [simp]: "number_code m = number_code n \<longleftrightarrow> m = n"
  by (metis number_from_raw_code option.inject)

lemma number_code_u32 [simp]: "ucast (ucast (number_code n) :: u32) = number_code n"
  by (cases n) (simp_all add: number_code_def NUMBER_BASE_def)

section \<open>The arguments\<close>

lemmas reg_write = arg_u32.write_words [where sp = True, simplified] arg_usize.write_words [where sp = True, simplified]
  arg_u64.write_words [where sp = True, simplified] arg_handle.write_words [where sp = True, simplified]
  arg_opt_handle.write_words [where sp = True, simplified] arg_flags.write_words [where sp = True, simplified]
  arg_pages.write_words [where sp = True, simplified] arg_mint.write_words [where sp = True, simplified]
  arg_reset.write_words [where sp = True, simplified] arg_hold.write_words [where sp = True, simplified]

lemmas reg_read = arg_u32.read_iff [where sp = True, simplified] arg_usize.read_iff [where sp = True, simplified]
  arg_u64.read_iff [where sp = True, simplified] arg_nonzero.read_iff [where sp = True, simplified]
  arg_handle.read_iff [where sp = True, simplified]
  arg_opt_handle.read_iff [where sp = True, simplified] arg_flags.read_iff [where sp = True, simplified]
  arg_pages.read_iff [where sp = True, simplified] arg_mint.read_iff [where sp = True, simplified]
  arg_reset.read_iff [where sp = True, simplified] arg_hold.read_iff [where sp = True, simplified]

lemmas arg_error = arg_u32.read_error arg_usize.read_error arg_u64.read_error arg_nonzero.read_error
  arg_handle.read_error arg_opt_handle.read_error arg_flags.read_error arg_pages.read_error
  arg_mint.read_error arg_reset.read_error arg_hold.read_error

lemma write_args_words: "w_split w \<Longrightarrow> write_args c w = fold put (arg_words c) w"
  by (cases c) (simp_all add: reg_write)

lemma arg_words_fit: "length (arg_words c) \<le> 7"
  by (cases c) (simp_all add: words_u64_def words_pages_def words_mint_def split: option.split mint_source.split)

text \<open>The arguments a call's own words stand for, apart from the bound on \<open>ProcessStart\<close>'s count.\<close>

definition count_ok :: "call \<Rightarrow> bool" where
  "count_ok c = (case c of ProcessStart _ _ _ _ _ count \<Rightarrow> count \<le> MAX_START_HANDLES | _ \<Rightarrow> True)"

definition args_valid :: "call \<Rightarrow> bool" where
  "args_valid c =
     (case c of ProcessStart process _ _ _ _ _ \<Rightarrow> index process \<noteq> 0 | _ \<Rightarrow> call_valid c)"

lemma call_valid_split: "call_valid c \<longleftrightarrow> args_valid c \<and> count_ok c"
  by (cases c) (simp_all add: args_valid_def count_ok_def)

lemma read_args_words:
  "r_split r \<Longrightarrow> args_valid c \<Longrightarrow> has r (arg_words c) \<Longrightarrow>
    read_args (call_number c) r = Inr (c, adv (length (arg_words c)) r)"
  by (cases c) (simp_all add: args_valid_def andThen_Inr reg_read has_append has_Cons)

lemma read_args_sound:
  "r_split r \<Longrightarrow> read_args n r = Inr (c, r') \<Longrightarrow>
    call_number c = n \<and> args_valid c \<and> has r (arg_words c) \<and> r' = adv (length (arg_words c)) r"
  by (cases n; clarsimp simp: args_valid_def andThen_Inr reg_read has_append has_Cons)

lemma check_count_simps: "check_count c r = Inr z \<longleftrightarrow> count_ok c \<and> z = ((), r)"
  "check_count c r = Inl e \<longleftrightarrow> \<not> count_ok c \<and> e = TooLarge"
  by (cases c; auto simp: check_count_def count_ok_def)+

section \<open>Whole calls\<close>

definition call_words :: "call \<Rightarrow> u64 list" where
  "call_words c = number_code (call_number c) # arg_words c"

lemma call_words_fit: "length (call_words c) \<le> REGS"
  using arg_words_fit [of c] by (simp add: call_words_def REGS_def)

lemma encode_words: "encode c = call_words c @ replicate (REGS - length (call_words c)) 0"
proof -
  define w where "w = writer_regs (replicate REGS 0)"
  have w: "w_split w" "w_next w = 0" "w_slots w = replicate REGS 0"
    by (simp_all add: w_def writer_regs_def)
  have "write_args c (w_u32 (ucast (number_code (call_number c))) w) = fold put (call_words c) w"
    using w by (simp add: write_args_words w_u32_def call_words_def)
  moreover have "w_slots (fold put (call_words c) w) = call_words c @ replicate (REGS - length (call_words c)) 0"
    using fold_put(1) [of w "call_words c"] call_words_fit [of c] w by simp
  ultimately show ?thesis
    by (simp add: encode_def w_def)
qed

lemma encode_length: "length (encode c) = REGS"
  using call_words_fit [of c] by (simp add: encode_words)

lemma decode_call_Inr:
  assumes "r_split r"
  shows "decode_call r = Inr (c, r') \<longleftrightarrow>
    call_valid c \<and> has r (call_words c) \<and> r' = adv (length (call_words c)) r \<and>
    (\<forall>v\<in>set (drop (r_next r') (r_slots r)). v = 0)"
proof
  assume "decode_call r = Inr (c, r')"
  then obtain n q where "slot_at_next r 0 = number_code n" "read_args n (adv 1 r) = Inr (c, q)" "count_ok c" "q = r'"
    "\<forall>v\<in>set (drop (r_next r') (r_slots r')). v = 0"
    by (auto simp: decode_call_def andThen_Inr number_from_raw_Some check_count_simps finish_simps)
  with read_args_sound [of "adv 1 r" n c q] assms
  show "call_valid c \<and> has r (call_words c) \<and> r' = adv (length (call_words c)) r \<and>
      (\<forall>v\<in>set (drop (r_next r') (r_slots r)). v = 0)"
    by (auto simp: call_valid_split call_words_def has_Cons)
next
  assume a: "call_valid c \<and> has r (call_words c) \<and> r' = adv (length (call_words c)) r \<and>
    (\<forall>v\<in>set (drop (r_next r') (r_slots r)). v = 0)"
  then have "read_args (call_number c) (adv 1 r) = Inr (c, r')"
    using read_args_words [of "adv 1 r" c] assms by (simp add: call_valid_split call_words_def has_Cons)
  with a show "decode_call r = Inr (c, r')"
    by (auto simp: decode_call_def andThen_Inr number_from_raw_Some check_count_simps finish_simps
        call_valid_split call_words_def has_Cons)
qed

lemma decode_iff:
  assumes "length regs = REGS"
  shows "decode regs = Inr c \<longleftrightarrow> call_valid c \<and> regs = encode c"
proof -
  let ?r = "\<lparr>r_slots = regs, r_next = 0, r_split = True\<rparr>"
  have "decode regs = Inr c \<longleftrightarrow> (\<exists>r'. decode_call ?r = Inr (c, r'))"
    by (auto simp: decode_def reader_regs_def map_sum_Inr)
  also have "\<dots> \<longleftrightarrow> call_valid c \<and> has ?r (call_words c) \<and> (\<forall>v\<in>set (drop (length (call_words c)) regs). v = 0)"
    by (simp add: decode_call_Inr)
  also have "\<dots> \<longleftrightarrow> call_valid c \<and> regs = call_words c @ replicate (length regs - length (call_words c)) 0"
    using filled [of "call_words c" regs True] call_words_fit [of c] assms by simp
  finally show ?thesis
    using assms by (simp add: encode_words)
qed

end
