(* ===== verification/Sys_Error.thy ===== *)
theory Sys_Error
  imports Sys_Codec
begin

text \<open>
  Which errors each call can return (\<open>libs/sys/src/error.rs\<close>): a set of errors is a word with one
  bit per code, and a call's set is its row of the table with what decoding, dead entries and new
  table pages add.  The rows agree with the decoder: whatever error decoding a known call ends in
  is one the call can return.
\<close>

section \<open>Sets of errors\<close>

definition error_bit :: "error \<Rightarrow> u32" where
  "error_bit e = push_bit (unat (error_code e)) 1"

definition errors_set :: "error list \<Rightarrow> u32" where
  "errors_set es = fold (\<lambda>e bits. bits OR error_bit e) es 0"

definition errors_with :: "u32 \<Rightarrow> u32 \<Rightarrow> u32" where
  "errors_with a b = a OR b"

definition errors_has :: "u32 \<Rightarrow> error \<Rightarrow> bool" where
  "errors_has s e \<longleftrightarrow> s AND error_bit e \<noteq> 0"

definition DEAD_ENTRY :: u32 where
  "DEAD_ENTRY = errors_set [Dead]"

definition DECODING :: u32 where
  "DECODING = errors_set [InvalidArgument]"

definition HANDLE_LIMIT :: u32 where
  "HANDLE_LIMIT = errors_set [TooLarge]"

definition ADDS_HANDLE :: u32 where
  "ADDS_HANDLE = errors_with (errors_set [OutOfMemory]) HANDLE_LIMIT"

definition RANGE_LIMIT :: u32 where
  "RANGE_LIMIT = errors_set [TooLarge]"

section \<open>The rows\<close>

text \<open>
  A turn's row is its two halves' sets, completed as theirs are, so \<open>errors_row\<close> gives the rows
  that name no other call and \<open>number_errors\<close> completes each of them.
\<close>

fun errors_row :: "number \<Rightarrow> u32" where
  "errors_row NMapAnon = errors_set [InvalidArgument, OutOfMemory]"
| "errors_row NUnmap = errors_with (errors_set [InvalidArgument]) RANGE_LIMIT"
| "errors_row NSetFlags = errors_with (errors_set [InvalidArgument]) RANGE_LIMIT"
| "errors_row NMapDevice = errors_set [BadHandle, WrongObject, OutOfMemory]"
| "errors_row NDmaAlloc = errors_set [BadHandle, WrongObject, InvalidArgument, NotPermitted, OutOfMemory]"
| "errors_row NThreadCreate = errors_set [TooManyThreads, OutOfMemory]"
| "errors_row NThreadExit = errors_set []"
| "errors_row NProcessExit = errors_set [InvalidArgument]"
| "errors_row NProcessCreate =
     errors_with (errors_set [BadHandle, WrongObject, InvalidArgument, NotPermitted, OutOfProcesses]) ADDS_HANDLE"
| "errors_row NProcessMap =
     errors_with (errors_set [BadHandle, WrongObject, InvalidArgument, NotPermitted, OutOfMemory]) RANGE_LIMIT"
| "errors_row NProcessStart = errors_set [BadHandle, TooLarge, WrongObject, NotPermitted, OutOfMemory]"
| "errors_row NEndpointCreate =
     errors_with (errors_set [BadHandle, WrongObject, NotPermitted, LabelDenied]) ADDS_HANDLE"
| "errors_row NMint =
     errors_with (errors_set [InvalidArgument, BadHandle, Dead, WrongObject, NotPermitted]) ADDS_HANDLE"
| "errors_row NCall =
     errors_set [BadHandle, TooLarge, InvalidArgument, WrongObject, LabelDenied, Busy, Refused, Timeout, Dead, OutOfMemory]"
| "errors_row NSend =
     errors_set [BadHandle, TooLarge, InvalidArgument, WrongObject, LabelDenied, Busy, Refused, Timeout, Dead]"
| "errors_row NReceive = errors_set [BadHandle, WrongObject, NotPermitted, Timeout, Dead]"
| "errors_row NReply = errors_set [InvalidArgument, TooLarge, BadHandle]"
| "errors_row NServe = errors_set [InvalidArgument]"
| "errors_row NHandleClose = errors_set [BadHandle]"
| "errors_row NBudgetCreate =
     errors_with
       (errors_set [BadHandle, TooLarge, InvalidArgument, WrongObject, ClassDenied, LabelDenied, OutOfMemory,
          OutOfProcesses]) ADDS_HANDLE"
| "errors_row NBudgetDestroy = errors_set [BadHandle, WrongObject]"
| "errors_row NBudgetReap = errors_set [BadHandle, WrongObject]"
| "errors_row NBudgetUsage = errors_set [BadHandle, WrongObject, LabelDenied]"
| "errors_row NTimeNow = errors_set []"
| "errors_row NRandom = errors_set []"
| "errors_row NSystemReset = errors_set [BadHandle, InvalidArgument, WrongObject]"
| "errors_row NMapFixed = errors_with (errors_set [InvalidArgument, OutOfMemory]) RANGE_LIMIT"
| "errors_row NDeviceInfo = errors_set [BadHandle, WrongObject]"
| "errors_row NConsoleHold = errors_set [BadHandle, WrongObject, Busy]"
| "errors_row NReplyReceive = 0"
| "errors_row NSendReceive = 0"

definition errors_complete :: "number \<Rightarrow> u32 \<Rightarrow> u32" where
  "errors_complete n row =
     errors_with (if errors_has row BadHandle \<and> n \<noteq> NHandleClose then errors_with row DEAD_ENTRY else row) DECODING"

definition number_errors :: "number \<Rightarrow> u32" where
  "number_errors n =
     errors_complete n
       (let half = (\<lambda>m. errors_complete m (errors_row m))
        in if n = NReplyReceive then errors_with (half NReply) (half NReceive)
           else if n = NSendReceive then errors_with (half NSend) (half NReceive)
           else errors_row n)"

definition can_return :: "number \<Rightarrow> error \<Rightarrow> bool" where
  "can_return n e \<longleftrightarrow> number_errors n AND error_bit e \<noteq> 0"

section \<open>The sets as sets\<close>

lemma error_code_less: "unat (error_code e) < 32"
  by (cases e) simp_all

lemma error_code_inj: "error_code e = error_code f \<longleftrightarrow> e = f"
  by (cases e; cases f) simp_all

lemma bit_error_bit: "bit (error_bit e) n \<longleftrightarrow> n = unat (error_code e)"
  using error_code_less [of e] by (auto simp: error_bit_def bit_exp_iff)

lemma errors_has_bit: "errors_has s e \<longleftrightarrow> bit s (unat (error_code e))"
proof -
  have "bit (s AND error_bit e) n \<longleftrightarrow> bit s (unat (error_code e)) \<and> n = unat (error_code e)" for n
    by (auto simp: bit_and_iff bit_error_bit)
  then show ?thesis
    unfolding errors_has_def by (metis bit_0_eq bot_apply bot_bool_def bit_eqI)
qed

lemma can_return_has: "can_return n e \<longleftrightarrow> errors_has (number_errors n) e"
  by (simp add: can_return_def errors_has_def)

lemma has_with [simp]: "errors_has (errors_with a b) e \<longleftrightarrow> errors_has a e \<or> errors_has b e"
  by (simp add: errors_has_bit errors_with_def bit_or_iff)

lemma has_0 [simp]: "\<not> errors_has 0 e"
  by (simp add: errors_has_bit)

lemma has_set [simp]: "errors_has (errors_set es) e \<longleftrightarrow> e \<in> set es"
proof -
  have "errors_has (fold (\<lambda>e bits. bits OR error_bit e) es s) e \<longleftrightarrow> errors_has s e \<or> e \<in> set es" for s
  proof (induction es arbitrary: s)
    case (Cons f es)
    have "errors_has (s OR error_bit f) e \<longleftrightarrow> errors_has s e \<or> e = f"
      using error_code_inj [of e f] by (auto simp: word_unat_eq_iff errors_has_bit bit_or_iff bit_error_bit)
    with Cons.IH [of "s OR error_bit f"] show ?case
      by auto
  qed simp
  from this [of 0] show ?thesis
    by (simp add: errors_set_def)
qed

lemmas error_rows = DEAD_ENTRY_def DECODING_def HANDLE_LIMIT_def ADDS_HANDLE_def RANGE_LIMIT_def

lemma has_complete:
  "errors_has (errors_complete n row) e \<longleftrightarrow>
    errors_has row e \<or> e = InvalidArgument \<or> (e = Dead \<and> errors_has row BadHandle \<and> n \<noteq> NHandleClose)"
  by (auto simp: errors_complete_def error_rows)

section \<open>Decoding stays in the rows\<close>

text \<open>Only the kinds that carry a handle can end in \<open>BadHandle\<close>.\<close>

lemma plain_read_error:
  "r_u64 r = Inl e \<Longrightarrow> e = InvalidArgument" "nonzero_read r = Inl e \<Longrightarrow> e = InvalidArgument"
  "flags_read r = Inl e \<Longrightarrow> e = InvalidArgument" "r_usize r \<noteq> Inl e"
  by (auto simp: r_u64_def nonzero_read_def flags_read_def r_usize_def andThen_Inl
      split: if_splits dest: r_u32_error)

lemma read_args_error: "read_args n r = Inl e \<Longrightarrow> can_return n e"
  by (cases n;
      auto simp: can_return_has number_errors_def has_complete Let_def error_rows andThen_Inl plain_read_error(4)
        decode_error_def dest: plain_read_error(1-3) r_u32_error arg_error)

lemma decode_error_known:
  assumes "number_from_raw (regs ! 0) = Some n" "regs \<noteq> []" "decode regs = Inl e"
  shows "can_return n e"
proof -
  have n: "slot_at_next (reader_regs regs) 0 = regs ! 0"
    using assms(2) by (simp add: slot_at_next_def reader_regs_def)
  have "decode_call (reader_regs regs) = Inl e"
    using assms(3) by (simp add: decode_def map_sum_Inl)
  then consider r where "read_args n r = Inl e"
    | c r where "read_args n (adv 1 (reader_regs regs)) = Inr (c, r)" "\<not> count_ok c" "e = TooLarge"
    | "e = InvalidArgument"
    using n assms(1) by (auto simp: decode_call_def andThen_Inl check_count_simps finish_simps)
  then show ?thesis
  proof cases
    case 1
    then show ?thesis
      by (rule read_args_error)
  next
    case 2
    then have "call_number c = NProcessStart"
      by (cases c) (simp_all add: count_ok_def)
    moreover have "call_number c = n"
      using 2(1) read_args_sound [of "adv 1 (reader_regs regs)" n c r] by (simp add: reader_regs_def)
    ultimately show ?thesis
      using 2 by (simp add: can_return_has number_errors_def has_complete)
  next
    case 3
    then show ?thesis
      by (simp add: can_return_has number_errors_def has_complete)
  qed
qed

end
