(* ===== verification/Sys_Ret.thy ===== *)
theory Sys_Ret
  imports Sys_Codec
begin

text \<open>
  Results in registers (\<open>libs/sys/src/ret.rs\<close>): the kernel's encoding of a call's result into
  \<open>a0..=a7\<close> and the caller's decoding of it for the call it made, where a call's and a turn's status
  never erase what happened to the lend, the reply or the first half.
\<close>

section \<open>Outcomes\<close>

datatype lend_disposition = LendNone | LendReturned | LendConsumed

record call_outcome =
  co_status :: "error + unit"
  lend :: lend_disposition
  reply_present :: bool

record reply_outcome =
  delivered :: bool
  installed :: u32

definition accepted :: "reply_outcome \<Rightarrow> u32 \<Rightarrow> bool" where
  "accepted rep required \<longleftrightarrow> delivered rep \<and> installed rep AND required = required"

definition validate :: "reply_outcome \<Rightarrow> nat \<Rightarrow> error + reply_outcome" where
  "validate rep handles =
     (if handles > MAX_MSG_HANDLES \<or> drop_bit handles (installed rep) \<noteq> 0 \<or> (\<not> delivered rep \<and> installed rep \<noteq> 0)
      then Inl InvalidArgument else Inr rep)"

datatype first_done = FirstNothing | Replied reply_outcome | Sent

record turn_outcome =
  to_status :: "error + unit"
  first_half :: first_done

datatype device_info = Mmio u64 u64 bool | Irq u32 | ResetDevice

datatype (plugins only: code size) ret =
    RCall call_outcome
  | RReply reply_outcome
  | RTurn turn_outcome
  | RNothing
  | RAddr u64
  | RMapping u64 u64
  | RDma u64 u64
  | RTid u32
  | RHandle handle
  | RTime u64
  | RRandom u64
  | RDevice device_info
  | RRemaining u32
  | RWrote bool

definition DEVICE_DMA :: u32 where
  "DEVICE_DMA = 1"

section \<open>Encoding\<close>

definition device_parts :: "device_info \<Rightarrow> u32 \<times> u64 \<times> u64 \<times> u32" where
  "device_parts d =
     (case d of
        Mmio base sz dma \<Rightarrow> (1, base, sz, if dma then DEVICE_DMA else 0)
      | Irq irq \<Rightarrow> (2, ucast irq, 0, 0)
      | ResetDevice \<Rightarrow> (3, 0, 0, 0))"

definition device_write :: "device_info \<Rightarrow> writer \<Rightarrow> writer" where
  "device_write d w =
     (let (kind, a, b, flags) = device_parts d in w_u32 flags (w_u64 b (w_u64 a (w_u32 kind w))))"

definition device_of :: "u32 \<times> u64 \<times> u64 \<times> u32 \<Rightarrow> error + device_info" where
  "device_of parts =
     (let (kind, a, b, flags) = parts
      in if kind = 1 \<and> (flags = 0 \<or> flags = DEVICE_DMA) then Inr (Mmio a b (flags = DEVICE_DMA))
         else if kind = 2 \<and> b = 0 \<and> flags = 0 then
           (case u32_try_from a of None \<Rightarrow> Inl InvalidArgument | Some irq \<Rightarrow> Inr (Irq irq))
         else if kind = 3 \<and> a = 0 \<and> b = 0 \<and> flags = 0 then Inr ResetDevice
         else Inl InvalidArgument)"

definition device_read :: "device_info read" where
  "device_read =
     andThen (r_tag [1, 2, 3]) (\<lambda>kind. andThen r_u64 (\<lambda>a. andThen r_u64 (\<lambda>b. andThen r_u32 (\<lambda>flags.
       lift_result (device_of (kind, a, b, flags))))))"

definition status_code :: "error + unit \<Rightarrow> u64" where
  "status_code s = (case s of Inl e \<Rightarrow> error_code e | Inr _ \<Rightarrow> 0)"

fun lend_code :: "lend_disposition \<Rightarrow> u64" where
  "lend_code LendNone = 0"
| "lend_code LendReturned = 1"
| "lend_code LendConsumed = 2"

definition encode_result :: "error + ret \<Rightarrow> u64 list" where
  "encode_result result =
     (let w = writer_regs (replicate REGS 0)
      in case result of
           Inl e \<Rightarrow> w_slots (w_u32 (ucast (error_code e)) w)
         | Inr value \<Rightarrow>
             (let w = w_u32 0 w; regs = w_slots w
              in case value of
                   RCall out \<Rightarrow>
                     ((regs[0 := status_code (co_status out)])
                        [1 := lend_code (lend out)])[2 := of_bool (reply_present out)]
                 | RReply out \<Rightarrow> w_slots (w_u32 (installed out) (w_u32 (of_bool (delivered out)) w))
                 | RTurn out \<Rightarrow>
                     (let (a1, a2) =
                        (case first_half out of
                           FirstNothing \<Rightarrow> (0, 0)
                         | Replied reply \<Rightarrow> (1 + of_bool (delivered reply), ucast (installed reply))
                         | Sent \<Rightarrow> (1, 0))
                      in ((regs[0 := status_code (to_status out)])[1 := a1])[2 := a2])
                 | RNothing \<Rightarrow> regs
                 | RAddr addr \<Rightarrow> w_slots (w_usize addr w)
                 | RMapping addr len \<Rightarrow> w_slots (w_usize len (w_usize addr w))
                 | RDma addr phys \<Rightarrow> w_slots (w_u64 phys (w_usize addr w))
                 | RTid tid \<Rightarrow> w_slots (w_u32 tid w)
                 | RHandle h \<Rightarrow> w_slots (w_u32 (index h) w)
                 | RTime time \<Rightarrow> w_slots (w_u64 time w)
                 | RRandom value \<Rightarrow> w_slots (w_u64 value w)
                 | RDevice info \<Rightarrow> w_slots (device_write info w)
                 | RRemaining n \<Rightarrow> w_slots (w_u32 n w)
                 | RWrote wrote \<Rightarrow> w_slots (w_u32 (of_bool wrote) w)))"

section \<open>Decoding\<close>

definition status_of :: "u64 \<Rightarrow> (error + unit) read" where
  "status_of code =
     (if code = 0 then ok (Inr ()) else andThen (ok_or (from_code code) InvalidArgument) (\<lambda>e. ok (Inl e)))"

definition r_bool :: "bool read" where
  "r_bool = andThen r_u32 (\<lambda>v. if v = 0 then ok False else if v = 1 then ok True else fails InvalidArgument)"

definition r_lend :: "lend_disposition read" where
  "r_lend = andThen r_u32 (\<lambda>v.
     if v = 0 then ok LendNone else if v = 1 then ok LendReturned else if v = 2 then ok LendConsumed
     else fails InvalidArgument)"

definition call_impossible :: "call_outcome \<Rightarrow> bool" where
  "call_impossible out \<longleftrightarrow>
     (reply_present out \<and> \<not> (co_status out = Inr () \<or> co_status out = Inl OutOfMemory)) \<or>
     (co_status out = Inr () \<and> \<not> reply_present out) \<or>
     (lend out = LendConsumed \<and> (reply_present out \<or> \<not> (co_status out = Inl Timeout \<or> co_status out = Inl Dead)))"

definition decode_call_result :: "u64 \<Rightarrow> ret read" where
  "decode_call_result code =
     andThen (status_of code) (\<lambda>status. andThen r_lend (\<lambda>ld. andThen r_bool (\<lambda>present. andThen finish (\<lambda>_.
       let out = \<lparr>co_status = status, lend = ld, reply_present = present\<rparr>
       in if call_impossible out then fails InvalidArgument else ok (RCall out)))))"

definition turn_impossible :: "turn_outcome \<Rightarrow> bool" where
  "turn_impossible out \<longleftrightarrow>
     (case first_half out of
        FirstNothing \<Rightarrow> to_status out = Inr ()
      | _ \<Rightarrow> \<not> (to_status out = Inr () \<or> to_status out = Inl Timeout \<or> to_status out = Inl Dead \<or>
                to_status out = Inl InvalidArgument))"

definition r_first_done :: "number \<Rightarrow> first_done read" where
  "r_first_done number =
     andThen r_u32 (\<lambda>a1.
       if a1 = 0 then ok FirstNothing
       else if number = NSendReceive \<and> a1 = 1 then ok Sent
       else if number = NReplyReceive \<and> (a1 = 1 \<or> a1 = 2) then
         andThen r_u32 (\<lambda>mask.
           andThen (lift_result (validate \<lparr>delivered = (a1 = 2), installed = mask\<rparr> MAX_MSG_HANDLES)) (\<lambda>rep.
             ok (Replied rep)))
       else fails InvalidArgument)"

definition decode_turn_result :: "number \<Rightarrow> u64 \<Rightarrow> ret read" where
  "decode_turn_result number code =
     andThen (status_of code) (\<lambda>status. andThen (r_first_done number) (\<lambda>first. andThen finish (\<lambda>_.
       let out = \<lparr>to_status = status, first_half = first\<rparr>
       in if turn_impossible out then fails InvalidArgument else ok (RTurn out))))"

fun read_value :: "number \<Rightarrow> ret read" where
  "read_value NReply =
     andThen r_bool (\<lambda>del. andThen r_u32 (\<lambda>mask.
       andThen (lift_result (validate \<lparr>delivered = del, installed = mask\<rparr> MAX_MSG_HANDLES)) (\<lambda>rep.
         ok (RReply rep))))"
| "read_value NMapAnon = andThen r_usize (\<lambda>addr. ok (RAddr addr))"
| "read_value NMapDevice = andThen r_usize (\<lambda>addr. andThen r_usize (\<lambda>len. ok (RMapping addr len)))"
| "read_value NDmaAlloc = andThen r_usize (\<lambda>addr. andThen r_u64 (\<lambda>phys. ok (RDma addr phys)))"
| "read_value NThreadCreate = andThen r_u32 (\<lambda>tid. ok (RTid tid))"
| "read_value NProcessCreate = andThen handle_read (\<lambda>h. ok (RHandle h))"
| "read_value NEndpointCreate = andThen handle_read (\<lambda>h. ok (RHandle h))"
| "read_value NMint = andThen handle_read (\<lambda>h. ok (RHandle h))"
| "read_value NBudgetCreate = andThen handle_read (\<lambda>h. ok (RHandle h))"
| "read_value NTimeNow = andThen r_u64 (\<lambda>time. ok (RTime time))"
| "read_value NRandom = andThen r_u64 (\<lambda>v. ok (RRandom v))"
| "read_value NDeviceInfo = andThen device_read (\<lambda>d. ok (RDevice d))"
| "read_value NBudgetReap = andThen r_u32 (\<lambda>n. ok (RRemaining n))"
| "read_value NConsoleHold = andThen r_bool (\<lambda>b. ok (RWrote b))"
| "read_value _ = ok RNothing"

definition decode_ret :: "number \<Rightarrow> ret read" where
  "decode_ret number =
     andThen raw (\<lambda>code.
       if number = NCall then decode_call_result code
       else if number = NReplyReceive \<or> number = NSendReceive then decode_turn_result number code
       else if code \<noteq> 0 then andThen (ok_or (from_code code) InvalidArgument) (\<lambda>e. andThen finish (\<lambda>_. fails e))
       else andThen (read_value number) (\<lambda>value. andThen finish (\<lambda>_. ok value)))"

definition decode_result :: "number \<Rightarrow> u64 list \<Rightarrow> error + ret" where
  "decode_result number regs = map_sum id fst (decode_ret number (reader_regs regs))"

section \<open>The words of a result\<close>

definition words_device :: "bool \<Rightarrow> device_info \<Rightarrow> u64 list" where
  "words_device sp d =
     (let (kind, a, b, flags) = device_parts d in [ucast kind] @ words_u64 sp a @ words_u64 sp b @ [ucast flags])"

definition first_words :: "first_done \<Rightarrow> u64 list" where
  "first_words f =
     (case f of FirstNothing \<Rightarrow> [0] | Replied rep \<Rightarrow> [1 + of_bool (delivered rep), ucast (installed rep)] | Sent \<Rightarrow> [1])"

fun ret_words :: "ret \<Rightarrow> u64 list" where
  "ret_words (RCall out) = [status_code (co_status out), lend_code (lend out), of_bool (reply_present out)]"
| "ret_words (RReply out) = [0, of_bool (delivered out), ucast (installed out)]"
| "ret_words (RTurn out) = status_code (to_status out) # first_words (first_half out)"
| "ret_words RNothing = [0]"
| "ret_words (RAddr addr) = [0, addr]"
| "ret_words (RMapping addr len) = [0, addr, len]"
| "ret_words (RDma addr phys) = [0, addr] @ words_u64 True phys"
| "ret_words (RTid tid) = [0, ucast tid]"
| "ret_words (RHandle h) = [0, ucast (index h)]"
| "ret_words (RTime time) = 0 # words_u64 True time"
| "ret_words (RRandom v) = 0 # words_u64 True v"
| "ret_words (RDevice d) = 0 # words_device True d"
| "ret_words (RRemaining n) = [0, ucast n]"
| "ret_words (RWrote b) = [0, of_bool b]"

definition reply_ok :: "reply_outcome \<Rightarrow> bool" where
  "reply_ok rep \<longleftrightarrow> drop_bit MAX_MSG_HANDLES (installed rep) = 0 \<and> (delivered rep \<or> installed rep = 0)"

definition first_ok :: "number \<Rightarrow> first_done \<Rightarrow> bool" where
  "first_ok n f =
     (case f of FirstNothing \<Rightarrow> True | Replied rep \<Rightarrow> n = NReplyReceive \<and> reply_ok rep | Sent \<Rightarrow> n = NSendReceive)"

fun ret_ok :: "number \<Rightarrow> ret \<Rightarrow> bool" where
  "ret_ok n (RCall out) \<longleftrightarrow> n = NCall \<and> \<not> call_impossible out"
| "ret_ok n (RReply out) \<longleftrightarrow> n = NReply \<and> reply_ok out"
| "ret_ok n (RTurn out) \<longleftrightarrow> (n = NReplyReceive \<or> n = NSendReceive) \<and> first_ok n (first_half out) \<and> \<not> turn_impossible out"
| "ret_ok n RNothing \<longleftrightarrow>
     n \<in> set [NUnmap, NSetFlags, NThreadExit, NProcessExit, NProcessMap, NProcessStart, NSend, NReceive, NServe,
              NHandleClose, NBudgetDestroy, NBudgetUsage, NSystemReset, NMapFixed]"
| "ret_ok n (RAddr _) \<longleftrightarrow> n = NMapAnon"
| "ret_ok n (RMapping _ _) \<longleftrightarrow> n = NMapDevice"
| "ret_ok n (RDma _ _) \<longleftrightarrow> n = NDmaAlloc"
| "ret_ok n (RTid _) \<longleftrightarrow> n = NThreadCreate"
| "ret_ok n (RHandle h) \<longleftrightarrow> n \<in> set [NProcessCreate, NEndpointCreate, NMint, NBudgetCreate] \<and> index h \<noteq> 0"
| "ret_ok n (RTime _) \<longleftrightarrow> n = NTimeNow"
| "ret_ok n (RRandom _) \<longleftrightarrow> n = NRandom"
| "ret_ok n (RDevice _) \<longleftrightarrow> n = NDeviceInfo"
| "ret_ok n (RRemaining _) \<longleftrightarrow> n = NBudgetReap"
| "ret_ok n (RWrote _) \<longleftrightarrow> n = NConsoleHold"

section \<open>Two sides\<close>

definition device_kind :: "u32 \<Rightarrow> bool" where
  "device_kind k \<longleftrightarrow> k \<in> {1, 2, 3}"

lemma r_tag_123: "r_tag [1, 2, 3] r = Inr z \<longleftrightarrow> (\<exists>k. z = (k, adv 1 r) \<and> device_kind k \<and> slot_at_next r 0 = ucast k)"
  by (auto simp: r_tag_three device_kind_def)

lemma device_of_iff: "device_of p = Inr d \<longleftrightarrow> device_parts d = p"
  by (cases p; cases d)
    (auto simp: device_of_def device_parts_def DEVICE_DMA_def u32_try_from_Some split: option.splits if_splits)

lemma device_parts_kind: "device_parts d = (k, p) \<Longrightarrow> device_kind k"
  by (auto simp: device_kind_def device_parts_def split: device_info.splits)

interpretation arg_device: arg_codec sp device_write device_read "words_device sp" "\<lambda>_. True" for sp
proof
  show "w_split w = sp \<Longrightarrow> device_write x w = fold put (words_device sp x) w" for w x
    by (cases "device_parts x") (simp add: device_write_def words_device_def arg_u64.write_words w_u32_def)
next
  fix r :: reader and z
  assume sp: "r_split r = sp"
  show "device_read r = Inr z \<longleftrightarrow>
      (\<exists>x. z = (x, adv (length (words_device sp x)) r) \<and> True \<and> has r (words_device sp x))" (is "_ \<longleftrightarrow> (\<exists>x. ?P x)")
  proof
    assume "device_read r = Inr z"
    then obtain d where "z = (d, adv (length (words_device sp d)) r)" "has r (words_device sp d)"
      using sp by (clarsimp simp: device_read_def words_device_def andThen_Inr r_tag_123 arg_u64.read_iff r_u32_iff
          has_append has_Cons device_of_iff)
    then show "\<exists>x. ?P x"
      by blast
  next
    assume "\<exists>x. ?P x"
    then obtain d where d: "z = (d, adv (length (words_device sp d)) r)" "has r (words_device sp d)"
      by blast
    obtain k a b f where p: "device_parts d = (k, a, b, f)"
      by (rule prod_cases4)
    show "device_read r = Inr z"
      using d sp device_parts_kind [OF p] p
      by (simp add: device_read_def words_device_def andThen_Inr r_tag_123 arg_u64.read_iff r_u32_iff
          has_append has_Cons device_of_iff)
  qed
next
  show "device_read r = Inl e \<Longrightarrow> decode_error e" for r e
    by (auto simp: device_read_def device_of_def andThen_Inl decode_error_def split: if_splits option.splits
        dest: r_tag_error r_u32_error arg_u64.read_error)
qed

lemma error_code_pos [simp]: "error_code e \<noteq> 0"
  by (cases e) simp_all

lemma from_code_code: "from_code (error_code e) = Some e"
  by (cases e) (simp_all add: from_code_def ALL_errors_def)

lemma from_code_Some: "from_code c = Some e \<longleftrightarrow> c = error_code e"
  by (auto simp: from_code_code) (auto simp: from_code_def find_Some_iff)

lemma status_of_Inr: "status_of code r = Inr z \<longleftrightarrow> (\<exists>s. z = (s, r) \<and> code = status_code s)"
proof -
  have "(\<exists>s. P s) \<longleftrightarrow> P (Inr ()) \<or> (\<exists>e. P (Inl e))" for P :: "error + unit \<Rightarrow> bool"
    by (metis old.sum.exhaust unit.exhaust)
  then show ?thesis
    by (auto simp: status_of_def status_code_def andThen_Inr from_code_Some)
qed

lemma slot_u32_01: "ucast x = (0 :: u64) \<longleftrightarrow> x = 0" "ucast x = (1 :: u64) \<longleftrightarrow> x = 1" for x :: u32
  by (metis ucast_u32_u64_u32 ucast_0, metis ucast_u32_u64_u32 ucast_1)

lemma two_u32: "(2 :: u64) = ucast x \<longleftrightarrow> x = 2" "ucast x = (2 :: u64) \<longleftrightarrow> x = 2" for x :: u32
proof -
  have "(2 :: u64) = ucast (2 :: u32)"
    by simp
  then show "(2 :: u64) = ucast x \<longleftrightarrow> x = 2" "ucast x = (2 :: u64) \<longleftrightarrow> x = 2"
    by (metis ucast_u32_u64_u32)+
qed

lemma r_bool_Inr: "r_bool r = Inr z \<longleftrightarrow> (\<exists>b. z = (b, adv 1 r) \<and> slot_at_next r 0 = of_bool b)"
proof
  assume "r_bool r = Inr z"
  then show "\<exists>b. z = (b, adv 1 r) \<and> slot_at_next r 0 = of_bool b"
    by (auto simp: r_bool_def andThen_Inr r_u32_iff slot_u32_01 split: if_splits)
next
  assume "\<exists>b. z = (b, adv 1 r) \<and> slot_at_next r 0 = of_bool b"
  then obtain b where b: "z = (b, adv 1 r)" "slot_at_next r 0 = of_bool b"
    by blast
  then have "r_u32 r = Inr (of_bool b, adv 1 r)"
    by (auto simp: r_u32_iff)
  with b show "r_bool r = Inr z"
    by (cases b) (auto simp: r_bool_def andThen_Inr)
qed

lemma r_lend_Inr: "r_lend r = Inr z \<longleftrightarrow> (\<exists>l. z = (l, adv 1 r) \<and> slot_at_next r 0 = lend_code l)"
proof
  assume "r_lend r = Inr z"
  then show "\<exists>l. z = (l, adv 1 r) \<and> slot_at_next r 0 = lend_code l"
    by (auto simp: r_lend_def andThen_Inr r_u32_iff split: if_splits)
next
  assume "\<exists>l. z = (l, adv 1 r) \<and> slot_at_next r 0 = lend_code l"
  then obtain l where l: "z = (l, adv 1 r)" "slot_at_next r 0 = lend_code l"
    by blast
  then have "r_u32 r = Inr (ucast (lend_code l), adv 1 r)"
    by (cases l) (auto simp: r_u32_iff)
  with l show "r_lend r = Inr z"
    by (cases l) (auto simp: r_lend_def andThen_Inr)
qed

lemma validate_Inr: "validate rep MAX_MSG_HANDLES = Inr x \<longleftrightarrow> x = rep \<and> reply_ok rep"
  by (auto simp: validate_def reply_ok_def)

lemma r_first_done_sound:
  assumes "r_first_done n r = Inr (f, r')"
  shows "first_ok n f \<and> has r (first_words f) \<and> r' = adv (length (first_words f)) r"
  using assms
  by (auto simp: r_first_done_def andThen_Inr r_u32_iff validate_Inr first_words_def first_ok_def has_Cons
      slot_u32_01 two_u32 split: if_splits)

lemma r_first_done_words:
  assumes "n = NReplyReceive \<or> n = NSendReceive" "first_ok n f" "has r (first_words f)"
  shows "r_first_done n r = Inr (f, adv (length (first_words f)) r)"
proof -
  define k :: u32 where "k = (case f of FirstNothing \<Rightarrow> 0 | Replied rep \<Rightarrow> 1 + of_bool (delivered rep) | Sent \<Rightarrow> 1)"
  have "r_u32 r = Inr (k, adv 1 r)"
    using assms(3) by (auto simp: r_u32_iff k_def first_words_def has_Cons split: first_done.splits)
  with assms show ?thesis
    by (cases f) (auto simp: k_def r_first_done_def andThen_Inr first_words_def first_ok_def has_Cons validate_Inr r_u32_iff
        reply_ok_def)
qed

lemma read_value_sound:
  assumes "r_split r" "read_value n r = Inr (v, r')" "n \<notin> {NCall, NReplyReceive, NSendReceive}"
  shows "ret_ok n v \<and> (\<exists>ws. ret_words v = 0 # ws \<and> has r ws \<and> r' = adv (length ws) r)"
  using assms
  by (cases n; clarsimp simp: andThen_Inr reg_read arg_device.read_iff [where sp = True, simplified] r_bool_Inr
      validate_Inr has_append has_Cons)

lemma read_value_words:
  assumes "r_split r" "ret_ok n v" "ret_words v = 0 # ws" "has r ws" "n \<notin> {NCall, NReplyReceive, NSendReceive}"
  shows "read_value n r = Inr (v, adv (length ws) r)"
proof (cases v)
  case RNothing
  with assms show ?thesis
    by (cases n) simp_all
next
  case (RHandle h)
  with assms show ?thesis
    by (cases n) (simp_all add: andThen_Inr reg_read has_Cons, (clarsimp simp: has_Cons)+)
next
  case (RReply out)
  with assms show ?thesis
    by (cases out) (clarsimp simp: andThen_Inr r_u32_iff r_bool_Inr validate_Inr has_Cons reply_ok_def)
qed (use assms in \<open>clarsimp simp: andThen_Inr reg_read arg_device.read_iff [where sp = True, simplified] r_bool_Inr
      has_append has_Cons\<close>)+

lemma ret_words_plain: "ret_ok n v \<Longrightarrow> n \<notin> {NCall, NReplyReceive, NSendReceive} \<Longrightarrow> \<exists>ws. ret_words v = 0 # ws"
  by (cases v) auto

definition zero_rest :: "reader \<Rightarrow> bool" where
  "zero_rest r \<longleftrightarrow> (\<forall>v\<in>set (drop (r_next r) (r_slots r)). v = 0)"

lemma finish_Inr: "finish r = Inr z \<longleftrightarrow> z = ((), r) \<and> zero_rest r"
  by (simp add: finish_simps zero_rest_def)

lemma decode_ret_sound:
  assumes "r_split r" "decode_ret n r = Inr (v, r')"
  shows "ret_ok n v \<and> has r (ret_words v) \<and> r' = adv (length (ret_words v)) r \<and> zero_rest r'"
proof -
  consider "n = NCall" | "n = NReplyReceive \<or> n = NSendReceive" | "n \<notin> {NCall, NReplyReceive, NSendReceive}"
    by blast
  then show ?thesis
  proof cases
    case 1
    with assms show ?thesis
      by (auto simp: decode_ret_def decode_call_result_def andThen_Inr status_of_Inr r_lend_Inr r_bool_Inr finish_Inr
          has_Cons Let_def split: if_splits)
  next
    case 2
    with assms obtain s f q where "slot_at_next r 0 = status_code s" "r_first_done n (adv 1 r) = Inr (f, q)" "zero_rest q"
      "\<not> turn_impossible \<lparr>to_status = s, first_half = f\<rparr>" "v = RTurn \<lparr>to_status = s, first_half = f\<rparr>" "r' = q"
      by (auto simp: decode_ret_def decode_turn_result_def andThen_Inr status_of_Inr finish_Inr Let_def split: if_splits)
    with 2 r_first_done_sound [of n "adv 1 r" f q] show ?thesis
      by (auto simp: has_Cons)
  next
    case 3
    with assms have "slot_at_next r 0 = 0" "read_value n (adv 1 r) = Inr (v, r')" "zero_rest r'"
      by (auto simp: decode_ret_def andThen_Inr finish_Inr split: if_splits)
    with 3 assms(1) read_value_sound [of "adv 1 r" n v r'] show ?thesis
      by (auto simp: has_Cons)
  qed
qed

lemma decode_ret_words:
  assumes "r_split r" "ret_ok n v" "has r (ret_words v)" "zero_rest (adv (length (ret_words v)) r)"
  shows "decode_ret n r = Inr (v, adv (length (ret_words v)) r)"
proof -
  consider out where "n = NCall" "v = RCall out" | out where "n = NReplyReceive \<or> n = NSendReceive" "v = RTurn out"
    | "n \<notin> {NCall, NReplyReceive, NSendReceive}"
    using assms(2) by (cases v) auto
  then show ?thesis
  proof cases
    case 1
    with assms show ?thesis
      by (cases out) (auto simp: decode_ret_def decode_call_result_def andThen_Inr status_of_Inr r_lend_Inr r_bool_Inr
          finish_Inr has_Cons Let_def)
  next
    case 2
    then have "r_first_done n (adv 1 r) = Inr (first_half out, adv (length (first_words (first_half out))) (adv 1 r))"
      using assms by (intro r_first_done_words) (auto simp: has_Cons)
    with 2 assms show ?thesis
      by (cases out) (auto simp: decode_ret_def decode_turn_result_def andThen_Inr status_of_Inr finish_Inr has_Cons Let_def)
  next
    case 3
    with assms(2) obtain ws where ws: "ret_words v = 0 # ws"
      using ret_words_plain by blast
    with 3 assms have "read_value n (adv 1 r) = Inr (v, adv (length ws) (adv 1 r))"
      by (intro read_value_words) (auto simp: has_Cons)
    with 3 ws assms show ?thesis
      by (auto simp: decode_ret_def andThen_Inr finish_Inr has_Cons)
  qed
qed

lemma ret_words_fit: "length (ret_words v) \<le> REGS"
  by (cases v) (simp_all add: REGS_def words_device_def words_u64_def first_words_def split: prod.split first_done.split)

lemma zeros: "replicate 5 (0 :: u64) = [0, 0, 0, 0, 0]" "replicate 6 (0 :: u64) = [0, 0, 0, 0, 0, 0]"
  by (simp_all add: numeral_eq_Suc)

lemma zeros_put: "w_slots (put 0 (writer_regs (replicate REGS 0))) = [0, 0, 0, 0, 0, 0, 0, 0]"
  by (simp add: put_def writer_regs_def REGS_def numeral_eq_Suc)

lemma encode_result_fold:
  assumes "(\<forall>out. v \<noteq> RCall out) \<and> (\<forall>out. v \<noteq> RTurn out)"
  shows "encode_result (Inr v) = w_slots (fold put (ret_words v) (writer_regs (replicate REGS 0)))"
proof -
  have "w_split (writer_regs (replicate REGS 0))"
    by (simp add: writer_regs_def)
  with assms show ?thesis
    by (cases v) (simp_all add: encode_result_def reg_write arg_device.write_words [where sp = True, simplified])
qed

lemma encode_result_words: "encode_result (Inr v) = ret_words v @ replicate (REGS - length (ret_words v)) 0"
proof -
  define w where "w = writer_regs (replicate REGS 0)"
  have w: "w_next w = 0" "w_slots w = replicate REGS 0"
    by (simp_all add: w_def writer_regs_def)
  consider out where "v = RCall out" | out where "v = RTurn out" | "(\<forall>out. v \<noteq> RCall out) \<and> (\<forall>out. v \<noteq> RTurn out)"
    by blast
  then show ?thesis
  proof cases
    case (1 out)
    then show ?thesis
      by (simp add: encode_result_def w_u32_def zeros_put) (simp add: REGS_def zeros)
  next
    case (2 out)
    then show ?thesis
      by (cases "first_half out")
        (simp_all add: encode_result_def w_u32_def zeros_put first_words_def, simp_all add: REGS_def zeros)
  next
    case 3
    have "w_slots (fold put (ret_words v) w) = ret_words v @ replicate (REGS - length (ret_words v)) 0"
      using fold_put(1) [of w "ret_words v"] ret_words_fit [of v] w by simp
    with encode_result_fold [OF 3] show ?thesis
      by (simp add: w_def)
  qed
qed

lemma encode_result_error: "encode_result (Inl e) = error_code e # replicate (REGS - 1) 0"
proof -
  have "ucast (ucast (error_code e) :: u32) = error_code e"
    by (cases e) simp_all
  then show ?thesis
    by (simp add: encode_result_def w_u32_def put_def writer_regs_def REGS_def numeral_eq_Suc)
qed

lemma decode_result_iff:
  assumes "length regs = REGS"
  shows "decode_result n regs = Inr v \<longleftrightarrow> ret_ok n v \<and> regs = encode_result (Inr v)"
proof -
  let ?r = "\<lparr>r_slots = regs, r_next = 0, r_split = True\<rparr>"
  have "decode_result n regs = Inr v \<longleftrightarrow> (\<exists>r'. decode_ret n ?r = Inr (v, r'))"
    by (auto simp: decode_result_def reader_regs_def map_sum_Inr)
  also have "\<dots> \<longleftrightarrow> ret_ok n v \<and> has ?r (ret_words v) \<and> zero_rest (adv (length (ret_words v)) ?r)"
    using decode_ret_sound [of ?r n v] decode_ret_words [of ?r n v] by auto
  also have "\<dots> \<longleftrightarrow> ret_ok n v \<and> regs = ret_words v @ replicate (length regs - length (ret_words v)) 0"
    using filled [of "ret_words v" regs True] ret_words_fit [of v] assms by (simp add: zero_rest_def)
  finally show ?thesis
    using assms by (simp add: encode_result_words)
qed

lemma decode_result_error:
  assumes "n \<notin> {NCall, NReplyReceive, NSendReceive}"
  shows "decode_result n (encode_result (Inl e)) = Inl e"
proof -
  have "decode_ret n (reader_regs (encode_result (Inl e))) = Inl e"
    using assms
    by (auto simp: decode_ret_def andThen_Inl encode_result_error reader_regs_def slot_at_next_def from_code_Some
        finish_def adv_def)
  then show ?thesis
    by (simp add: decode_result_def)
qed

text \<open>The calls whose status is part of their value read an error as the outcome in which nothing else happened.\<close>

lemma encode_error_outcome:
  "encode_result (Inr (RCall \<lparr>co_status = Inl e, lend = LendNone, reply_present = False\<rparr>)) = encode_result (Inl e)"
  "encode_result (Inr (RTurn \<lparr>to_status = Inl e, first_half = FirstNothing\<rparr>)) = encode_result (Inl e)"
  by (simp_all add: encode_result_words encode_result_error status_code_def first_words_def REGS_def numeral_eq_Suc)

lemma decode_result_any_error:
  "decode_result n (encode_result (Inl e)) =
     (if n = NCall then Inr (RCall \<lparr>co_status = Inl e, lend = LendNone, reply_present = False\<rparr>)
      else if n = NReplyReceive \<or> n = NSendReceive then Inr (RTurn \<lparr>to_status = Inl e, first_half = FirstNothing\<rparr>)
      else Inl e)"
proof (cases "n \<in> {NCall, NReplyReceive, NSendReceive}")
  case True
  have len: "length (encode_result (Inl e)) = REGS"
    by (simp add: encode_result_error REGS_def)
  have c: "ret_ok NCall (RCall \<lparr>co_status = Inl e, lend = LendNone, reply_present = False\<rparr>)"
    by (simp add: call_impossible_def)
  have t: "n = NReplyReceive \<or> n = NSendReceive \<Longrightarrow> ret_ok n (RTurn \<lparr>to_status = Inl e, first_half = FirstNothing\<rparr>)"
    by (simp add: turn_impossible_def first_ok_def)
  show ?thesis
  proof (cases "n = NCall")
    case True
    with c show ?thesis
      by (simp add: decode_result_iff [OF len] encode_error_outcome)
  next
    case False
    with True t show ?thesis
      by (simp add: decode_result_iff [OF len] encode_error_outcome)
  qed
next
  case False
  with decode_result_error [of n e] show ?thesis
    by auto
qed

end
