(* ===== verification/Sys_Record.thy ===== *)
theory Sys_Record
  imports Sys_Regs
begin

text \<open>
  Records (\<open>libs/sys/src/record.rs\<close>): arguments and results too big for registers, as fixed-length
  arrays of 64-bit slots.  A \<open>List<T, N>\<close> is the list of its first \<open>len\<close> items, which is all that its
  equality and its encoding see; the \<open>Slot\<close> trait's two functions are arguments.

  Every record's decoder accepts exactly the arrays its encoder writes for a well-formed value.
\<close>

section \<open>Lists\<close>

definition MAX_LABELS :: nat where
  "MAX_LABELS = 16"

definition WORDS :: nat where
  "WORDS = 4"

definition u64_from_slot :: "u64 \<Rightarrow> error + u64" where
  "u64_from_slot v = Inr v"

definition opt_handle_to_slot :: "handle option \<Rightarrow> u64" where
  "opt_handle_to_slot h = (case h of None \<Rightarrow> 0 | Some h \<Rightarrow> handle_to_raw h)"

definition opt_handle_from_slot :: "u64 \<Rightarrow> error + handle option" where
  "opt_handle_from_slot v = (if v = 0 then Inr None else map_sum id Some (handle_from_raw v))"

definition list_push :: "nat \<Rightarrow> 'a list \<Rightarrow> 'a \<Rightarrow> error + 'a list" where
  "list_push cap xs x = (if length xs < cap then Inr (xs @ [x]) else Inl TooLarge)"

fun list_from_slice :: "nat \<Rightarrow> 'a list \<Rightarrow> 'a list \<Rightarrow> error + 'a list" where
  "list_from_slice cap xs [] = Inr xs"
| "list_from_slice cap xs (item # items) =
     (case list_push cap xs item of Inl e \<Rightarrow> Inl e | Inr ys \<Rightarrow> list_from_slice cap ys items)"

definition list_write :: "('a \<Rightarrow> u64) \<Rightarrow> nat \<Rightarrow> 'a list \<Rightarrow> writer \<Rightarrow> writer" where
  "list_write to_slot cap xs w =
     fold (\<lambda>i. w_u64 (if i < length xs then to_slot (xs ! i) else 0)) [0..<cap] (w_usize (of_nat (length xs)) w)"

fun list_items :: "(u64 \<Rightarrow> error + 'a) \<Rightarrow> nat \<Rightarrow> u64 \<Rightarrow> nat list \<Rightarrow> 'a list \<Rightarrow> 'a list read" where
  "list_items from_slot cap len [] xs = ok xs"
| "list_items from_slot cap len (i # is) xs =
     andThen raw (\<lambda>v.
       if of_nat i < len then
         andThen (lift_result (from_slot v)) (\<lambda>x. andThen (lift_result (list_push cap xs x)) (\<lambda>ys.
           list_items from_slot cap len is ys))
       else if v \<noteq> 0 then fails InvalidArgument
       else list_items from_slot cap len is xs)"

definition list_read :: "(u64 \<Rightarrow> error + 'a) \<Rightarrow> nat \<Rightarrow> 'a list read" where
  "list_read from_slot cap =
     andThen raw (\<lambda>len. if len > of_nat cap then fails TooLarge else list_items from_slot cap len [0..<cap] [])"

abbreviation "labels_write \<equiv> list_write id MAX_LABELS"
abbreviation "labels_read \<equiv> list_read u64_from_slot MAX_LABELS"

section \<open>Bodies\<close>

definition BODY_SLOTS :: nat where
  "BODY_SLOTS = WORDS + 1 + MAX_MSG_HANDLES"

record 'h body_of =
  b_words :: "u64 list"
  b_handles :: "'h list"

definition body_write :: "('h \<Rightarrow> u64) \<Rightarrow> 'h body_of \<Rightarrow> writer \<Rightarrow> writer" where
  "body_write to_slot b w = list_write to_slot MAX_MSG_HANDLES (b_handles b) (fold w_usize (b_words b) w)"

fun read_each :: "nat \<Rightarrow> 'a read \<Rightarrow> 'a list read" where
  "read_each 0 rd = ok []"
| "read_each (Suc n) rd = andThen rd (\<lambda>x. andThen (read_each n rd) (\<lambda>xs. ok (x # xs)))"

definition body_read :: "(u64 \<Rightarrow> error + 'h) \<Rightarrow> 'h body_of read" where
  "body_read from_slot =
     andThen (read_each WORDS r_usize) (\<lambda>ws. andThen (list_read from_slot MAX_MSG_HANDLES) (\<lambda>hs.
       ok \<lparr>b_words = ws, b_handles = hs\<rparr>))"

definition body_encode :: "('h \<Rightarrow> u64) \<Rightarrow> 'h body_of \<Rightarrow> u64 list" where
  "body_encode to_slot b = w_slots (body_write to_slot b (writer_record (replicate BODY_SLOTS 0)))"

definition body_decode :: "(u64 \<Rightarrow> error + 'h) \<Rightarrow> u64 list \<Rightarrow> error + 'h body_of" where
  "body_decode from_slot slots = map_sum id fst (whole (body_read from_slot) (reader_record slots))"

section \<open>A turn's first half\<close>

definition FIRST_SLOTS :: nat where
  "FIRST_SLOTS = 4 + BODY_SLOTS"

datatype first_half_rec =
    FirstReply u64 "handle body_of"
  | FirstSend handle u64 "pages option" "handle body_of"

definition first_write :: "first_half_rec \<Rightarrow> writer \<Rightarrow> writer" where
  "first_write f w =
     (case f of
        FirstReply msg_id body \<Rightarrow> body_write handle_to_raw body (pages_write None (w_u64 0 (w_u64 msg_id w)))
      | FirstSend endpoint timeout transfer body \<Rightarrow>
          body_write handle_to_raw body (pages_write transfer (w_u64 timeout (w_u64 (handle_to_raw endpoint) w))))"

definition first_encode :: "first_half_rec \<Rightarrow> u64 list" where
  "first_encode f = w_slots (first_write f (writer_record (replicate FIRST_SLOTS 0)))"

definition first_read :: "bool \<Rightarrow> first_half_rec read" where
  "first_read send =
     andThen raw (\<lambda>target.
       if send then
         andThen (lift_result (handle_from_raw target)) (\<lambda>endpoint. andThen r_u64 (\<lambda>timeout.
           andThen pages_read (\<lambda>transfer. andThen (body_read handle_from_raw) (\<lambda>body.
             ok (FirstSend endpoint timeout transfer body)))))
       else if target = 0 then fails InvalidArgument
       else andThen raw (\<lambda>a. andThen raw (\<lambda>b. andThen raw (\<lambda>c.
         if (a, b, c) \<noteq> (0, 0, 0) then fails InvalidArgument
         else andThen (body_read handle_from_raw) (\<lambda>body. ok (FirstReply target body))))))"

definition first_decode :: "bool \<Rightarrow> u64 list \<Rightarrow> error + first_half_rec" where
  "first_decode send slots = map_sum id fst (whole (first_read send) (reader_record slots))"

section \<open>What receive returns\<close>

definition RECEIVED_SLOTS :: nat where
  "RECEIVED_SLOTS = 4 + 1 + MAX_LABELS + BODY_SLOTS + 2"

definition KIND_CALL :: u64 where "KIND_CALL = 1"
definition KIND_SEND :: u64 where "KIND_SEND = 2"
definition KIND_INTERRUPT :: u64 where "KIND_INTERRUPT = 3"
definition KIND_EXIT :: u64 where "KIND_EXIT = 4"
definition KIND_ABANDONED :: u64 where "KIND_ABANDONED = 5"

datatype message_kind = KindCall "pages option" | KindSend "pages option"

record message =
  m_kind :: message_kind
  m_id :: u64
  m_badge :: u64
  m_account :: u64
  m_labels :: "u64 list"
  m_body :: "handle option body_of"

datatype cause = Exited | Faulted | Killed

fun cause_code :: "cause \<Rightarrow> u64" where
  "cause_code Exited = 1"
| "cause_code Faulted = 2"
| "cause_code Killed = 3"

record exit_notice =
  x_pid :: u32
  x_cause :: cause
  x_code :: u32
  blamed_account :: u64
  blamed_labels :: "u64 list"

datatype received = RMessage message | RInterrupt | RExit exit_notice | RAbandoned u64

record fields =
  f_kind :: u64
  f_msg_id :: u64
  f_badge :: u64
  f_account :: u64
  f_labels :: "u64 list"
  f_words :: "u64 list"
  f_handles :: "handle option list"
  f_pages :: "pages option"

definition fields_default :: fields where
  "fields_default =
     \<lparr>f_kind = 0, f_msg_id = 0, f_badge = 0, f_account = 0, f_labels = [], f_words = replicate WORDS 0, f_handles = [],
      f_pages = None\<rparr>"

definition ACCOUNT :: nat where
  "ACCOUNT = 3"

definition WORD0 :: nat where
  "WORD0 = 4 + 1 + MAX_LABELS"

definition fields_write :: "fields \<Rightarrow> writer \<Rightarrow> writer" where
  "fields_write f w =
     pages_write (f_pages f) (list_write opt_handle_to_slot MAX_MSG_HANDLES (f_handles f) (fold w_u64 (f_words f)
       (labels_write (f_labels f) (w_u64 (f_account f) (w_u64 (f_badge f) (w_u64 (f_msg_id f) (w_u64 (f_kind f) w)))))))"

definition fields_read :: "fields read" where
  "fields_read =
     andThen raw (\<lambda>k. andThen raw (\<lambda>m. andThen raw (\<lambda>b. andThen raw (\<lambda>a.
       andThen labels_read (\<lambda>ls. andThen (read_each WORDS raw) (\<lambda>ws.
         andThen (list_read opt_handle_from_slot MAX_MSG_HANDLES) (\<lambda>hs. andThen pages_read (\<lambda>ps.
           ok \<lparr>f_kind = k, f_msg_id = m, f_badge = b, f_account = a, f_labels = ls, f_words = ws, f_handles = hs,
               f_pages = ps\<rparr>))))))))"

definition received_fields :: "received \<Rightarrow> fields" where
  "received_fields rc =
     (case rc of
        RMessage m \<Rightarrow>
          (let (k, ps) = (case m_kind m of KindCall lend \<Rightarrow> (KIND_CALL, lend) | KindSend transfer \<Rightarrow> (KIND_SEND, transfer))
           in \<lparr>f_kind = k, f_msg_id = m_id m, f_badge = m_badge m, f_account = m_account m, f_labels = m_labels m,
               f_words = b_words (m_body m), f_handles = b_handles (m_body m), f_pages = ps\<rparr>)
      | RInterrupt \<Rightarrow> fields_default\<lparr>f_kind := KIND_INTERRUPT\<rparr>
      | RExit n \<Rightarrow>
          fields_default\<lparr>f_kind := KIND_EXIT, f_account := blamed_account n, f_labels := blamed_labels n,
            f_words := [ucast (x_pid n), cause_code (x_cause n), ucast (x_code n), 0]\<rparr>
      | RAbandoned i \<Rightarrow> fields_default\<lparr>f_kind := KIND_ABANDONED, f_msg_id := i\<rparr>)"

definition received_encode :: "received \<Rightarrow> u64 list" where
  "received_encode rc = w_slots (fields_write (received_fields rc) (writer_record (replicate RECEIVED_SLOTS 0)))"

text \<open>The slots a kind fills, as the range's bounds.\<close>

definition filled_range :: "u64 \<Rightarrow> (nat \<times> nat) option" where
  "filled_range k =
     (if k = KIND_CALL \<or> k = KIND_SEND then Some (1, RECEIVED_SLOTS)
      else if k = KIND_INTERRUPT then Some (1, 1)
      else if k = KIND_EXIT then Some (ACCOUNT, WORD0 + 3)
      else if k = KIND_ABANDONED then Some (1, 2)
      else None)"

definition stray :: "nat \<times> nat \<Rightarrow> u64 list \<Rightarrow> bool" where
  "stray rng slots \<longleftrightarrow>
     list_ex (\<lambda>(i, slot). slot \<noteq> 0 \<and> \<not> (fst rng \<le> i \<and> i < snd rng)) (drop 1 (enumerate 0 slots))"

definition cause_of :: "u64 \<Rightarrow> error + cause" where
  "cause_of v =
     (if v = 1 then Inr Exited else if v = 2 then Inr Faulted else if v = 3 then Inr Killed else Inl InvalidArgument)"

definition received_of_fields :: "fields \<Rightarrow> received read" where
  "received_of_fields f =
     (let mid = ok_or (if f_msg_id f = 0 then None else Some (f_msg_id f)) InvalidArgument;
          u32_of = (\<lambda>v. ok_or (u32_try_from v) InvalidArgument)
      in if f_kind f = KIND_CALL \<or> f_kind f = KIND_SEND then
           (let k = (if f_kind f = KIND_CALL then KindCall (f_pages f) else KindSend (f_pages f))
            in andThen mid (\<lambda>i.
                 ok (RMessage \<lparr>m_kind = k, m_id = i, m_badge = f_badge f, m_account = f_account f, m_labels = f_labels f,
                   m_body = \<lparr>b_words = f_words f, b_handles = f_handles f\<rparr>\<rparr>)))
         else if f_kind f = KIND_INTERRUPT then ok RInterrupt
         else if f_kind f = KIND_EXIT then
           andThen (u32_of (f_words f ! 0)) (\<lambda>p. andThen (lift_result (cause_of (f_words f ! 1))) (\<lambda>c.
             andThen (u32_of (f_words f ! 2)) (\<lambda>co.
               ok (RExit \<lparr>x_pid = p, x_cause = c, x_code = co, blamed_account = f_account f, blamed_labels = f_labels f\<rparr>))))
         else andThen mid (\<lambda>i. ok (RAbandoned i)))"

definition received_decode :: "u64 list \<Rightarrow> error + received" where
  "received_decode slots =
     (case filled_range (slots ! 0) of
        None \<Rightarrow> Inl InvalidArgument
      | Some rng \<Rightarrow>
          if stray rng slots then Inl InvalidArgument
          else map_sum id fst (andThen (whole fields_read) received_of_fields (reader_record slots)))"

section \<open>Budgets\<close>

definition BUDGET_SPEC_SLOTS :: nat where
  "BUDGET_SPEC_SLOTS = 3 + 1 + MAX_LABELS + 2"

record budget_spec =
  s_pages :: u64
  s_processes :: u32
  s_weight :: u32
  s_labels :: "u64 list"
  s_account :: u64
  s_deadline :: u64

definition spec_write :: "budget_spec \<Rightarrow> writer \<Rightarrow> writer" where
  "spec_write s w =
     w_u64 (s_deadline s) (w_u64 (s_account s) (labels_write (s_labels s)
       (w_u32 (s_weight s) (w_u32 (s_processes s) (w_u64 (s_pages s) w)))))"

definition spec_encode :: "budget_spec \<Rightarrow> u64 list" where
  "spec_encode s = w_slots (spec_write s (writer_record (replicate BUDGET_SPEC_SLOTS 0)))"

definition spec_read :: "budget_spec read" where
  "spec_read =
     andThen r_u64 (\<lambda>pgs. andThen r_u32 (\<lambda>procs. andThen r_u32 (\<lambda>wt. andThen labels_read (\<lambda>ls.
       andThen r_u64 (\<lambda>acc. andThen r_u64 (\<lambda>dl.
         ok \<lparr>s_pages = pgs, s_processes = procs, s_weight = wt, s_labels = ls, s_account = acc, s_deadline = dl\<rparr>))))))"

definition spec_decode :: "u64 list \<Rightarrow> error + budget_spec" where
  "spec_decode slots = map_sum id fst (whole spec_read (reader_record slots))"

definition USAGE_SLOTS :: nat where
  "USAGE_SLOTS = 6"

record usage =
  pages_limit :: u64
  pages_usage :: u64
  processes_limit :: u32
  processes_usage :: u32
  weight_limit :: u32
  weight_carved :: u32

definition usage_write :: "usage \<Rightarrow> writer \<Rightarrow> writer" where
  "usage_write u w =
     w_u32 (weight_carved u) (w_u32 (weight_limit u) (w_u32 (processes_usage u) (w_u32 (processes_limit u)
       (w_u64 (pages_usage u) (w_u64 (pages_limit u) w)))))"

definition usage_encode :: "usage \<Rightarrow> u64 list" where
  "usage_encode u = w_slots (usage_write u (writer_record (replicate USAGE_SLOTS 0)))"

definition usage_read :: "usage read" where
  "usage_read =
     andThen r_u64 (\<lambda>pl. andThen r_u64 (\<lambda>pu. andThen r_u32 (\<lambda>prl. andThen r_u32 (\<lambda>pru.
       andThen r_u32 (\<lambda>wl. andThen r_u32 (\<lambda>wc.
         ok \<lparr>pages_limit = pl, pages_usage = pu, processes_limit = prl, processes_usage = pru, weight_limit = wl,
             weight_carved = wc\<rparr>))))))"

definition usage_decode :: "u64 list \<Rightarrow> error + usage" where
  "usage_decode slots = map_sum id fst (whole usage_read (reader_record slots))"

section \<open>Slots of one value\<close>

lemma slot_u32_zero: "ucast x = (0 :: u64) \<longleftrightarrow> x = 0" "(0 :: u64) = ucast x \<longleftrightarrow> x = 0" for x :: u32
  by (metis ucast_u32_u64_u32 ucast_0)+

text \<open>
  What the \<open>Slot\<close> trait promises: a value's slot is accepted and gives it back, and every accepted
  slot is some value's. A list of such values then has the codec of its count, its items and zeros.
\<close>

definition words_list :: "('a \<Rightarrow> u64) \<Rightarrow> nat \<Rightarrow> 'a list \<Rightarrow> u64 list" where
  "words_list to_slot cap xs = of_nat (length xs) # map to_slot (take cap xs) @ replicate (cap - length xs) 0"

definition list_valid :: "('a \<Rightarrow> bool) \<Rightarrow> nat \<Rightarrow> 'a list \<Rightarrow> bool" where
  "list_valid good cap xs \<longleftrightarrow> length xs \<le> cap \<and> (\<forall>x\<in>set xs. good x)"

lemma words_list_length [simp]: "length (words_list to_slot cap xs) = Suc cap"
  by (simp add: words_list_def)

lemma unat_small: "n < 2 ^ 64 \<Longrightarrow> unat (of_nat n :: u64) = n"
  by (simp add: unsigned_of_nat take_bit_nat_eq_self)

locale slot_kind =
  fixes to_slot :: "'a \<Rightarrow> u64"
    and from_slot :: "u64 \<Rightarrow> error + 'a"
    and good :: "'a \<Rightarrow> bool"
    and cap :: nat
  assumes from_iff: "from_slot v = Inr x \<longleftrightarrow> good x \<and> v = to_slot x"
    and cap_fits: "cap < 2 ^ 64"
begin

lemma write_items:
  assumes "\<not> w_split w"
  shows "fold (\<lambda>i. w_u64 (if i < length xs then to_slot (xs ! i) else 0)) [0..<n] w =
    fold put (map to_slot (take n xs) @ replicate (n - length xs) 0) w"
proof -
  have "fold (\<lambda>i. w_u64 (f i)) is w = fold put (map f is) w" for f and "is" :: "nat list"
    using assms by (induction "is" arbitrary: w) (simp_all add: w_u64_def)
  moreover have "map (\<lambda>i. if i < length xs then to_slot (xs ! i) else 0) [0..<n] = map to_slot (take n xs) @ replicate (n - length xs) 0"
    by (auto simp: list_eq_iff_nth_eq nth_append)
  ultimately show ?thesis
    by simp
qed

lemma le_cap: "v \<le> of_nat cap \<longleftrightarrow> (\<exists>n\<le>cap. v = of_nat n)" for v :: u64
proof -
  have "v \<le> of_nat cap \<longleftrightarrow> unat v \<le> cap"
    using cap_fits by (simp add: word_le_nat_alt unat_small)
  moreover have "unat v \<le> cap \<Longrightarrow> \<exists>n\<le>cap. v = of_nat n"
    by (intro exI [of _ "unat v"]) simp
  moreover have "n \<le> cap \<Longrightarrow> unat (of_nat n :: u64) \<le> cap" for n
    using cap_fits by (simp add: unat_small)
  ultimately show ?thesis
    by blast
qed

lemma items_iff:
  assumes "length acc = min i n" "i + k = cap" "n \<le> cap" "length acc \<le> cap"
  shows "list_items from_slot cap (of_nat n) [i..<cap] acc r = Inr (ys, r') \<longleftrightarrow>
    (\<exists>zs. ys = acc @ zs \<and> length ys = n \<and> (\<forall>x\<in>set zs. good x) \<and>
      has r (map to_slot zs @ replicate (k - length zs) 0) \<and> r' = adv k r)"
  using assms
proof (induction k arbitrary: i acc r)
  case 0
  then show ?case by auto
next
  case (Suc k)
  have small: "of_nat i < (of_nat n :: u64) \<longleftrightarrow> i < n"
    using Suc.prems cap_fits by (simp add: word_less_nat_alt unat_small)
  have upt: "[i..<cap] = i # [Suc i..<cap]"
    using Suc.prems by (simp add: upt_rec)
  show ?case
  proof (cases "i < n")
    case True
    then have "length (acc @ [x]) = min (Suc i) n" for x
      using Suc.prems by simp
    note IH = Suc.IH [OF this]
    have "list_items from_slot cap (of_nat n) [i..<cap] acc r = Inr (ys, r') \<longleftrightarrow>
        (\<exists>x. good x \<and> slot_at_next r 0 = to_slot x \<and>
          list_items from_slot cap (of_nat n) [Suc i..<cap] (acc @ [x]) (adv 1 r) = Inr (ys, r'))"
      using True Suc.prems small by (auto simp: upt andThen_Inr from_iff list_push_def)
    also have "\<dots> \<longleftrightarrow> (\<exists>x zs. good x \<and> slot_at_next r 0 = to_slot x \<and> ys = acc @ x # zs \<and> length ys = n \<and>
        (\<forall>x\<in>set zs. good x) \<and> has (adv 1 r) (map to_slot zs @ replicate (k - length zs) 0) \<and> r' = adv (Suc k) r)"
      using IH Suc.prems True by simp
    also have "\<dots> \<longleftrightarrow> (\<exists>zs. ys = acc @ zs \<and> length ys = n \<and> (\<forall>x\<in>set zs. good x) \<and>
        has r (map to_slot zs @ replicate (Suc k - length zs) 0) \<and> r' = adv (Suc k) r)" (is "?L \<longleftrightarrow> ?R")
    proof
      assume ?L
      then obtain x zs where "good x" "slot_at_next r 0 = to_slot x" "ys = acc @ x # zs" "length ys = n"
        "\<forall>x\<in>set zs. good x" "has (adv 1 r) (map to_slot zs @ replicate (k - length zs) 0)" "r' = adv (Suc k) r"
        by blast
      then show ?R
        by (intro exI [of _ "x # zs"]) (simp add: has_Cons)
    next
      assume ?R
      then obtain zs where zs: "ys = acc @ zs" "length ys = n" "\<forall>x\<in>set zs. good x"
        "has r (map to_slot zs @ replicate (Suc k - length zs) 0)" "r' = adv (Suc k) r"
        by blast
      with True Suc.prems obtain x zs' where "zs = x # zs'"
        by (cases zs) auto
      with zs show ?L
        by (intro exI [of _ x] exI [of _ zs']) (simp add: has_Cons)
    qed
    finally show ?thesis .
  next
    case False
    then have acc: "length acc = n"
      using Suc.prems by simp
    have "list_items from_slot cap (of_nat n) [i..<cap] acc r = Inr (ys, r') \<longleftrightarrow>
        slot_at_next r 0 = 0 \<and> list_items from_slot cap (of_nat n) [Suc i..<cap] acc (adv 1 r) = Inr (ys, r')"
      using False small by (auto simp: upt andThen_Inr)
    also have "\<dots> \<longleftrightarrow> slot_at_next r 0 = 0 \<and> ys = acc \<and> has (adv 1 r) (replicate k 0) \<and> r' = adv (Suc k) r"
      using Suc.IH [of acc "Suc i" "adv 1 r"] Suc.prems acc False by auto
    finally show ?thesis
      using acc by (auto simp: has_Cons)
  qed
qed

end

sublocale slot_kind < lists: slot_codec False "list_write to_slot cap" "list_read from_slot cap"
  "words_list to_slot cap" "list_valid good cap"
proof
  show "w_split w = False \<Longrightarrow> list_write to_slot cap xs w = fold put (words_list to_slot cap xs) w" for w xs
    by (simp add: list_write_def words_list_def w_usize_def write_items)
next
  fix r :: reader and z
  assume "r_split r = False"
  show "list_read from_slot cap r = Inr z \<longleftrightarrow>
      (\<exists>xs. z = (xs, adv (length (words_list to_slot cap xs)) r) \<and> list_valid good cap xs \<and> has r (words_list to_slot cap xs))"
  proof (cases z)
    case (Pair ys r')
    have "list_read from_slot cap r = Inr z \<longleftrightarrow>
        (\<exists>n\<le>cap. slot_at_next r 0 = of_nat n \<and> list_items from_slot cap (of_nat n) [0..<cap] [] (adv 1 r) = Inr (ys, r'))"
      using le_cap [of "slot_at_next r 0"] by (auto simp: list_read_def andThen_Inr Pair)
    also have "\<dots> \<longleftrightarrow> length ys \<le> cap \<and> slot_at_next r 0 = of_nat (length ys) \<and> (\<forall>x\<in>set ys. good x) \<and>
        has (adv 1 r) (map to_slot ys @ replicate (cap - length ys) 0) \<and> r' = adv (Suc cap) r"
      using items_iff [of "[]" 0 _ cap "adv 1 r" ys r'] by auto
    finally show ?thesis
      by (auto simp: Pair words_list_def list_valid_def has_Cons)
  qed
qed

section \<open>Bodies and records\<close>

lemma read_each_raw: "read_each n raw r = Inr (ws, r') \<longleftrightarrow> length ws = n \<and> has r ws \<and> r' = adv n r"
proof (induction n arbitrary: ws r)
  case (Suc n)
  then show ?case
    by (cases ws) (auto simp: andThen_Inr has_Cons)
qed auto

definition words_body :: "('h \<Rightarrow> u64) \<Rightarrow> 'h body_of \<Rightarrow> u64 list" where
  "words_body to_slot b = b_words b @ words_list to_slot MAX_MSG_HANDLES (b_handles b)"

definition body_valid :: "('h \<Rightarrow> bool) \<Rightarrow> 'h body_of \<Rightarrow> bool" where
  "body_valid good b \<longleftrightarrow> length (b_words b) = WORDS \<and> list_valid good MAX_MSG_HANDLES (b_handles b)"

lemma fold_w_usize: "fold w_usize ws w = fold put ws w"
  by (induction ws arbitrary: w) (simp_all add: w_usize_def)

lemma fold_w_u64: "\<not> w_split w \<Longrightarrow> fold w_u64 ws w = fold put ws w"
  by (induction ws arbitrary: w) (simp_all add: w_u64_def)

lemma ex_body: "(\<exists>b. P b) \<longleftrightarrow> (\<exists>ws hs. P \<lparr>b_words = ws, b_handles = hs\<rparr>)"
  by (metis body_of.cases)

locale handle_kind = slot_kind to_slot from_slot good MAX_MSG_HANDLES
  for to_slot :: "'h \<Rightarrow> u64" and from_slot :: "u64 \<Rightarrow> error + 'h" and good :: "'h \<Rightarrow> bool"

sublocale handle_kind < bodies: slot_codec False "body_write to_slot" "body_read from_slot" "words_body to_slot"
  "body_valid good"
proof
  show "w_split w = False \<Longrightarrow> body_write to_slot b w = fold put (words_body to_slot b) w" for w b
    by (simp add: body_write_def words_body_def fold_w_usize lists.write_words)
next
  fix r :: reader and z
  assume "r_split r = False"
  then show "body_read from_slot r = Inr z \<longleftrightarrow>
      (\<exists>b. z = (b, adv (length (words_body to_slot b)) r) \<and> body_valid good b \<and> has r (words_body to_slot b))"
    by (auto simp: body_read_def words_body_def body_valid_def andThen_Inr r_usize_def read_each_raw lists.read_iff
        has_append ex_body)
qed

interpretation labels: slot_kind id u64_from_slot "\<lambda>_. True" MAX_LABELS
  by unfold_locales (auto simp: u64_from_slot_def MAX_LABELS_def)

interpretation sent: handle_kind handle_to_raw handle_from_raw "\<lambda>h. index h \<noteq> 0"
  by unfold_locales (auto simp: handle_from_raw_Inr handle_to_raw_def MAX_MSG_HANDLES_def)

abbreviation opt_good :: "handle option \<Rightarrow> bool" where
  "opt_good h \<equiv> pred_option (\<lambda>h. index h \<noteq> 0) h"

interpretation got: handle_kind opt_handle_to_slot opt_handle_from_slot opt_good
proof
  show "opt_handle_from_slot v = Inr x \<longleftrightarrow> opt_good x \<and> v = opt_handle_to_slot x" for v x
    by (cases x) (auto simp: opt_handle_from_slot_def opt_handle_to_slot_def map_sum_Inr handle_from_raw_Inr
        handle_to_raw_def slot_u32_zero)
  show "MAX_MSG_HANDLES < 2 ^ 64"
    by (simp add: MAX_MSG_HANDLES_def)
qed

definition words_usage :: "usage \<Rightarrow> u64 list" where
  "words_usage u =
     [pages_limit u, pages_usage u, ucast (processes_limit u), ucast (processes_usage u), ucast (weight_limit u),
      ucast (weight_carved u)]"

lemma record_u64: "\<not> w_split w \<Longrightarrow> w_u64 v w = put v w" "\<not> r_split r \<Longrightarrow> r_u64 r = Inr z \<longleftrightarrow> z = (slot_at_next r 0, adv 1 r)"
  by (auto simp: w_u64_def r_u64_def andThen_Inr)

interpretation usage: slot_codec False usage_write usage_read words_usage "\<lambda>_. True"
proof
  show "w_split w = False \<Longrightarrow> usage_write u w = fold put (words_usage u) w" for w u
    by (simp add: usage_write_def words_usage_def record_u64 w_u32_def)
next
  fix r :: reader and z
  assume r: "r_split r = False"
  have ex: "(\<exists>u. P u) \<longleftrightarrow> (\<exists>a b c d e f. P \<lparr>pages_limit = a, pages_usage = b, processes_limit = c, processes_usage = d,
      weight_limit = e, weight_carved = f\<rparr>)" for P
    by (metis usage.cases)
  show "usage_read r = Inr z \<longleftrightarrow> (\<exists>u. z = (u, adv (length (words_usage u)) r) \<and> True \<and> has r (words_usage u))"
    unfolding ex using r
    by (auto simp: usage_read_def words_usage_def andThen_Inr record_u64 r_u32_iff has_Cons)
qed

definition words_spec :: "budget_spec \<Rightarrow> u64 list" where
  "words_spec s =
     [s_pages s, ucast (s_processes s), ucast (s_weight s)] @ words_list id MAX_LABELS (s_labels s) @
     [s_account s, s_deadline s]"

definition labels_valid :: "u64 list \<Rightarrow> bool" where
  "labels_valid ls \<longleftrightarrow> length ls \<le> MAX_LABELS"

lemma labels_list_valid: "list_valid (\<lambda>_. True) MAX_LABELS ls \<longleftrightarrow> labels_valid ls"
  by (simp add: list_valid_def labels_valid_def)

lemmas labels_codec = labels.lists.write_words [simplified] labels.lists.read_iff [simplified, unfolded labels_list_valid]

interpretation spec: slot_codec False spec_write spec_read words_spec "\<lambda>s. labels_valid (s_labels s)"
proof
  show "w_split w = False \<Longrightarrow> spec_write s w = fold put (words_spec s) w" for w s
    by (simp add: spec_write_def words_spec_def record_u64 w_u32_def labels_codec)
next
  fix r :: reader and z
  assume r: "r_split r = False"
  have ex: "(\<exists>u. P u) \<longleftrightarrow> (\<exists>a b c d e f. P \<lparr>s_pages = a, s_processes = b, s_weight = c, s_labels = d,
      s_account = e, s_deadline = f\<rparr>)" for P
    by (metis budget_spec.cases)
  show "spec_read r = Inr z \<longleftrightarrow>
      (\<exists>s. z = (s, adv (length (words_spec s)) r) \<and> labels_valid (s_labels s) \<and> has r (words_spec s))"
    unfolding ex using r
    by (auto simp: spec_read_def words_spec_def andThen_Inr record_u64 r_u32_iff has_Cons has_append labels_codec)
qed

definition words_first :: "first_half_rec \<Rightarrow> u64 list" where
  "words_first f =
     (case f of
        FirstReply mid b \<Rightarrow> [mid, 0, 0, 0] @ words_body handle_to_raw b
      | FirstSend endpoint timeout transfer b \<Rightarrow>
          [handle_to_raw endpoint, timeout] @ words_pages transfer @ words_body handle_to_raw b)"

definition first_valid :: "bool \<Rightarrow> first_half_rec \<Rightarrow> bool" where
  "first_valid send f =
     (case f of
        FirstReply mid b \<Rightarrow> \<not> send \<and> mid \<noteq> 0 \<and> body_valid (\<lambda>h. index h \<noteq> 0) b
      | FirstSend endpoint timeout transfer b \<Rightarrow>
          send \<and> index endpoint \<noteq> 0 \<and> pages_valid transfer \<and> body_valid (\<lambda>h. index h \<noteq> 0) b)"

lemmas sent_codec = sent.bodies.write_words [simplified] sent.bodies.read_iff [simplified]

interpretation first: slot_codec False first_write "first_read send" words_first "first_valid send" for send
proof
  show "w_split w = False \<Longrightarrow> first_write f w = fold put (words_first f) w" for w f
    by (simp add: first_write_def words_first_def record_u64 sent_codec arg_pages.write_words words_pages_def
        split: first_half_rec.split)
next
  fix r :: reader and z
  assume r: "r_split r = False"
  have ex: "(\<exists>f. P f) \<longleftrightarrow> (\<exists>m b. P (FirstReply m b)) \<or> (\<exists>e t p b. P (FirstSend e t p b))" for P
    by (metis first_half_rec.exhaust)
  show "first_read send r = Inr z \<longleftrightarrow>
      (\<exists>f. z = (f, adv (length (words_first f)) r) \<and> first_valid send f \<and> has r (words_first f))"
  proof (cases send)
    case True
    then show ?thesis
      unfolding ex using r
      by (auto simp: first_read_def words_first_def first_valid_def andThen_Inr record_u64 has_Cons has_append sent_codec
          arg_pages.read_iff [OF refl] handle_from_raw_Inr handle_to_raw_def)
  next
    case False
    then show ?thesis
      unfolding ex using r
      by (auto simp: first_read_def words_first_def first_valid_def andThen_Inr has_Cons has_append sent_codec)
  qed
qed

definition words_fields :: "fields \<Rightarrow> u64 list" where
  "words_fields f =
     [f_kind f, f_msg_id f, f_badge f, f_account f] @ words_list id MAX_LABELS (f_labels f) @ f_words f @
     words_list opt_handle_to_slot MAX_MSG_HANDLES (f_handles f) @ words_pages (f_pages f)"

definition fields_valid :: "fields \<Rightarrow> bool" where
  "fields_valid f \<longleftrightarrow>
     labels_valid (f_labels f) \<and> length (f_words f) = WORDS \<and> list_valid opt_good MAX_MSG_HANDLES (f_handles f) \<and>
     pages_valid (f_pages f)"

lemmas got_codec = got.lists.write_words [simplified] got.lists.read_iff [simplified]

interpretation fields: slot_codec False fields_write fields_read words_fields fields_valid
proof
  show "w_split w = False \<Longrightarrow> fields_write f w = fold put (words_fields f) w" for w f
    by (simp add: fields_write_def words_fields_def record_u64 labels_codec got_codec arg_pages.write_words fold_w_u64)
next
  fix r :: reader and z
  assume r: "r_split r = False"
  have ex: "(\<exists>u. P u) \<longleftrightarrow> (\<exists>a b c d e f g h. P \<lparr>f_kind = a, f_msg_id = b, f_badge = c, f_account = d,
      f_labels = e, f_words = f, f_handles = g, f_pages = h\<rparr>)" for P
    by (metis fields.cases)
  show "fields_read r = Inr z \<longleftrightarrow>
      (\<exists>f. z = (f, adv (length (words_fields f)) r) \<and> fields_valid f \<and> has r (words_fields f))"
    unfolding ex using r
    by (auto simp: fields_read_def words_fields_def fields_valid_def andThen_Inr has_Cons has_append labels_codec got_codec
        read_each_raw arg_pages.read_iff [OF refl])
qed

section \<open>Whole records\<close>

lemma words_pages_length [simp]: "length (words_pages ps) = 2"
  by (simp add: words_pages_def split: option.split)

lemma decode_whole:
  "map_sum id fst (whole rd (reader_record slots)) = Inr x \<longleftrightarrow>
    (\<exists>r'. whole rd \<lparr>r_slots = slots, r_next = 0, r_split = False\<rparr> = Inr (x, r'))"
  by (auto simp: reader_record_def map_sum_Inr)

lemma usage_decode_iff:
  assumes "length slots = USAGE_SLOTS"
  shows "usage_decode slots = Inr u \<longleftrightarrow> slots = usage_encode u"
  using usage.whole_iff [of u slots] assms
  by (simp add: usage_decode_def decode_whole usage_encode_def writer_record_def words_usage_def USAGE_SLOTS_def)

lemma spec_decode_iff:
  assumes "length slots = BUDGET_SPEC_SLOTS"
  shows "spec_decode slots = Inr s \<longleftrightarrow> labels_valid (s_labels s) \<and> slots = spec_encode s"
  using spec.whole_iff [of s slots] assms
  by (simp add: spec_decode_def decode_whole spec_encode_def writer_record_def words_spec_def BUDGET_SPEC_SLOTS_def)

lemma first_decode_iff:
  assumes "length slots = FIRST_SLOTS"
  shows "first_decode send slots = Inr f \<longleftrightarrow> first_valid send f \<and> slots = first_encode f"
proof -
  have "first_valid send f \<Longrightarrow> length (words_first f) = FIRST_SLOTS"
    by (auto simp: words_first_def first_valid_def words_body_def body_valid_def FIRST_SLOTS_def BODY_SLOTS_def
        split: first_half_rec.splits)
  then show ?thesis
    using first.whole_iff [of send f slots] assms
    by (simp add: first_decode_def decode_whole first_encode_def writer_record_def)
qed

lemma body_sent_decode_iff:
  assumes "length slots = BODY_SLOTS"
  shows "body_decode handle_from_raw slots = Inr b \<longleftrightarrow>
    body_valid (\<lambda>h. index h \<noteq> 0) b \<and> slots = body_encode handle_to_raw b"
  using sent.bodies.whole_iff [of b slots] assms
  by (simp add: body_decode_def decode_whole body_encode_def writer_record_def words_body_def body_valid_def BODY_SLOTS_def)

lemma body_got_decode_iff:
  assumes "length slots = BODY_SLOTS"
  shows "body_decode opt_handle_from_slot slots = Inr b \<longleftrightarrow> body_valid opt_good b \<and> slots = body_encode opt_handle_to_slot b"
  using got.bodies.whole_iff [of b slots] assms
  by (simp add: body_decode_def decode_whole body_encode_def writer_record_def words_body_def body_valid_def BODY_SLOTS_def)

section \<open>What receive returns\<close>

lemma stray_iff: "stray (a, b) slots \<longleftrightarrow> (\<exists>i<length slots. 0 < i \<and> slots ! i \<noteq> 0 \<and> \<not> (a \<le> i \<and> i < b))"
proof -
  have "drop 1 (enumerate 0 slots) = enumerate 1 (drop 1 slots)"
    by (cases slots) simp_all
  then have "(i, v) \<in> set (drop 1 (enumerate 0 slots)) \<longleftrightarrow> 0 < i \<and> i < length slots \<and> v = slots ! i" for i v
    by (cases i) (auto simp: in_set_enumerate_eq)
  then show ?thesis
    unfolding stray_def list_ex_iff by auto
qed

lemma stray_parts:
  assumes "slots = k # xs @ ys @ zs" "a = Suc (length xs)" "b = a + length ys"
  shows "stray (a, b) slots \<longleftrightarrow> \<not> ((\<forall>v\<in>set xs. v = 0) \<and> (\<forall>v\<in>set zs. v = 0))"
proof -
  have "(\<exists>i<length slots. 0 < i \<and> slots ! i \<noteq> 0 \<and> \<not> (a \<le> i \<and> i < b)) \<longleftrightarrow>
      (\<exists>i<length xs. xs ! i \<noteq> 0) \<or> (\<exists>i<length zs. zs ! i \<noteq> 0)" (is "?L \<longleftrightarrow> ?R")
  proof
    assume ?L
    then obtain i where i: "i < length slots" "0 < i" "slots ! i \<noteq> 0" "\<not> (a \<le> i \<and> i < b)"
      by blast
    then obtain j where j: "i = Suc j"
      using gr0_conv_Suc by blast
    show ?R
    proof (cases "i < a")
      case True
      with i j assms have "xs ! j \<noteq> 0" "j < length xs"
        by (auto simp: nth_append)
      then show ?thesis
        by blast
    next
      case False
      with i(4) j assms have "\<not> j < length xs" "\<not> j - length xs < length ys"
        by auto
      with i j assms have "zs ! (j - length xs - length ys) \<noteq> 0" "j - length xs - length ys < length zs"
        by (auto simp: nth_append)
      then show ?thesis
        by blast
    qed
  next
    assume ?R
    then consider i where "i < length xs" "xs ! i \<noteq> 0" | i where "i < length zs" "zs ! i \<noteq> 0"
      by blast
    then show ?L
    proof cases
      case 1
      with assms show ?thesis
        by (intro exI [of _ "Suc i"]) (auto simp: nth_append)
    next
      case 2
      with assms show ?thesis
        by (intro exI [of _ "b + i"]) (auto simp: nth_append)
    qed
  qed
  moreover have "(\<forall>v\<in>set l. v = 0) \<longleftrightarrow> \<not> (\<exists>i<length l. l ! i \<noteq> 0)" for l :: "u64 list"
    by (auto simp: all_set_conv_all_nth)
  ultimately show ?thesis
    unfolding stray_iff by blast
qed

definition received_valid :: "received \<Rightarrow> bool" where
  "received_valid rc =
     (case rc of
        RMessage m \<Rightarrow>
          m_id m \<noteq> 0 \<and> labels_valid (m_labels m) \<and> body_valid opt_good (m_body m) \<and>
          (case m_kind m of KindCall ps \<Rightarrow> pages_valid ps | KindSend ps \<Rightarrow> pages_valid ps)
      | RInterrupt \<Rightarrow> True
      | RExit n \<Rightarrow> labels_valid (blamed_labels n)
      | RAbandoned i \<Rightarrow> i \<noteq> 0)"

lemmas kinds = KIND_CALL_def KIND_SEND_def KIND_INTERRUPT_def KIND_EXIT_def KIND_ABANDONED_def

lemma zero_list: "list_valid good cap xs \<Longrightarrow> cap < 2 ^ 64 \<Longrightarrow> (\<forall>v\<in>set (words_list to_slot cap xs). v = 0) \<longleftrightarrow> xs = []"
  using unat_small [of "length xs"] by (auto simp: words_list_def list_valid_def)

lemma zero_pages: "pages_valid ps \<Longrightarrow> (\<forall>v\<in>set (words_pages ps). v = 0) \<longleftrightarrow> ps = None"
  by (auto simp: words_pages_def pages_valid_def split: option.splits)

lemma zero_words: "length ws = n \<Longrightarrow> (\<forall>v\<in>set ws. v = 0) \<longleftrightarrow> ws = replicate n (0 :: u64)"
  by (induction ws arbitrary: n) auto

lemma received_fields_valid: "received_valid rc \<Longrightarrow> fields_valid (received_fields rc)"
  by (auto simp: received_valid_def received_fields_def fields_valid_def fields_default_def body_valid_def WORDS_def
      labels_valid_def list_valid_def pages_valid_def split: received.splits message_kind.splits)

lemma received_fields_kind: "filled_range (f_kind (received_fields rc)) \<noteq> None"
  by (auto simp: received_fields_def filled_range_def split: received.splits message_kind.splits)

text \<open>Each kind's fields, given that no slot outside the kind's range is set.\<close>

lemma tail_zero:
  assumes "fields_valid f"
  shows "(\<forall>v\<in>set (words_list opt_handle_to_slot MAX_MSG_HANDLES (f_handles f) @ words_pages (f_pages f)). v = 0) \<longleftrightarrow>
      f_handles f = [] \<and> f_pages f = None"
    and "(\<forall>v\<in>set (words_list id MAX_LABELS (f_labels f) @ f_words f @
      words_list opt_handle_to_slot MAX_MSG_HANDLES (f_handles f) @ words_pages (f_pages f)). v = 0) \<longleftrightarrow>
      f_labels f = [] \<and> f_words f = replicate WORDS 0 \<and> f_handles f = [] \<and> f_pages f = None"
  using assms zero_list [of opt_good MAX_MSG_HANDLES "f_handles f" opt_handle_to_slot] zero_pages [of "f_pages f"]
    zero_list [of "\<lambda>_. True" MAX_LABELS "f_labels f" id] zero_words [of "f_words f" WORDS]
  by (auto simp: fields_valid_def MAX_MSG_HANDLES_def MAX_LABELS_def labels_list_valid [symmetric] ball_Un)

lemma cause_of_Inr: "cause_of v = Inr c \<longleftrightarrow> v = cause_code c"
  by (cases c) (auto simp: cause_of_def)

lemma four_words: "length ws = WORDS \<Longrightarrow> \<exists>a b c d. ws = [a, b, c, d]" for ws :: "u64 list"
  by (auto simp: WORDS_def length_Suc_conv eval_nat_numeral)

lemma words_fields_length: "fields_valid f \<Longrightarrow> length (words_fields f) = RECEIVED_SLOTS"
  by (simp add: fields_valid_def words_fields_def RECEIVED_SLOTS_def BODY_SLOTS_def)

lemma stray_interrupt:
  assumes "fields_valid f"
  shows "stray (1, 1) (words_fields f) \<longleftrightarrow> \<not> (f = fields_default\<lparr>f_kind := f_kind f\<rparr>)"
proof -
  define t where "t = words_list id MAX_LABELS (f_labels f) @ f_words f @
    words_list opt_handle_to_slot MAX_MSG_HANDLES (f_handles f) @ words_pages (f_pages f)"
  have "words_fields f = f_kind f # [] @ [] @ ([f_msg_id f, f_badge f, f_account f] @ t)"
    by (simp add: words_fields_def t_def)
  from stray_parts [OF this, of 1 1]
  have "stray (1, 1) (words_fields f) \<longleftrightarrow>
      \<not> (f_msg_id f = 0 \<and> f_badge f = 0 \<and> f_account f = 0 \<and> f_labels f = [] \<and> f_words f = replicate WORDS 0 \<and>
          f_handles f = [] \<and> f_pages f = None)"
    using tail_zero(2) [OF assms, folded t_def] by simp
  then show ?thesis
    by (cases f) (simp add: fields_default_def)
qed

lemma stray_abandoned:
  assumes "fields_valid f"
  shows "stray (1, 2) (words_fields f) \<longleftrightarrow> \<not> (f = fields_default\<lparr>f_kind := f_kind f, f_msg_id := f_msg_id f\<rparr>)"
proof -
  define t where "t = words_list id MAX_LABELS (f_labels f) @ f_words f @
    words_list opt_handle_to_slot MAX_MSG_HANDLES (f_handles f) @ words_pages (f_pages f)"
  have "words_fields f = f_kind f # [] @ [f_msg_id f] @ ([f_badge f, f_account f] @ t)"
    by (simp add: words_fields_def t_def)
  from stray_parts [OF this, of 1 2]
  have "stray (1, 2) (words_fields f) \<longleftrightarrow>
      \<not> (f_badge f = 0 \<and> f_account f = 0 \<and> f_labels f = [] \<and> f_words f = replicate WORDS 0 \<and>
          f_handles f = [] \<and> f_pages f = None)"
    using tail_zero(2) [OF assms, folded t_def] by simp
  then show ?thesis
    by (cases f) (simp add: fields_default_def)
qed

lemma stray_exit:
  assumes "fields_valid f"
  shows "stray (ACCOUNT, WORD0 + 3) (words_fields f) \<longleftrightarrow>
    \<not> (f = fields_default\<lparr>f_kind := f_kind f, f_account := f_account f, f_labels := f_labels f,
          f_words := take 3 (f_words f) @ [0]\<rparr>)"
proof -
  define t where "t = words_list opt_handle_to_slot MAX_MSG_HANDLES (f_handles f) @ words_pages (f_pages f)"
  have "length (f_words f) = WORDS"
    using assms by (simp add: fields_valid_def)
  then obtain a b c d where ws: "f_words f = [a, b, c, d]"
    using four_words by blast
  have "words_fields f = f_kind f # [f_msg_id f, f_badge f] @
      (f_account f # words_list id MAX_LABELS (f_labels f) @ [a, b, c]) @ (d # t)"
    by (simp add: words_fields_def ws t_def)
  from stray_parts [OF this, of ACCOUNT "WORD0 + 3"]
  have "stray (ACCOUNT, WORD0 + 3) (words_fields f) \<longleftrightarrow>
      \<not> (f_msg_id f = 0 \<and> f_badge f = 0 \<and> d = 0 \<and> f_handles f = [] \<and> f_pages f = None)"
    using tail_zero(1) [OF assms, folded t_def] by (simp add: ACCOUNT_def WORD0_def)
  with ws show ?thesis
    by (cases f) (simp add: fields_default_def)
qed

lemma stray_message: "fields_valid f \<Longrightarrow> \<not> stray (1, RECEIVED_SLOTS) (words_fields f)"
  using words_fields_length [of f] by (auto simp: stray_iff)

lemma received_of_fields_sound:
  assumes "fields_valid f" "filled_range (f_kind f) = Some rng" "\<not> stray rng (words_fields f)"
    "received_of_fields f r = Inr (rc, r')"
  shows "received_valid rc \<and> f = received_fields rc"
proof -
  consider "f_kind f = KIND_CALL \<or> f_kind f = KIND_SEND" | "f_kind f = KIND_INTERRUPT" "rng = (1, 1)"
    | "f_kind f = KIND_EXIT" "rng = (ACCOUNT, WORD0 + 3)" | "f_kind f = KIND_ABANDONED" "rng = (1, 2)"
    using assms(2) by (auto simp: filled_range_def split: if_splits)
  then show ?thesis
  proof cases
    case 1
    then show ?thesis
      using assms(1,4) by (cases f) (auto simp: received_of_fields_def received_fields_def received_valid_def fields_valid_def
          body_valid_def andThen_Inr kinds split: if_splits)
  next
    case 2
    then have "f = fields_default\<lparr>f_kind := KIND_INTERRUPT\<rparr>"
      using assms(3) stray_interrupt [OF assms(1)] by simp
    with 2 show ?thesis
      using assms(4) by (auto simp: received_of_fields_def received_fields_def received_valid_def kinds)
  next
    case 3
    then have f: "f = fields_default\<lparr>f_kind := KIND_EXIT, f_account := f_account f, f_labels := f_labels f,
            f_words := take 3 (f_words f) @ [0]\<rparr>"
      using assms(3) stray_exit [OF assms(1)] by simp
    have len: "length (f_words f) = WORDS" and ls: "labels_valid (f_labels f)"
      using assms(1) by (auto simp: fields_valid_def)
    obtain a b c d where ws: "f_words f = [a, b, c, d]"
      using four_words [OF len] by blast
    obtain p ca co where rc: "rc = RExit \<lparr>x_pid = p, x_cause = ca, x_code = co, blamed_account = f_account f,
        blamed_labels = f_labels f\<rparr>" "a = ucast p" "b = cause_code ca" "c = ucast co"
      using 3 assms(4) ws
      by (auto simp: received_of_fields_def andThen_Inr kinds u32_try_from_Some cause_of_Inr)
    have "received_fields rc = fields_default\<lparr>f_kind := KIND_EXIT, f_account := f_account f, f_labels := f_labels f,
            f_words := take 3 (f_words f) @ [0]\<rparr>"
      by (simp add: rc received_fields_def ws)
    with f ls show ?thesis
      by (simp add: rc received_valid_def)
  next
    case 4
    then have f: "f = fields_default\<lparr>f_kind := KIND_ABANDONED, f_msg_id := f_msg_id f\<rparr>"
      using assms(3) stray_abandoned [OF assms(1)] by simp
    with 4 show ?thesis
      using assms(4) by (auto simp: received_of_fields_def received_fields_def received_valid_def andThen_Inr kinds
          split: if_splits)
  qed
qed

lemma received_of_fields_words:
  assumes "received_valid rc"
  shows "received_of_fields (received_fields rc) r = Inr (rc, r) \<and>
    (\<exists>rng. filled_range (f_kind (received_fields rc)) = Some rng \<and> \<not> stray rng (words_fields (received_fields rc)))"
proof -
  note valid = received_fields_valid [OF assms]
  show ?thesis
  proof (cases rc)
    case (RMessage m)
    then show ?thesis
      using assms stray_message [OF valid]
      by (cases m; cases "m_body m"; cases "m_kind m")
        (auto simp: received_of_fields_def received_fields_def received_valid_def filled_range_def andThen_Inr kinds)
  next
    case RInterrupt
    then show ?thesis
      using stray_interrupt [OF valid]
      by (simp add: received_of_fields_def received_fields_def filled_range_def kinds)
  next
    case (RExit n)
    then show ?thesis
      using stray_exit [OF valid]
      by (cases n) (auto simp: received_of_fields_def received_fields_def filled_range_def andThen_Inr kinds
          u32_try_from_Some cause_of_Inr)
  next
    case (RAbandoned i)
    then show ?thesis
      using assms stray_abandoned [OF valid]
      by (auto simp: received_of_fields_def received_fields_def received_valid_def filled_range_def andThen_Inr kinds)
  qed
qed

lemma received_of_fields_any: "received_of_fields f r = Inr (rc, r') \<Longrightarrow> received_of_fields f q = Inr (rc, q)"
  by (auto simp: received_of_fields_def andThen_Inr Let_def split: if_splits)

lemma received_decode_iff:
  assumes "length slots = RECEIVED_SLOTS"
  shows "received_decode slots = Inr rc \<longleftrightarrow> received_valid rc \<and> slots = received_encode rc"
proof -
  let ?r = "\<lparr>r_slots = slots, r_next = 0, r_split = False\<rparr>"
  have whole: "(\<exists>r'. whole fields_read ?r = Inr (f, r')) \<longleftrightarrow>
      fields_valid f \<and> slots = w_slots (fields_write f (writer_record (replicate RECEIVED_SLOTS 0)))" for f
    using fields.whole_iff [of f slots] words_fields_length [of f] assms by (simp add: writer_record_def)
  have enc: "w_slots (fields_write f (writer_record (replicate RECEIVED_SLOTS 0))) = words_fields f" if "fields_valid f" for f
    using words_fields_length [OF that] fold_put(1) [of "writer_record (replicate RECEIVED_SLOTS 0)" "words_fields f"]
    by (simp add: fields.write_words writer_record_def)
  have "received_decode slots = Inr rc \<longleftrightarrow>
      (\<exists>rng f. filled_range (slots ! 0) = Some rng \<and> \<not> stray rng slots \<and> fields_valid f \<and> slots = words_fields f \<and>
        (\<exists>r r'. received_of_fields f r = Inr (rc, r')))" (is "_ \<longleftrightarrow> ?D")
  proof -
    have "(\<exists>r'. andThen (whole fields_read) received_of_fields ?r = Inr (rc, r')) \<longleftrightarrow>
        (\<exists>f q. whole fields_read ?r = Inr (f, q) \<and> (\<exists>r'. received_of_fields f q = Inr (rc, r')))"
      by (auto simp: andThen_Inr)
    also have "\<dots> \<longleftrightarrow> (\<exists>f. (\<exists>q. whole fields_read ?r = Inr (f, q)) \<and> (\<exists>r r'. received_of_fields f r = Inr (rc, r')))"
      using received_of_fields_any by meson
    finally show ?thesis
      using whole enc by (auto simp: received_decode_def reader_record_def map_sum_Inr split: option.split)
  qed
  also have "?D \<longleftrightarrow> received_valid rc \<and> slots = words_fields (received_fields rc)"
    using received_of_fields_sound received_of_fields_words received_fields_valid by (fastforce simp: words_fields_def)
  also have "\<dots> \<longleftrightarrow> received_valid rc \<and> slots = received_encode rc"
    using enc received_fields_valid by (auto simp: received_encode_def)
  finally show ?thesis .
qed

end

