(* ===== verification/Sys_Range.thy ===== *)
theory Sys_Range
  imports Sys_Regs
begin

text \<open>
  The ranges of the memory calls (\<open>libs/sys/src/lib.rs\<close>): how a caller splits a long range into
  calls of at most \<open>MAX_RANGE_PAGES\<close> pages, and the kernel's cap on one call's range.
\<close>

definition PAGE_SIZE :: u64 where
  "PAGE_SIZE = 4096"

definition MAX_RANGE_PAGES :: u64 where
  "MAX_RANGE_PAGES = 16"

definition RANGE :: u64 where
  "RANGE = MAX_RANGE_PAGES * PAGE_SIZE"

text \<open>\<open>(0..n).step_by(s)\<close>.\<close>

definition step_by :: "nat \<Rightarrow> nat \<Rightarrow> nat list" where
  "step_by n s = map (\<lambda>k. k * s) [0..<(n + s - 1) div s]"

definition range_chunks :: "u64 \<Rightarrow> u64 \<Rightarrow> (u64 \<times> u64) list" where
  "range_chunks addr len =
     map (\<lambda>done. (addr + of_nat done, min (len - of_nat done) RANGE)) (step_by (unat (max len 1)) (unat RANGE))"

definition range_cap :: "u64 \<Rightarrow> error + unit" where
  "range_cap len = (if len div PAGE_SIZE > MAX_RANGE_PAGES then Inl TooLarge else Inr ())"

section \<open>The chunks cover the range\<close>

definition addresses :: "u64 \<times> u64 \<Rightarrow> nat list" where
  "addresses c = [unat (fst c)..<unat (fst c) + unat (snd c)]"

lemma chunks_cover: "concat (map (\<lambda>k. [a + k * s..<a + k * s + min (n - k * s) s]) [0..<j]) = [a..<a + min n (j * s)]"
proof (induction j)
  case (Suc j)
  show ?case
  proof (cases "n \<le> j * s")
    case True
    with Suc show ?thesis
      by (simp add: min_absorb1)
  next
    case False
    then have "a + j * s + min (n - j * s) s = a + min n (Suc j * s)"
      by (auto simp: min_def)
    then have "[a..<a + j * s] @ [a + j * s..<a + j * s + min (n - j * s) s] = [a..<a + min n (Suc j * s)]"
      using upt_add_eq_append [of a "a + j * s" "min (n - j * s) s"] by (metis le_add1)
    with Suc False show ?thesis
      by simp
  qed
qed simp

lemma RANGE_unat: "unat RANGE = 65536"
  by (simp add: RANGE_def MAX_RANGE_PAGES_def PAGE_SIZE_def)

lemma addresses_chunk:
  assumes "unat addr + unat len < 2 ^ 64" "d \<le> unat len"
  shows "addresses (addr + of_nat d, min (len - of_nat d) RANGE) =
    [unat addr + d..<unat addr + d + min (unat len - d) (unat RANGE)]"
proof -
  have d: "unat (of_nat d :: u64) = d"
    using assms by (simp add: unsigned_of_nat take_bit_nat_eq_self)
  have "unat (addr + of_nat d) = unat addr + d"
    using assms d by (simp add: unat_word_ariths)
  moreover have "unat (len - of_nat d) = unat len - d"
    using assms d by (simp add: unat_sub word_le_nat_alt)
  moreover have "unat (min x y) = min (unat x) (unat y)" for x y :: u64
    by (simp add: min_def word_le_nat_alt)
  ultimately show ?thesis
    by (simp add: addresses_def)
qed

lemma steps_bound:
  assumes "k \<in> set [0..<(max n 1 + s - 1) div s]" "0 < s"
  shows "k * s \<le> n"
proof -
  have "(k + 1) * s \<le> max n 1 + s - 1"
    using assms by (metis Suc_eq_plus1 Suc_leI atLeastLessThan_iff less_eq_div_iff_mult_less_eq set_upt)
  then show ?thesis
    using assms by (cases k) auto
qed

lemma range_chunks_addresses:
  assumes "unat addr + unat len < 2 ^ 64"
  shows "concat (map addresses (range_chunks addr len)) = [unat addr..<unat addr + unat len]"
proof -
  let ?n = "unat len" and ?s = "unat RANGE"
  have m: "unat (max len 1) = max ?n 1"
    by (simp add: max_def word_le_nat_alt)
  let ?ks = "[0..<(max ?n 1 + ?s - 1) div ?s]"
  have "map addresses (range_chunks addr len) =
      map (\<lambda>k. [unat addr + k * ?s..<unat addr + k * ?s + min (?n - k * ?s) ?s]) ?ks"
    using addresses_chunk [OF assms] steps_bound [of _ ?n ?s] RANGE_unat
    by (simp add: range_chunks_def step_by_def m del: set_upt of_nat_mult)
  also have "concat \<dots> = [unat addr..<unat addr + min ?n ((max ?n 1 + ?s - 1) div ?s * ?s)]"
    by (rule chunks_cover)
  also have "min ?n ((max ?n 1 + ?s - 1) div ?s * ?s) = ?n"
    by (simp add: RANGE_unat)
  finally show ?thesis .
qed

lemma range_chunks_capped: "\<forall>c\<in>set (range_chunks addr len). range_cap (snd c) = Inr ()"
proof -
  have "x \<le> RANGE \<Longrightarrow> range_cap x = Inr ()" for x
    using word_le_nat_alt [of x RANGE]
    by (simp add: range_cap_def RANGE_unat word_less_nat_alt unat_div PAGE_SIZE_def MAX_RANGE_PAGES_def)
  then show ?thesis
    by (auto simp: range_chunks_def)
qed

end
