(* ===== verification/Sys_Abi.thy ===== *)
theory Sys_Abi
  imports Sys_Error Sys_Ret Sys_Record Sys_Range
begin

text \<open>
  The properties of the system call ABI: calls, results and records decode to exactly what was
  encoded, and no other slots decode at all; the errors of decoding are among those the error table
  gives the call; the chunks of a range cover it.
\<close>

section \<open>Calls\<close>

text \<open>
  C4: The registers \<open>decode\<close> accepts are exactly those \<open>encode\<close> writes for a well-formed call: every
  well-formed call survives the trip into the kernel, and no other register vector (a stray bit, an
  unknown number, a handle of 0) is taken for a call.
\<close>

theorem decode_canonical:
  assumes "length regs = REGS"
  shows "decode regs = Inr c \<longleftrightarrow> call_valid c \<and> regs = encode c"
  using assms by (rule decode_iff)

theorem decode_canonical_witness:
  "length [0x10E, 7, 4096, 8192, 2, 5, 1, 0 :: u64] = REGS \<and>
   decode [0x10E, 7, 4096, 8192, 2, 5, 1, 0] =
     Inr (Call (Handle 7) 4096 (Some \<lparr>p_addr = 8192, npages = 2\<rparr>) 0x100000005)"
proof
  show len: "length [0x10E, 7, 4096, 8192, 2, 5, 1, 0 :: u64] = REGS"
    by (simp add: REGS_def)
  have "encode (Call (Handle 7) 4096 (Some \<lparr>p_addr = 8192, npages = 2\<rparr>) 0x100000005) = [0x10E, 7, 4096, 8192, 2, 5, 1, 0]"
    by code_simp
  moreover have "call_valid (Call (Handle 7) 4096 (Some \<lparr>p_addr = 8192, npages = 2\<rparr>) 0x100000005)"
    by (simp add: pages_valid_def)
  ultimately show "decode [0x10E, 7, 4096, 8192, 2, 5, 1, 0] =
      Inr (Call (Handle 7) 4096 (Some \<lparr>p_addr = 8192, npages = 2\<rparr>) 0x100000005)"
    using decode_canonical [OF len, of "Call (Handle 7) 4096 (Some \<lparr>p_addr = 8192, npages = 2\<rparr>) 0x100000005"] by simp
qed

text \<open>
  C21: Whatever error decoding a call with a known number ends in is one the error table says the
  call can return, so the debug kernel's check of its own errors never fires on a decoding error.
\<close>

theorem decode_error_listed:
  assumes "length regs = REGS" "number_from_raw (regs ! 0) = Some n" "decode regs = Inl e"
  shows "can_return n e"
proof (rule decode_error_known)
  show "regs \<noteq> []"
    using assms(1) by (auto simp: REGS_def)
qed (fact assms)+

theorem decode_error_listed_witness:
  "decode [0x113, 0, 0, 0, 0, 0, 0, 0] = Inl BadHandle \<and> can_return NHandleClose BadHandle"
proof
  show d: "decode [0x113, 0, 0, 0, 0, 0, 0, 0] = Inl BadHandle"
    by code_simp
  have "length [0x113, 0, 0, 0, 0, 0, 0, 0 :: u64] = REGS" "number_from_raw ([0x113, 0, 0, 0, 0, 0, 0, 0] ! 0) = Some NHandleClose"
    by (simp add: REGS_def, code_simp)
  from decode_error_listed [OF this d] show "can_return NHandleClose BadHandle" .
qed

section \<open>Results\<close>

text \<open>
  C18: A result's registers decode, for the call they answer, to exactly the value the kernel
  encoded: the decoder of call \<open>n\<close> accepts a register vector as \<open>v\<close> precisely when \<open>v\<close> is a value
  \<open>n\<close> can have (a reply's mask within its handles, an outcome whose status, lend and reply agree)
  and the vector is its encoding.
\<close>

theorem decode_result_canonical:
  assumes "length regs = REGS"
  shows "decode_result n regs = Inr v \<longleftrightarrow> ret_ok n v \<and> regs = encode_result (Inr v)"
  using assms by (rule decode_result_iff)

theorem decode_result_canonical_witness:
  "length [13, 2, 0, 0, 0, 0, 0, 0 :: u64] = REGS \<and>
   decode_result NCall [13, 2, 0, 0, 0, 0, 0, 0] =
     Inr (RCall \<lparr>co_status = Inl Timeout, lend = LendConsumed, reply_present = False\<rparr>)"
proof
  let ?v = "RCall \<lparr>co_status = Inl Timeout, lend = LendConsumed, reply_present = False\<rparr>"
  show len: "length [13, 2, 0, 0, 0, 0, 0, 0 :: u64] = REGS"
    by (simp add: REGS_def)
  have "encode_result (Inr ?v) = [13, 2, 0, 0, 0, 0, 0, 0]"
    by code_simp
  moreover have "ret_ok NCall ?v"
    by (simp add: call_impossible_def)
  ultimately show "decode_result NCall [13, 2, 0, 0, 0, 0, 0, 0] = Inr ?v"
    using decode_result_canonical [OF len, of NCall ?v] by simp
qed

text \<open>
  C22: An error the kernel returns reaches the caller as that error, whatever the call: as the error
  itself, or for the three calls whose status is part of their value (\<open>call\<close>, \<open>reply_receive\<close> and
  \<open>send_receive\<close>) as the status of an outcome with no lend, no reply and no first half done.
\<close>

theorem decode_result_errors:
  "decode_result n (encode_result (Inl e)) =
     (if n = NCall then Inr (RCall \<lparr>co_status = Inl e, lend = LendNone, reply_present = False\<rparr>)
      else if n = NReplyReceive \<or> n = NSendReceive then Inr (RTurn \<lparr>to_status = Inl e, first_half = FirstNothing\<rparr>)
      else Inl e)"
  by (rule decode_result_any_error)

theorem decode_result_errors_witness:
  "decode_result NMint (encode_result (Inl LabelDenied)) = Inl LabelDenied \<and>
   decode_result NSendReceive (encode_result (Inl Dead)) = Inr (RTurn \<lparr>to_status = Inl Dead, first_half = FirstNothing\<rparr>)"
  using decode_result_errors [of NMint LabelDenied] decode_result_errors [of NSendReceive Dead] by simp

section \<open>Records\<close>

text \<open>
  C19: The receive record is two-sided: a 32-slot array decodes to \<open>rc\<close> exactly when \<open>rc\<close> is
  well-formed and the array is its encoding, whichever of the four kinds it is; a stray value in a
  slot the kind does not fill is refused.
\<close>

theorem received_canonical:
  assumes "length slots = RECEIVED_SLOTS"
  shows "received_decode slots = Inr rc \<longleftrightarrow> received_valid rc \<and> slots = received_encode rc"
  using assms by (rule received_decode_iff)

definition sample_exit :: received where
  "sample_exit =
     RExit \<lparr>x_pid = 9, x_cause = Faulted, x_code = 3, blamed_account = 77, blamed_labels = [5, 6]\<rparr>"

theorem received_canonical_witness:
  "length (received_encode sample_exit) = RECEIVED_SLOTS \<and> received_decode (received_encode sample_exit) = Inr sample_exit"
proof
  show len: "length (received_encode sample_exit) = RECEIVED_SLOTS"
    by code_simp
  have "received_valid sample_exit"
    by (simp add: sample_exit_def received_valid_def labels_valid_def MAX_LABELS_def)
  then show "received_decode (received_encode sample_exit) = Inr sample_exit"
    using received_canonical [OF len] by blast
qed

text \<open>
  C20: A turn's first half decodes, for the turn it belongs to, exactly from its own encoding: a
  reply's record is never taken for a send's, nor a record with an unused slot set for either.
\<close>

theorem first_half_canonical:
  assumes "length slots = FIRST_SLOTS"
  shows "first_decode send slots = Inr f \<longleftrightarrow> first_valid send f \<and> slots = first_encode f"
  using assms by (rule first_decode_iff)

definition sample_first :: first_half_rec where
  "sample_first = FirstSend (Handle 3) 1000 None \<lparr>b_words = [1, 2, 3, 4], b_handles = [Handle 8]\<rparr>"

theorem first_half_canonical_witness:
  "length (first_encode sample_first) = FIRST_SLOTS \<and> first_decode True (first_encode sample_first) = Inr sample_first"
proof
  show len: "length (first_encode sample_first) = FIRST_SLOTS"
    by code_simp
  have "first_valid True sample_first"
    by (simp add: sample_first_def first_valid_def pages_valid_def body_valid_def list_valid_def WORDS_def MAX_MSG_HANDLES_def)
  then show "first_decode True (first_encode sample_first) = Inr sample_first"
    using first_half_canonical [OF len] by blast
qed

text \<open>
  C23: A budget's specification decodes exactly from its own encoding, with at most \<open>MAX_LABELS\<close>
  labels.
\<close>

theorem spec_canonical:
  assumes "length slots = BUDGET_SPEC_SLOTS"
  shows "spec_decode slots = Inr s \<longleftrightarrow> length (s_labels s) \<le> MAX_LABELS \<and> slots = spec_encode s"
  using spec_decode_iff [OF assms] by (simp add: labels_valid_def)

definition sample_spec :: budget_spec where
  "sample_spec =
     \<lparr>s_pages = 64, s_processes = 2, s_weight = 10, s_labels = [4], s_account = 0, s_deadline = 0xFFFFFFFFFFFFFFFF\<rparr>"

theorem spec_canonical_witness:
  "length (spec_encode sample_spec) = BUDGET_SPEC_SLOTS \<and> spec_decode (spec_encode sample_spec) = Inr sample_spec"
proof
  show len: "length (spec_encode sample_spec) = BUDGET_SPEC_SLOTS"
    by code_simp
  have "length (s_labels sample_spec) \<le> MAX_LABELS"
    by (simp add: sample_spec_def MAX_LABELS_def)
  then show "spec_decode (spec_encode sample_spec) = Inr sample_spec"
    using spec_canonical [OF len] by blast
qed

section \<open>Ranges\<close>

text \<open>
  C24: The chunks of a range are its addresses, each once and in order, and each chunk passes the
  kernel's cap on a range call.
\<close>

theorem range_chunks_cover:
  assumes "unat addr + unat len < 2 ^ 64"
  shows "concat (map addresses (range_chunks addr len)) = [unat addr..<unat addr + unat len] \<and>
    list_all (\<lambda>c. range_cap (snd c) = Inr ()) (range_chunks addr len)"
  using range_chunks_addresses [OF assms] range_chunks_capped [of addr len] by (simp add: list_all_iff)

theorem range_chunks_cover_witness:
  "range_chunks 0x10000 0x18000 = [(0x10000, 0x10000), (0x20000, 0x8000)] \<and>
   length (concat (map addresses (range_chunks 0x10000 0x18000))) = 0x18000"
proof
  show "range_chunks 0x10000 0x18000 = [(0x10000, 0x10000), (0x20000, 0x8000)]"
    by (simp add: range_chunks_def step_by_def RANGE_def MAX_RANGE_PAGES_def PAGE_SIZE_def max_def min_def
        word_le_nat_alt upt_rec [of 0 2] upt_rec [of "Suc 0" 2])
  have "unat (0x10000 :: u64) + unat (0x18000 :: u64) < 2 ^ 64"
    by simp
  from range_chunks_cover [OF this, THEN conjunct1]
  have "length (concat (map addresses (range_chunks 0x10000 0x18000))) = unat (0x18000 :: u64)"
    by (simp only: length_upt add_diff_cancel_left')
  then show "length (concat (map addresses (range_chunks 0x10000 0x18000))) = 0x18000"
    by simp
qed

end
