(* ===== verification/Ipc_Words.thy ===== *)
theory Ipc_Words
  imports Prelude "HOL-Library.Monad_Syntax"
begin

text \<open>
  The kernel's IPC lists (\<open>libs/ipclist/src/lib.rs\<close>): doubly linked lists kept in the words of the
  objects waited on and of their members, and the groups of queued messages an endpoint keeps in
  the order their turns fall due.

  The kernel's pages are a store from a page and a word to its value, which \<open>Words::read\<close> and
  \<open>Words::write\<close> read and update.  A function that changes the words takes and returns the store;
  \<open>None\<close> stands for not returning: the panic of an \<open>expect\<close>, or a walk around a cycle of links.
\<close>

section \<open>Pages and words\<close>

datatype page =
    PThread u64 | PCall u64 | PProcess u64 | PEndpoint u32 | PDevice u32 | PBudget u32 | PPumped u64 | PKernel

type_synonym store = "page \<Rightarrow> nat \<Rightarrow> u64"

definition s_read :: "store \<Rightarrow> page \<Rightarrow> nat \<Rightarrow> u64" where
  "s_read w p i = w p i"

definition s_write :: "store \<Rightarrow> page \<Rightarrow> nat \<Rightarrow> u64 \<Rightarrow> store" where
  "s_write w p i v = w(p := (w p)(i := v))"

definition T_PREV :: nat where "T_PREV = 0"
definition T_NEXT :: nat where "T_NEXT = 1"
definition T_SEQ :: nat where "T_SEQ = 2"
definition T_GROUP :: nat where "T_GROUP = 3"
definition T_SPREV :: nat where "T_SPREV = 4"
definition T_SNEXT :: nat where "T_SNEXT = 5"
definition T_XPREV :: nat where "T_XPREV = 6"
definition T_XNEXT :: nat where "T_XNEXT = 7"
definition T_DPREV :: nat where "T_DPREV = 8"
definition T_DNEXT :: nat where "T_DNEXT = 9"
definition G_PREV :: nat where "G_PREV = 10"
definition G_NEXT :: nat where "G_NEXT = 11"
definition G_SPREV :: nat where "G_SPREV = 12"
definition G_SNEXT :: nat where "G_SNEXT = 13"
definition G_SENDS :: nat where "G_SENDS = 14"
definition G_CALLS :: nat where "G_CALLS = 16"
definition G_COUNT :: nat where "G_COUNT = 18"
definition G_TAKEN :: nat where "G_TAKEN = 19"
definition C_EPREV :: nat where "C_EPREV = 0"
definition C_ENEXT :: nat where "C_ENEXT = 1"
definition C_SPREV :: nat where "C_SPREV = 2"
definition C_SNEXT :: nat where "C_SNEXT = 3"
definition P_PREV :: nat where "P_PREV = 0"
definition P_NEXT :: nat where "P_NEXT = 1"
definition P_CHPREV :: nat where "P_CHPREV = 2"
definition P_CHNEXT :: nat where "P_CHNEXT = 3"
definition P_CTPREV :: nat where "P_CTPREV = 4"
definition P_CTNEXT :: nat where "P_CTNEXT = 5"
definition E_RECEIVERS :: nat where "E_RECEIVERS = 0"
definition E_GROUPS :: nat where "E_GROUPS = 2"
definition E_SENDS :: nat where "E_SENDS = 4"
definition E_NOTICES :: nat where "E_NOTICES = 6"
definition E_OPEN :: nat where "E_OPEN = 7"
definition E_WAITING :: nat where "E_WAITING = 8"
definition E_EXITS :: nat where "E_EXITS = 9"
definition E_REPORTERS :: nat where "E_REPORTERS = 11"
definition E_PPREV :: nat where "E_PPREV = 12"
definition E_PNEXT :: nat where "E_PNEXT = 13"
definition D_IRQ :: nat where "D_IRQ = 0"
definition B_QUEUED :: nat where "B_QUEUED = 0"
definition B_OPEN :: nat where "B_OPEN = 1"
definition B_CHARGED :: nat where "B_CHARGED = 2"
definition B_COUNTED :: nat where "B_COUNTED = 3"
definition K_DUE :: nat where "K_DUE = 0"
definition K_PUMP :: nat where "K_PUMP = 2"
definition K_TIMED :: nat where "K_TIMED = 4"

lemmas word_defs = T_PREV_def T_NEXT_def T_SEQ_def T_GROUP_def T_SPREV_def T_SNEXT_def T_XPREV_def T_XNEXT_def
  T_DPREV_def T_DNEXT_def G_PREV_def G_NEXT_def G_SPREV_def G_SNEXT_def G_SENDS_def G_CALLS_def G_COUNT_def G_TAKEN_def
  C_EPREV_def C_ENEXT_def C_SPREV_def C_SNEXT_def P_PREV_def P_NEXT_def P_CHPREV_def P_CHNEXT_def P_CTPREV_def
  P_CTNEXT_def E_RECEIVERS_def E_GROUPS_def E_SENDS_def E_NOTICES_def E_OPEN_def E_WAITING_def E_EXITS_def
  E_REPORTERS_def E_PPREV_def E_PNEXT_def D_IRQ_def B_QUEUED_def B_OPEN_def B_CHARGED_def B_COUNTED_def K_DUE_def
  K_PUMP_def K_TIMED_def

section \<open>The lists\<close>

datatype member = MThread | MCall | MProcess | MEndpoint

record ilist =
  l_owner :: page
  l_head :: nat
  l_tail :: "nat option"
  l_member :: member
  l_counted :: bool
  l_prev :: nat
  l_next :: nat

definition l_threads :: "page \<Rightarrow> nat \<Rightarrow> bool \<Rightarrow> nat \<times> nat \<Rightarrow> ilist" where
  "l_threads p h lst links =
     \<lparr>l_owner = p, l_head = h, l_tail = (if lst then Some (h + 1) else None), l_member = MThread, l_counted = False,
      l_prev = fst links, l_next = snd links\<rparr>"

definition l_calls :: "page \<Rightarrow> nat \<Rightarrow> nat \<times> nat \<Rightarrow> ilist" where
  "l_calls p h links =
     \<lparr>l_owner = p, l_head = h, l_tail = None, l_member = MCall, l_counted = False, l_prev = fst links,
      l_next = snd links\<rparr>"

definition l_processes :: "page \<Rightarrow> nat \<Rightarrow> bool \<Rightarrow> nat \<times> nat \<Rightarrow> ilist" where
  "l_processes p h lst links =
     \<lparr>l_owner = p, l_head = h, l_tail = (if lst then Some (h + 1) else None), l_member = MProcess, l_counted = False,
      l_prev = fst links, l_next = snd links\<rparr>"

definition counted :: "ilist \<Rightarrow> ilist" where
  "counted d = d\<lparr>l_counted := True\<rparr>"

definition receivers :: "u32 \<Rightarrow> ilist" where
  "receivers e = counted (l_threads (PEndpoint e) E_RECEIVERS True (T_PREV, T_NEXT))"

definition irq_waiters :: "u32 \<Rightarrow> ilist" where
  "irq_waiters d = l_threads (PDevice d) D_IRQ True (T_PREV, T_NEXT)"

definition notices :: "u32 \<Rightarrow> ilist" where
  "notices e = counted (l_calls (PEndpoint e) E_NOTICES (C_EPREV, C_ENEXT))"

definition open_calls :: "u32 \<Rightarrow> ilist" where
  "open_calls e = counted (l_calls (PEndpoint e) E_OPEN (C_EPREV, C_ENEXT))"

definition exits :: "u32 \<Rightarrow> ilist" where
  "exits e = counted (l_processes (PEndpoint e) E_EXITS True (P_PREV, P_NEXT))"

definition reporters :: "u32 \<Rightarrow> ilist" where
  "reporters e = counted (l_processes (PEndpoint e) E_REPORTERS False (P_PREV, P_NEXT))"

definition queued :: "u32 \<Rightarrow> ilist" where
  "queued b = l_threads (PBudget b) B_QUEUED False (T_SPREV, T_SNEXT)"

definition taken :: "u32 \<Rightarrow> ilist" where
  "taken b = l_calls (PBudget b) B_OPEN (C_SPREV, C_SNEXT)"

definition charged :: "u32 \<Rightarrow> ilist" where
  "charged b = l_processes (PBudget b) B_CHARGED False (P_CHPREV, P_CHNEXT)"

definition counted_in :: "u32 \<Rightarrow> ilist" where
  "counted_in b = l_processes (PBudget b) B_COUNTED False (P_CTPREV, P_CTNEXT)"

definition due :: ilist where
  "due = l_threads PKernel K_DUE True (T_XPREV, T_XNEXT)"

definition pumps :: ilist where
  "pumps =
     \<lparr>l_owner = PKernel, l_head = K_PUMP, l_tail = Some (K_PUMP + 1), l_member = MEndpoint, l_counted = False,
      l_prev = E_PPREV, l_next = E_PNEXT\<rparr>"

definition timed :: "nat \<Rightarrow> ilist" where
  "timed slot = l_threads PKernel (K_TIMED + slot) False (T_DPREV, T_DNEXT)"

definition groups :: "u32 \<Rightarrow> ilist" where
  "groups e = l_threads (PEndpoint e) E_GROUPS True (G_PREV, G_NEXT)"

definition send_groups :: "u32 \<Rightarrow> ilist" where
  "send_groups e = l_threads (PEndpoint e) E_SENDS True (G_SPREV, G_SNEXT)"

definition chain :: "u64 \<Rightarrow> bool \<Rightarrow> ilist" where
  "chain node send = l_threads (PThread node) (if send then G_SENDS else G_CALLS) True (T_PREV, T_NEXT)"

lemmas list_defs = receivers_def irq_waiters_def notices_def open_calls_def exits_def reporters_def queued_def taken_def
  charged_def counted_in_def due_def pumps_def timed_def groups_def send_groups_def chain_def counted_def l_threads_def
  l_calls_def l_processes_def

definition mpage :: "ilist \<Rightarrow> u64 \<Rightarrow> page" where
  "mpage d r =
     (case l_member d of MThread \<Rightarrow> PThread r | MCall \<Rightarrow> PCall r | MProcess \<Rightarrow> PProcess r | MEndpoint \<Rightarrow> PPumped r)"

section \<open>One list's operations\<close>

definition first_of :: "ilist \<Rightarrow> store \<Rightarrow> u64" where
  "first_of d w = s_read w (l_owner d) (l_head d)"

definition is_empty :: "ilist \<Rightarrow> store \<Rightarrow> bool" where
  "is_empty d w \<longleftrightarrow> first_of d w = 0"

definition next_of :: "ilist \<Rightarrow> store \<Rightarrow> u64 \<Rightarrow> u64" where
  "next_of d w r = s_read w (mpage d r) (l_next d)"

definition prev_of :: "ilist \<Rightarrow> store \<Rightarrow> u64 \<Rightarrow> u64" where
  "prev_of d w r = s_read w (mpage d r) (l_prev d)"

definition last_of :: "ilist \<Rightarrow> store \<Rightarrow> u64 option" where
  "last_of d w = (case l_tail d of None \<Rightarrow> None | Some t \<Rightarrow> Some (s_read w (l_owner d) t))"

definition on_list :: "ilist \<Rightarrow> store \<Rightarrow> u64 \<Rightarrow> bool" where
  "on_list d w r \<longleftrightarrow> r \<noteq> 0 \<and> (prev_of d w r \<noteq> 0 \<or> first_of d w = r)"

definition counts :: "store \<Rightarrow> page \<Rightarrow> int \<Rightarrow> store option" where
  "counts w p by =
     (let n = uint (s_read w p E_WAITING) + by
      in if 0 \<le> n \<and> n < 2 ^ 64 then Some (s_write w p E_WAITING (word_of_int n)) else None)"

definition insert_after :: "ilist \<Rightarrow> store \<Rightarrow> u64 \<Rightarrow> u64 \<Rightarrow> store option" where
  "insert_after d w after r =
     (let nx = (if after = 0 then first_of d w else next_of d w after);
          w = s_write w (mpage d r) (l_prev d) after;
          w = s_write w (mpage d r) (l_next d) nx;
          w = (if after = 0 then s_write w (l_owner d) (l_head d) r else s_write w (mpage d after) (l_next d) r);
          w = (if nx \<noteq> 0 then s_write w (mpage d nx) (l_prev d) r
               else case l_tail d of Some t \<Rightarrow> s_write w (l_owner d) t r | None \<Rightarrow> w)
      in if l_counted d then counts w (l_owner d) 1 else Some w)"

definition push_front :: "ilist \<Rightarrow> store \<Rightarrow> u64 \<Rightarrow> store option" where
  "push_front d w r = insert_after d w 0 r"

definition push_back :: "ilist \<Rightarrow> store \<Rightarrow> u64 \<Rightarrow> store option" where
  "push_back d w r = do { lst \<leftarrow> last_of d w; insert_after d w lst r }"

text \<open>The walk of \<open>insert_by\<close>: the member after which \<open>k\<close> goes, from \<open>after\<close>.\<close>

partial_function (option) place_by :: "ilist \<Rightarrow> store \<Rightarrow> (store \<Rightarrow> u64 \<Rightarrow> 'k :: linorder) \<Rightarrow> 'k \<Rightarrow> u64 \<Rightarrow> u64 option" where
  "place_by d w key k after =
     (let nx = (if after = 0 then first_of d w else next_of d w after)
      in if nx = 0 \<or> key w nx > k then Some after else place_by d w key k nx)"

definition insert_by :: "ilist \<Rightarrow> store \<Rightarrow> u64 \<Rightarrow> (store \<Rightarrow> u64 \<Rightarrow> 'k :: linorder) \<Rightarrow> store option" where
  "insert_by d w r key = do { after \<leftarrow> place_by d w key (key w r) 0; insert_after d w after r }"

definition remove :: "ilist \<Rightarrow> store \<Rightarrow> u64 \<Rightarrow> store option" where
  "remove d w r =
     (let pv = prev_of d w r; nx = next_of d w r;
          w = (if pv = 0 then s_write w (l_owner d) (l_head d) nx else s_write w (mpage d pv) (l_next d) nx);
          w = (if nx \<noteq> 0 then s_write w (mpage d nx) (l_prev d) pv
               else case l_tail d of Some t \<Rightarrow> s_write w (l_owner d) t pv | None \<Rightarrow> w);
          w = s_write w (mpage d r) (l_prev d) 0;
          w = s_write w (mpage d r) (l_next d) 0
      in if l_counted d then counts w (l_owner d) (- 1) else Some w)"

definition pop_front :: "ilist \<Rightarrow> store \<Rightarrow> (store \<times> u64) option" where
  "pop_front d w =
     (let r = first_of d w in if r \<noteq> 0 then do { w \<leftarrow> remove d w r; Some (w, r) } else Some (w, r))"

definition replace :: "ilist \<Rightarrow> store \<Rightarrow> u64 \<Rightarrow> u64 \<Rightarrow> store" where
  "replace d w old new =
     (let pv = prev_of d w old; nx = next_of d w old;
          w = s_write w (mpage d new) (l_prev d) pv;
          w = s_write w (mpage d new) (l_next d) nx;
          w = (if pv = 0 then s_write w (l_owner d) (l_head d) new else s_write w (mpage d pv) (l_next d) new);
          w = (if nx \<noteq> 0 then s_write w (mpage d nx) (l_prev d) new
               else case l_tail d of Some t \<Rightarrow> s_write w (l_owner d) t new | None \<Rightarrow> w);
          w = s_write w (mpage d old) (l_prev d) 0
      in s_write w (mpage d old) (l_next d) 0)"

text \<open>The walk of \<open>moved_back\<close>: past every member with a lower key, from \<open>after\<close>.\<close>

partial_function (option) walk_back :: "ilist \<Rightarrow> store \<Rightarrow> (store \<Rightarrow> u64 \<Rightarrow> u64) \<Rightarrow> u64 \<Rightarrow> u64 \<Rightarrow> u64 option" where
  "walk_back d w key k after =
     (let nx = next_of d w after in if nx = 0 \<or> key w nx > k then Some after else walk_back d w key k nx)"

definition moved_back :: "ilist \<Rightarrow> store \<Rightarrow> u64 \<Rightarrow> (store \<Rightarrow> u64 \<Rightarrow> u64) \<Rightarrow> store option" where
  "moved_back d w r key =
     (let k = key w r; after = next_of d w r
      in if after = 0 \<or> key w after > k then Some w
         else do { w \<leftarrow> remove d w r; after \<leftarrow> walk_back d w key k after; insert_after d w after r })"

section \<open>Sorting\<close>

partial_function (option) count_from :: "ilist \<Rightarrow> store \<Rightarrow> u64 \<Rightarrow> nat \<Rightarrow> nat option" where
  "count_from d w r n = (if r \<noteq> 0 then count_from d w (next_of d w r) (n + 1) else Some n)"

text \<open>A run of up to \<open>width\<close> members from \<open>q\<close>: what follows it, and its size.\<close>

function take_run :: "ilist \<Rightarrow> store \<Rightarrow> nat \<Rightarrow> u64 \<Rightarrow> nat \<Rightarrow> u64 \<times> nat" where
  "take_run d w width q sz =
     (if q \<noteq> 0 \<and> sz < width then take_run d w width (next_of d w q) (sz + 1) else (q, sz))"
  by pat_completeness auto
termination
  by (relation "measure (\<lambda>(d, w, width, q, sz). width - sz)") auto

text \<open>Merging the two runs onto the output, whose first and last members are \<open>out\<close> and \<open>lst\<close>, 0 for none.\<close>

function merge_runs ::
  "ilist \<Rightarrow> (store \<Rightarrow> u64 \<Rightarrow> 'k :: linorder) \<Rightarrow> store \<Rightarrow> u64 \<Rightarrow> nat \<Rightarrow> u64 \<Rightarrow> nat \<Rightarrow> u64 \<Rightarrow> u64 \<Rightarrow> store \<times> u64 \<times> u64" where
  "merge_runs d key w l lsize r rsize out lst =
     (if lsize > 0 \<or> rsize > 0 then
        (let left = (rsize = 0 \<or> (lsize > 0 \<and> key w l \<le> key w r));
             e = (if left then l else r);
             (l', lsize') = (if left then (next_of d w l, lsize - 1) else (l, lsize));
             (r', rsize') = (if left then (r, rsize) else (next_of d w r, rsize - 1));
             out' = (if lst = 0 then e else out);
             w' = (if lst = 0 then w else s_write w (mpage d lst) (l_next d) e)
         in merge_runs d key w' l' lsize' r' rsize' out' e)
      else (w, out, lst))"
  by pat_completeness auto
termination
  by (relation "measure (\<lambda>(d, key, w, l, lsize, r, rsize, out, lst). lsize + rsize)") (auto split: if_splits)

text \<open>One pass over the list, merging its runs two by two.\<close>

partial_function (option) merge_pass ::
  "ilist \<Rightarrow> (store \<Rightarrow> u64 \<Rightarrow> 'k :: linorder) \<Rightarrow> nat \<Rightarrow> store \<Rightarrow> u64 \<Rightarrow> u64 \<Rightarrow> u64 \<Rightarrow> (store \<times> u64 \<times> u64) option" where
  "merge_pass d key width w p out lst =
     (if p \<noteq> 0 then
        (case take_run d w width p 0 of (r, lsize) \<Rightarrow>
         case take_run d w width r 0 of (q, rsize) \<Rightarrow>
         case merge_runs d key w p lsize r rsize out lst of (w, out, lst) \<Rightarrow> merge_pass d key width w q out lst)
      else Some (w, out, lst))"

partial_function (option) merge_passes ::
  "ilist \<Rightarrow> (store \<Rightarrow> u64 \<Rightarrow> 'k :: linorder) \<Rightarrow> nat \<Rightarrow> store \<Rightarrow> u64 \<Rightarrow> nat \<Rightarrow> (store \<times> u64) option" where
  "merge_passes d key n w h width =
     (if width < n then
        do { (w, out, lst) \<leftarrow> merge_pass d key width w h 0 0;
             merge_passes d key n (s_write w (mpage d lst) (l_next d) 0) out (width * 2) }
      else Some (w, h))"

text \<open>The back links, from the forward ones: the store and the last member.\<close>

partial_function (option) relink :: "ilist \<Rightarrow> store \<Rightarrow> u64 \<Rightarrow> u64 \<Rightarrow> (store \<times> u64) option" where
  "relink d w pv r =
     (if r \<noteq> 0 then
        (let w = s_write w (mpage d r) (l_prev d) pv in relink d w r (next_of d w r))
      else Some (w, pv))"

definition sort_list :: "ilist \<Rightarrow> store \<Rightarrow> (store \<Rightarrow> u64 \<Rightarrow> 'k :: linorder) \<Rightarrow> store option" where
  "sort_list d w key =
     do { n \<leftarrow> count_from d w (first_of d w) 0;
          (w, h) \<leftarrow> merge_passes d key n w (first_of d w) 1;
          (w, pv) \<leftarrow> relink d (s_write w (l_owner d) (l_head d) h) 0 h;
          Some (case l_tail d of Some t \<Rightarrow> s_write w (l_owner d) t pv | None \<Rightarrow> w) }"

section \<open>The audit of a list\<close>

datatype fault = FLinks page nat | FMember page | FOrder page | FGroup u64

text \<open>\<open>each\<close> is the audit's closure: it passes or faults a member, and carries its own state.\<close>

partial_function (option) audit_from ::
  "ilist \<Rightarrow> store \<Rightarrow> (u64 \<Rightarrow> 's \<Rightarrow> (fault + 's) option) \<Rightarrow> u64 \<Rightarrow> u64 \<Rightarrow> nat \<Rightarrow> 's \<Rightarrow> (fault + u64 \<times> nat \<times> 's) option" where
  "audit_from d w each pv r n s =
     (if r \<noteq> 0 then
        if prev_of d w r \<noteq> pv then Some (Inl (FLinks (l_owner d) (l_head d)))
        else do { res \<leftarrow> each r s;
                  case res of
                    Inl f \<Rightarrow> Some (Inl f)
                  | Inr s \<Rightarrow> audit_from d w each r (next_of d w r) (n + 1) s }
      else Some (Inr (pv, n, s)))"

definition audit_list :: "ilist \<Rightarrow> store \<Rightarrow> (u64 \<Rightarrow> 's \<Rightarrow> (fault + 's) option) \<Rightarrow> 's \<Rightarrow> (fault + nat \<times> 's) option" where
  "audit_list d w each s =
     do { res \<leftarrow> audit_from d w each 0 (first_of d w) 0 s;
          Some (case res of
                  Inl f \<Rightarrow> Inl f
                | Inr (pv, n, s) \<Rightarrow>
                    if l_tail d \<noteq> None \<and> last_of d w \<noteq> Some pv then Inl (FLinks (l_owner d) (l_head d)) else Inr (n, s)) }"

end
