(* ===== verification/Ipc_Links.thy ===== *)
theory Ipc_Links
  imports Ipc_Words
begin

text \<open>
  The lists as lists: \<open>linked d w xs\<close> says that the words of \<open>w\<close> are a well-formed doubly linked
  list \<open>d\<close> with the members \<open>xs\<close> in order.  Every operation of one list takes such words to such
  words, with the members the list operation gives, and changes nothing outside the list's own
  words.
\<close>

named_theorems ipc_reads

section \<open>Words read back\<close>

text \<open>A word's place; kept as one value so that a list's words compare as wholes.\<close>

definition at :: "page \<Rightarrow> nat \<Rightarrow> page \<times> nat" where
  "at p i = (p, i)"

lemma at_eq: "at p i = at q j \<longleftrightarrow> p = q \<and> i = j"
  by (simp add: at_def)

lemma read_write [ipc_reads]: "s_read (s_write w p i v) q j = (if at p i = at q j then v else s_read w q j)"
  by (auto simp: s_read_def s_write_def at_eq)

lemma mpage_inject [simp]: "mpage d x = mpage d y \<longleftrightarrow> x = y"
  by (auto simp: mpage_def split: member.splits)

lemma at_member [simp]: "at (mpage d x) i = at (mpage d y) j \<longleftrightarrow> x = y \<and> i = j"
  by (simp add: at_eq)

lemma at_same [simp]: "at p i = at p j \<longleftrightarrow> i = j"
  by (simp add: at_eq)

definition tail_is :: "ilist \<Rightarrow> store \<Rightarrow> u64 \<Rightarrow> bool" where
  "tail_is d w r = (case l_tail d of None \<Rightarrow> True | Some t \<Rightarrow> s_read w (l_owner d) t = r)"

text \<open>A list's words do not overlap: its head, tail and count are not its members' links.\<close>

definition desc_ok :: "ilist \<Rightarrow> bool" where
  "desc_ok d \<longleftrightarrow>
     l_prev d \<noteq> l_next d \<and> l_tail d \<noteq> Some (l_head d) \<and>
     (\<forall>r. l_owner d = mpage d r \<longrightarrow>
        l_head d \<noteq> l_prev d \<and> l_head d \<noteq> l_next d \<and> l_tail d \<noteq> Some (l_prev d) \<and> l_tail d \<noteq> Some (l_next d)) \<and>
     (l_counted d \<longrightarrow> (\<forall>r. l_owner d \<noteq> mpage d r) \<and> l_head d \<noteq> E_WAITING \<and> l_tail d \<noteq> Some E_WAITING)"

lemma desc_okD:
  assumes "desc_ok d"
  shows "l_prev d \<noteq> l_next d" "l_tail d \<noteq> Some (l_head d)"
    "l_owner d = mpage d r \<Longrightarrow> l_head d \<noteq> l_prev d" "l_owner d = mpage d r \<Longrightarrow> l_head d \<noteq> l_next d"
    "l_owner d = mpage d r \<Longrightarrow> l_tail d \<noteq> Some (l_prev d)" "l_owner d = mpage d r \<Longrightarrow> l_tail d \<noteq> Some (l_next d)"
    "l_counted d \<Longrightarrow> l_owner d \<noteq> mpage d r" "l_counted d \<Longrightarrow> l_head d \<noteq> E_WAITING"
    "l_counted d \<Longrightarrow> l_tail d \<noteq> Some E_WAITING"
  using assms unfolding desc_ok_def by blast+

lemma desc_sep:
  assumes "desc_ok d"
  shows "l_prev d \<noteq> l_next d" "l_next d \<noteq> l_prev d"
    "at (mpage d x) (l_prev d) \<noteq> at (l_owner d) (l_head d)" "at (l_owner d) (l_head d) \<noteq> at (mpage d x) (l_prev d)"
    "at (mpage d x) (l_next d) \<noteq> at (l_owner d) (l_head d)" "at (l_owner d) (l_head d) \<noteq> at (mpage d x) (l_next d)"
    "l_tail d = Some t \<Longrightarrow> at (mpage d x) (l_prev d) \<noteq> at (l_owner d) t"
    "l_tail d = Some t \<Longrightarrow> at (l_owner d) t \<noteq> at (mpage d x) (l_prev d)"
    "l_tail d = Some t \<Longrightarrow> at (mpage d x) (l_next d) \<noteq> at (l_owner d) t"
    "l_tail d = Some t \<Longrightarrow> at (l_owner d) t \<noteq> at (mpage d x) (l_next d)"
    "l_tail d = Some t \<Longrightarrow> t \<noteq> l_head d" "l_tail d = Some t \<Longrightarrow> l_head d \<noteq> t"
  unfolding at_eq using desc_okD(1-6) [OF assms] by metis+

lemma desc_sep_count:
  assumes "desc_ok d" "l_counted d"
  shows "at (l_owner d) E_WAITING \<noteq> at (mpage d x) i" "at (mpage d x) i \<noteq> at (l_owner d) E_WAITING"
    "E_WAITING \<noteq> l_head d" "l_head d \<noteq> E_WAITING" "l_tail d = Some t \<Longrightarrow> E_WAITING \<noteq> t"
    "l_tail d = Some t \<Longrightarrow> t \<noteq> E_WAITING"
  unfolding at_eq using desc_okD(7-9) [OF assms(1)] assms(2) by metis+

lemma desc_ok_lists [simp]:
  "desc_ok (receivers e)" "desc_ok (irq_waiters dv)" "desc_ok (notices e)" "desc_ok (open_calls e)" "desc_ok (exits e)"
  "desc_ok (reporters e)" "desc_ok (queued b)" "desc_ok (taken b)" "desc_ok (charged b)" "desc_ok (counted_in b)"
  "desc_ok due" "desc_ok pumps" "desc_ok (timed slot)" "desc_ok (groups e)" "desc_ok (send_groups e)"
  "desc_ok (chain node send)"
  by (simp_all add: desc_ok_def list_defs mpage_def word_defs)

section \<open>Paths\<close>

fun path :: "ilist \<Rightarrow> store \<Rightarrow> u64 \<Rightarrow> u64 list \<Rightarrow> u64 \<Rightarrow> bool" where
  "path d w a [] b \<longleftrightarrow> a = b"
| "path d w a (x # xs) b \<longleftrightarrow> a = x \<and> x \<noteq> 0 \<and> path d w (next_of d w x) xs b"

fun backs :: "ilist \<Rightarrow> store \<Rightarrow> u64 \<Rightarrow> u64 list \<Rightarrow> bool" where
  "backs d w p [] \<longleftrightarrow> True"
| "backs d w p (x # xs) \<longleftrightarrow> prev_of d w x = p \<and> backs d w x xs"

definition last_or :: "u64 \<Rightarrow> u64 list \<Rightarrow> u64" where
  "last_or p xs = (if xs = [] then p else last xs)"

definition head_or :: "u64 list \<Rightarrow> u64 \<Rightarrow> u64" where
  "head_or xs b = (case xs of [] \<Rightarrow> b | x # _ \<Rightarrow> x)"

lemma last_or_simps [simp]: "last_or p [] = p" "last_or p (x # xs) = last_or x xs" "last_or p (xs @ [x]) = x"
  "last_or p (xs @ x # ys) = last_or x ys"
  by (auto simp: last_or_def)

lemma head_or_simps [simp]: "head_or [] b = b" "head_or (x # xs) b = x"
  by (simp_all add: head_or_def)

definition linked :: "ilist \<Rightarrow> store \<Rightarrow> u64 list \<Rightarrow> bool" where
  "linked d w xs \<longleftrightarrow>
     path d w (first_of d w) xs 0 \<and> backs d w 0 xs \<and> tail_is d w (last_or 0 xs) \<and> distinct xs"

lemma path_append: "path d w a (xs @ ys) b \<longleftrightarrow> (\<exists>c. path d w a xs c \<and> path d w c ys b)"
  by (induction xs arbitrary: a) auto

lemma path_snoc: "path d w a (xs @ [x]) b \<longleftrightarrow> path d w a xs x \<and> x \<noteq> 0 \<and> next_of d w x = b"
  by (auto simp: path_append)

lemma path_head: "path d w a xs b \<Longrightarrow> a = head_or xs b"
  by (cases xs) auto

lemma path_nonzero: "path d w a xs b \<Longrightarrow> 0 \<notin> set xs"
  by (induction xs arbitrary: a) auto

lemma backs_append: "backs d w p (xs @ ys) \<longleftrightarrow> backs d w p xs \<and> backs d w (last_or p xs) ys"
  by (induction xs arbitrary: p) auto

lemma path_cong: "(\<And>x. x \<in> set xs \<Longrightarrow> next_of d w' x = next_of d w x) \<Longrightarrow> path d w' a xs b \<longleftrightarrow> path d w a xs b"
  by (induction xs arbitrary: a) auto

lemma backs_cong: "(\<And>x. x \<in> set xs \<Longrightarrow> prev_of d w' x = prev_of d w x) \<Longrightarrow> backs d w' p xs \<longleftrightarrow> backs d w p xs"
  by (induction xs arbitrary: p) auto

lemma linkedD:
  assumes "linked d w xs"
  shows "path d w (first_of d w) xs 0" "backs d w 0 xs" "tail_is d w (last_or 0 xs)" "distinct xs" "0 \<notin> set xs"
    "first_of d w = head_or xs 0"
  using assms path_nonzero path_head by (auto simp: linked_def)

text \<open>A list is what its links are: its members are determined by the words.\<close>

lemma linked_unique: "linked d w xs \<Longrightarrow> linked d w ys \<Longrightarrow> xs = ys"
proof -
  have "path d w a xs 0 \<Longrightarrow> path d w a ys 0 \<Longrightarrow> xs = ys" for a
  proof (induction xs arbitrary: a ys)
    case Nil
    then show ?case by (cases ys) auto
  next
    case (Cons x xs)
    then show ?case by (cases ys) auto
  qed
  then show "linked d w xs \<Longrightarrow> linked d w ys \<Longrightarrow> xs = ys"
    using linkedD(1) by metis
qed

lemma linked_empty: "linked d w xs \<Longrightarrow> is_empty d w \<longleftrightarrow> xs = []"
  using linkedD(5,6) [of d w xs] by (cases xs) (auto simp: is_empty_def)

lemma linked_split:
  assumes "linked d w (ys @ x # zs)"
  shows "prev_of d w x = last_or 0 ys" "next_of d w x = head_or zs 0" "x \<noteq> 0" "x \<notin> set ys" "x \<notin> set zs"
    "distinct ys" "distinct zs" "set ys \<inter> set zs = {}"
  using assms path_head [of d w "next_of d w x" zs 0]
  by (auto simp: linked_def path_append backs_append)

lemma last_or_zero: "0 \<notin> set xs \<Longrightarrow> last_or 0 xs = 0 \<longleftrightarrow> xs = []"
  by (metis last_in_set last_or_def)

lemma head_or_zero: "0 \<notin> set xs \<Longrightarrow> head_or xs 0 = 0 \<longleftrightarrow> xs = []"
  by (cases xs) auto

lemma on_list_iff:
  assumes "linked d w xs" "r \<in> set xs \<or> prev_of d w r = 0"
  shows "on_list d w r \<longleftrightarrow> r \<in> set xs"
proof (cases "r \<in> set xs")
  case True
  then obtain ys zs where xs: "xs = ys @ r # zs"
    using split_list by fastforce
  with assms(1) linked_split [of d w ys r zs] linkedD(5,6) [OF assms(1)] last_or_zero [of ys] show ?thesis
    by (cases ys) (auto simp: on_list_def)
next
  case False
  with assms linkedD(5,6) [OF assms(1)] show ?thesis
    by (cases xs) (auto simp: on_list_def)
qed

section \<open>What an operation touches\<close>

definition touched :: "ilist \<Rightarrow> u64 set \<Rightarrow> (page \<times> nat) set" where
  "touched d X =
     {(l_owner d, l_head d)} \<union> {(l_owner d, t) | t. l_tail d = Some t} \<union>
     (if l_counted d then {(l_owner d, E_WAITING)} else {}) \<union> (\<Union>x\<in>X. {(mpage d x, l_prev d), (mpage d x, l_next d)})"

lemma touchedI:
  "(l_owner d, l_head d) \<in> touched d X" "l_tail d = Some t \<Longrightarrow> (l_owner d, t) \<in> touched d X"
  "l_counted d \<Longrightarrow> (l_owner d, E_WAITING) \<in> touched d X"
  "x \<in> X \<Longrightarrow> (mpage d x, l_prev d) \<in> touched d X" "x \<in> X \<Longrightarrow> (mpage d x, l_next d) \<in> touched d X"
  by (auto simp: touched_def)

lemma touched_mono: "X \<subseteq> Y \<Longrightarrow> touched d X \<subseteq> touched d Y"
  by (auto simp: touched_def)

definition same_but :: "(page \<times> nat) set \<Rightarrow> store \<Rightarrow> store \<Rightarrow> bool" where
  "same_but A w w' \<longleftrightarrow> (\<forall>p i. (p, i) \<notin> A \<longrightarrow> s_read w' p i = s_read w p i)"

lemma same_butD: "same_but A w w' \<Longrightarrow> (p, i) \<notin> A \<Longrightarrow> s_read w' p i = s_read w p i"
  by (simp add: same_but_def)

lemma same_but_refl [simp]: "same_but A w w"
  by (simp add: same_but_def)

lemma same_but_trans: "same_but A w w' \<Longrightarrow> same_but B w' w'' \<Longrightarrow> same_but (A \<union> B) w w''"
  by (simp add: same_but_def)

lemma same_but_step: "same_but A w w' \<Longrightarrow> same_but A w' w'' \<Longrightarrow> same_but A w w''"
  by (simp add: same_but_def)

lemma same_but_mono: "same_but A w w' \<Longrightarrow> A \<subseteq> B \<Longrightarrow> same_but B w w'"
  by (auto simp: same_but_def)

lemma same_but_write: "(p, i) \<in> A \<Longrightarrow> same_but A w w' \<Longrightarrow> same_but A w (s_write w' p i v)"
  by (auto simp: same_but_def read_write at_eq)

lemma linked_frame:
  assumes "linked d w xs" "same_but A w w'" "A \<inter> touched d (set xs) = {}"
  shows "linked d w' xs"
proof -
  have keep: "(p, i) \<in> touched d (set xs) \<Longrightarrow> s_read w' p i = s_read w p i" for p i
    using assms(2,3) by (auto simp: same_but_def)
  have f: "first_of d w' = first_of d w" and t: "tail_is d w' r = tail_is d w r" for r
    using keep touchedI(1,2) by (auto simp: first_of_def tail_is_def split: option.split)
  have n: "next_of d w' x = next_of d w x" and p: "prev_of d w' x = prev_of d w x" if "x \<in> set xs" for x
    using keep touchedI(4,5) that by (auto simp: next_of_def prev_of_def)
  show ?thesis
    using assms(1) f t path_cong [of xs d w' w] backs_cong [of xs d w' w] n p by (simp add: linked_def)
qed

section \<open>Insertion\<close>

definition recount :: "ilist \<Rightarrow> store \<Rightarrow> int \<Rightarrow> store option" where
  "recount d w by = (if l_counted d then counts w (l_owner d) by else Some w)"

definition room :: "ilist \<Rightarrow> store \<Rightarrow> int \<Rightarrow> bool" where
  "room d w by \<longleftrightarrow>
     (l_counted d \<longrightarrow> 0 \<le> uint (s_read w (l_owner d) E_WAITING) + by \<and> uint (s_read w (l_owner d) E_WAITING) + by < 2 ^ 64)"

lemma uint_small: "0 \<le> n \<Longrightarrow> n < 2 ^ 64 \<Longrightarrow> uint (word_of_int n :: u64) = n"
  by (simp add: unsigned_of_int take_bit_int_eq_self)

lemma recount_Some:
  assumes "room d w by"
  obtains w' where "recount d w by = Some w'"
  using assms by (cases "l_counted d") (auto simp: recount_def counts_def room_def Let_def)

lemma recount_reads:
  assumes "desc_ok d" "recount d w by = Some w'"
  shows "next_of d w' x = next_of d w x" "prev_of d w' x = prev_of d w x" "first_of d w' = first_of d w"
    "tail_is d w' r = tail_is d w r" "same_but (touched d X) w w'"
    "l_counted d \<Longrightarrow> uint (s_read w' (l_owner d) E_WAITING) = uint (s_read w (l_owner d) E_WAITING) + by"
proof -
  show "next_of d w' x = next_of d w x" "prev_of d w' x = prev_of d w x" "first_of d w' = first_of d w"
    "tail_is d w' r = tail_is d w r"
    using assms desc_sep_count [OF assms(1)]
    by (auto simp: recount_def counts_def Let_def next_of_def prev_of_def first_of_def tail_is_def ipc_reads
        split: if_splits option.splits)
  show "same_but (touched d X) w w'"
    using assms(2) by (auto simp: recount_def counts_def Let_def touchedI intro!: same_but_write split: if_splits)
  show "uint (s_read w' (l_owner d) E_WAITING) = uint (s_read w (l_owner d) E_WAITING) + by" if "l_counted d"
  proof -
    let ?n = "uint (s_read w (l_owner d) E_WAITING) + by"
    have "0 \<le> ?n" "?n < 2 ^ 64" "w' = s_write w (l_owner d) E_WAITING (word_of_int ?n)"
      using assms(2) that by (auto simp: recount_def counts_def Let_def split: if_splits)
    then show ?thesis
      using uint_small [of ?n] by (simp only: read_write at_same if_True simp_thms)
  qed
qed

text \<open>The links after inserting \<open>r\<close> between \<open>a\<close> and \<open>nx\<close>, 0 for the ends.\<close>

definition link_between :: "ilist \<Rightarrow> store \<Rightarrow> u64 \<Rightarrow> u64 \<Rightarrow> u64 \<Rightarrow> store" where
  "link_between d w a r nx =
     (let w = s_write w (mpage d r) (l_prev d) a;
          w = s_write w (mpage d r) (l_next d) nx;
          w = (if a = 0 then s_write w (l_owner d) (l_head d) r else s_write w (mpage d a) (l_next d) r)
      in if nx \<noteq> 0 then s_write w (mpage d nx) (l_prev d) r
         else case l_tail d of Some t \<Rightarrow> s_write w (l_owner d) t r | None \<Rightarrow> w)"

lemma insert_after_eq:
  "insert_after d w a r = recount d (link_between d w a r (if a = 0 then first_of d w else next_of d w a)) 1"
  by (simp add: insert_after_def link_between_def recount_def Let_def)

lemma link_between_reads:
  assumes "desc_ok d" "r \<noteq> a" "r \<noteq> nx"
  shows "next_of d (link_between d w a r nx) x = (if x = r then nx else if x = a \<and> a \<noteq> 0 then r else next_of d w x)"
    "prev_of d (link_between d w a r nx) x = (if x = r then a else if x = nx \<and> nx \<noteq> 0 then r else prev_of d w x)"
    "first_of d (link_between d w a r nx) = (if a = 0 then r else first_of d w)"
    "tail_is d (link_between d w a r nx) z \<longleftrightarrow> (if nx = 0 then l_tail d = None \<or> z = r else tail_is d w z)"
proof -
  note sep = desc_sep [OF assms(1)]
  show "next_of d (link_between d w a r nx) x = (if x = r then nx else if x = a \<and> a \<noteq> 0 then r else next_of d w x)"
    using assms(2,3) by (auto simp: link_between_def Let_def next_of_def ipc_reads sep split: option.split)
  show "prev_of d (link_between d w a r nx) x = (if x = r then a else if x = nx \<and> nx \<noteq> 0 then r else prev_of d w x)"
    using assms(2,3) by (auto simp: link_between_def Let_def prev_of_def ipc_reads sep split: option.split)
  show "first_of d (link_between d w a r nx) = (if a = 0 then r else first_of d w)"
    by (auto simp: link_between_def Let_def first_of_def ipc_reads sep split: option.split)
  show "tail_is d (link_between d w a r nx) z \<longleftrightarrow> (if nx = 0 then l_tail d = None \<or> z = r else tail_is d w z)"
    by (auto simp: link_between_def Let_def tail_is_def ipc_reads sep split: option.split)
qed

lemma link_between_same:
  assumes "r \<in> X" "a = 0 \<or> a \<in> X" "nx = 0 \<or> nx \<in> X"
  shows "same_but (touched d X) w (link_between d w a r nx)"
  using assms by (auto simp: link_between_def Let_def touchedI intro!: same_but_write split: option.split)

lemma inserted:
  assumes l: "linked d w (ys @ zs)" and r: "r \<notin> set (ys @ zs)" "r \<noteq> 0"
    and rd: "\<And>x. x \<in> set (r # ys @ zs) \<Longrightarrow>
        next_of d w' x = (if x = r then head_or zs 0 else if x = last_or 0 ys \<and> last_or 0 ys \<noteq> 0 then r else next_of d w x)"
      "\<And>x. x \<in> set (r # ys @ zs) \<Longrightarrow>
        prev_of d w' x = (if x = r then last_or 0 ys else if x = head_or zs 0 \<and> head_or zs 0 \<noteq> 0 then r else prev_of d w x)"
      "first_of d w' = (if last_or 0 ys = 0 then r else first_of d w)"
      "\<And>z. tail_is d w' z \<longleftrightarrow> (if head_or zs 0 = 0 then l_tail d = None \<or> z = r else tail_is d w z)"
  shows "linked d w' (ys @ r # zs)"
proof -
  let ?a = "last_or 0 ys" and ?nx = "head_or zs 0"
  have nz: "0 \<notin> set ys" "0 \<notin> set zs" and dist: "distinct (ys @ zs)"
    using linkedD(4,5) [OF l] by auto
  have path_ys: "path d w' (first_of d w') ys r"
  proof (cases ys rule: rev_cases)
    case Nil
    then show ?thesis by (simp add: rd)
  next
    case (snoc us u)
    then have "path d w (first_of d w) us u" "u \<noteq> 0" "u \<notin> set us" "r \<notin> set us" "u \<noteq> r"
      using l nz dist r by (auto simp: linked_def path_append)
    moreover from this have "path d w' (first_of d w) us u"
      by (subst path_cong [of us d w' w]) (auto simp: rd snoc)
    ultimately show ?thesis
      by (simp add: snoc path_snoc rd)
  qed
  have path_zs: "path d w' ?nx zs 0"
  proof -
    have "path d w ?nx zs 0"
      using l path_head [of d w _ zs 0] by (auto simp: linked_def path_append)
    moreover have "next_of d w' x = next_of d w x" if "x \<in> set zs" for x
      using that r dist last_in_set [of ys] by (auto simp: rd last_or_def disjoint_iff)
    ultimately show ?thesis
      using path_cong [of zs d w' w] by simp
  qed
  have "backs d w' 0 ys" "backs d w' r zs"
  proof -
    have "prev_of d w' x = prev_of d w x" if "x \<in> set ys" for x
      using that r dist nz by (cases zs) (auto simp: rd)
    then show "backs d w' 0 ys"
      using l backs_cong [of ys d w' w] by (simp add: linked_def backs_append)
    show "backs d w' r zs"
    proof (cases zs)
      case (Cons v vs)
      have "prev_of d w' x = prev_of d w x" if "x \<in> set vs" for x
        using that r dist by (auto simp: rd Cons)
      then show ?thesis
        using l backs_cong [of vs d w' w] r nz by (auto simp: rd Cons linked_def backs_append)
    qed simp
  qed
  moreover have "next_of d w' r = ?nx" "prev_of d w' r = ?a"
    by (simp_all add: rd)
  moreover have "tail_is d w' (last_or r zs)"
    using linkedD(3) [OF l] nz by (cases zs) (auto simp: rd)
  ultimately show ?thesis
    using path_ys path_zs r dist by (simp add: linked_def path_append backs_append)
qed

lemma gap_next:
  assumes "linked d w (ys @ zs)"
  shows "(if last_or 0 ys = 0 then first_of d w else next_of d w (last_or 0 ys)) = head_or zs 0"
proof (cases ys rule: rev_cases)
  case Nil
  then show ?thesis using linkedD(6) [OF assms] by simp
next
  case (snoc us u)
  then show ?thesis using assms linked_split(2,3) [of d w us u zs] by simp
qed

lemma gap_fresh: "r \<notin> set (ys @ zs) \<Longrightarrow> r \<noteq> 0 \<Longrightarrow> r \<noteq> last_or 0 ys" "r \<notin> set (ys @ zs) \<Longrightarrow> r \<noteq> 0 \<Longrightarrow> r \<noteq> head_or zs 0"
  using last_in_set [of ys] by (cases zs; auto simp: last_or_def)+

lemma insert_after_linked:
  assumes ok: "desc_ok d" and l: "linked d w (ys @ zs)" and r: "r \<notin> set (ys @ zs)" "r \<noteq> 0"
    and ins: "insert_after d w (last_or 0 ys) r = Some w'"
  shows "linked d w' (ys @ r # zs)"
proof -
  note gap = gap_next [OF l] gap_fresh [OF r]
  have "recount d (link_between d w (last_or 0 ys) r (head_or zs 0)) 1 = Some w'"
    using ins gap(1) by (simp add: insert_after_eq)
  note rd = recount_reads(1-4) [OF ok this] link_between_reads [OF ok gap(2,3), of w]
  show ?thesis
    by (rule inserted [OF l r]) (simp_all add: rd)
qed

lemma insert_after_same:
  assumes "linked d w (ys @ zs)" "insert_after d w (last_or 0 ys) r = Some w'" "desc_ok d"
  shows "same_but (touched d (insert r (set (ys @ zs)))) w w'"
proof -
  let ?a = "last_or 0 ys" and ?nx = "if last_or 0 ys = 0 then first_of d w else next_of d w (last_or 0 ys)"
  let ?X = "insert r (set (ys @ zs))"
  have "?a = 0 \<or> ?a \<in> ?X"
    by (auto simp: last_or_def)
  moreover have "?nx = 0 \<or> ?nx \<in> ?X"
    using gap_next [OF assms(1)] by (cases zs) auto
  ultimately have "same_but (touched d ?X) w (link_between d w ?a r ?nx)"
    by (intro link_between_same) auto
  moreover have "same_but (touched d ?X) (link_between d w ?a r ?nx) w'"
    using assms(2,3) by (auto simp: insert_after_eq intro: recount_reads(5))
  ultimately show ?thesis
    by (rule same_but_step)
qed

lemma link_between_count:
  assumes "desc_ok d" "l_counted d"
  shows "s_read (link_between d w a r nx) (l_owner d) E_WAITING = s_read w (l_owner d) E_WAITING"
  by (auto simp: link_between_def Let_def ipc_reads desc_sep_count [OF assms] split: option.split)

text \<open>Insertion after the members \<open>ys\<close> returns, unless the count of waiting members is at its limit.\<close>

lemma insert_after_ok:
  assumes "desc_ok d" "linked d w (ys @ zs)" "r \<notin> set (ys @ zs)" "r \<noteq> 0" "room d w 1"
  obtains w' where "insert_after d w (last_or 0 ys) r = Some w'" "linked d w' (ys @ r # zs)"
    "same_but (touched d (insert r (set (ys @ zs)))) w w'"
    "l_counted d \<Longrightarrow> uint (s_read w' (l_owner d) E_WAITING) = uint (s_read w (l_owner d) E_WAITING) + 1"
proof -
  let ?w = "link_between d w (last_or 0 ys) r (if last_or 0 ys = 0 then first_of d w else next_of d w (last_or 0 ys))"
  have c: "l_counted d \<Longrightarrow> s_read ?w (l_owner d) E_WAITING = s_read w (l_owner d) E_WAITING"
    using assms(1) by (rule link_between_count)
  then have "room d ?w 1"
    using assms(5) by (simp add: room_def)
  then obtain w' where w': "insert_after d w (last_or 0 ys) r = Some w'"
    using recount_Some by (metis insert_after_eq)
  moreover have "l_counted d \<Longrightarrow> uint (s_read w' (l_owner d) E_WAITING) = uint (s_read w (l_owner d) E_WAITING) + 1"
    using recount_reads(6) [OF assms(1), of ?w 1 w'] w' c by (simp add: insert_after_eq)
  ultimately show thesis
    using that insert_after_linked [OF assms(1-4)] insert_after_same [OF assms(2) _ assms(1)] by blast
qed

section \<open>Removal and replacement\<close>

text \<open>The links after unlinking \<open>r\<close> from between \<open>pv\<close> and \<open>nx\<close>.\<close>

definition unlink :: "ilist \<Rightarrow> store \<Rightarrow> u64 \<Rightarrow> u64 \<Rightarrow> u64 \<Rightarrow> store" where
  "unlink d w pv r nx =
     (let w = (if pv = 0 then s_write w (l_owner d) (l_head d) nx else s_write w (mpage d pv) (l_next d) nx);
          w = (if nx \<noteq> 0 then s_write w (mpage d nx) (l_prev d) pv
               else case l_tail d of Some t \<Rightarrow> s_write w (l_owner d) t pv | None \<Rightarrow> w);
          w = s_write w (mpage d r) (l_prev d) 0
      in s_write w (mpage d r) (l_next d) 0)"

lemma remove_eq: "remove d w r = recount d (unlink d w (prev_of d w r) r (next_of d w r)) (- 1)"
  by (simp add: remove_def unlink_def recount_def Let_def)

lemma unlink_reads:
  assumes "desc_ok d" "r \<noteq> pv" "r \<noteq> nx"
  shows "next_of d (unlink d w pv r nx) x = (if x = r then 0 else if x = pv \<and> pv \<noteq> 0 then nx else next_of d w x)"
    "prev_of d (unlink d w pv r nx) x = (if x = r then 0 else if x = nx \<and> nx \<noteq> 0 then pv else prev_of d w x)"
    "first_of d (unlink d w pv r nx) = (if pv = 0 then nx else first_of d w)"
    "tail_is d (unlink d w pv r nx) z \<longleftrightarrow> (if nx = 0 then l_tail d = None \<or> z = pv else tail_is d w z)"
proof -
  note sep = desc_sep [OF assms(1)]
  show "next_of d (unlink d w pv r nx) x = (if x = r then 0 else if x = pv \<and> pv \<noteq> 0 then nx else next_of d w x)"
    using assms(2,3) by (auto simp: unlink_def Let_def next_of_def ipc_reads sep split: option.split)
  show "prev_of d (unlink d w pv r nx) x = (if x = r then 0 else if x = nx \<and> nx \<noteq> 0 then pv else prev_of d w x)"
    using assms(2,3) by (auto simp: unlink_def Let_def prev_of_def ipc_reads sep split: option.split)
  show "first_of d (unlink d w pv r nx) = (if pv = 0 then nx else first_of d w)"
    by (auto simp: unlink_def Let_def first_of_def ipc_reads sep split: option.split)
  show "tail_is d (unlink d w pv r nx) z \<longleftrightarrow> (if nx = 0 then l_tail d = None \<or> z = pv else tail_is d w z)"
    by (auto simp: unlink_def Let_def tail_is_def ipc_reads sep split: option.split)
qed

lemma unlink_same:
  assumes "r \<in> X" "pv = 0 \<or> pv \<in> X" "nx = 0 \<or> nx \<in> X"
  shows "same_but (touched d X) w (unlink d w pv r nx)"
  using assms by (auto simp: unlink_def Let_def touchedI intro!: same_but_write split: option.split)

lemma unlink_count:
  assumes "desc_ok d" "l_counted d"
  shows "s_read (unlink d w pv r nx) (l_owner d) E_WAITING = s_read w (l_owner d) E_WAITING"
  by (auto simp: unlink_def Let_def ipc_reads desc_sep_count [OF assms] split: option.split)

lemma unlinked:
  assumes ok: "desc_ok d" and l: "linked d w (ys @ r # zs)"
    and rd: "\<And>x. next_of d w' x = (if x = r then 0 else if x = last_or 0 ys \<and> last_or 0 ys \<noteq> 0 then head_or zs 0 else next_of d w x)"
      "\<And>x. prev_of d w' x = (if x = r then 0 else if x = head_or zs 0 \<and> head_or zs 0 \<noteq> 0 then last_or 0 ys else prev_of d w x)"
      "first_of d w' = (if last_or 0 ys = 0 then head_or zs 0 else first_of d w)"
      "\<And>z. tail_is d w' z \<longleftrightarrow> (if head_or zs 0 = 0 then l_tail d = None \<or> z = last_or 0 ys else tail_is d w z)"
  shows "linked d w' (ys @ zs)"
proof -
  have dist: "distinct (ys @ r # zs)" and nz: "0 \<notin> set (ys @ r # zs)"
    using linkedD(4,5) [OF l] .
  have zs: "path d w (head_or zs 0) zs 0"
    using l path_head [of d w _ zs 0] by (auto simp: linked_def path_append)
  have path_zs: "path d w' (head_or zs 0) zs 0"
  proof -
    have "next_of d w' x = next_of d w x" if "x \<in> set zs" for x
      using that dist last_in_set [of ys] by (auto simp: rd(1) last_or_def disjoint_iff)
    then show ?thesis
      using zs path_cong [of zs d w' w] by simp
  qed
  have path_ys: "path d w' (first_of d w') ys (head_or zs 0)"
  proof (cases ys rule: rev_cases)
    case Nil
    then show ?thesis by (simp add: rd(3))
  next
    case (snoc us u)
    then have "path d w (first_of d w) us u" "u \<noteq> 0" "u \<notin> set us" "r \<notin> set us" "u \<noteq> r"
      using l nz dist by (auto simp: linked_def path_append)
    moreover from this have "path d w' (first_of d w) us u"
      by (subst path_cong [of us d w' w]) (auto simp: rd(1) snoc)
    ultimately show ?thesis
      by (simp add: snoc path_snoc rd(1,3))
  qed
  have "prev_of d w' x = prev_of d w x" if "x \<in> set ys" for x
    using that dist nz by (cases zs) (auto simp: rd(2))
  then have "backs d w' 0 ys"
    using l backs_cong [of ys d w' w] by (simp add: linked_def backs_append)
  moreover have "backs d w' (last_or 0 ys) zs"
  proof (cases zs)
    case (Cons v vs)
    have "prev_of d w' x = prev_of d w x" if "x \<in> set vs" for x
      using that dist by (auto simp: rd(2) Cons)
    then show ?thesis
      using l backs_cong [of vs d w' w] dist nz by (auto simp: rd(2) Cons linked_def backs_append)
  qed simp
  moreover have "tail_is d w' (last_or 0 (ys @ zs))"
    using linkedD(3) [OF l] nz by (cases zs) (auto simp: rd(4))
  ultimately show ?thesis
    using path_ys path_zs dist by (auto simp: linked_def path_append backs_append)
qed

lemma split_neighbours:
  assumes "linked d w (ys @ r # zs)"
  shows "r \<noteq> last_or 0 ys" "r \<noteq> head_or zs 0"
    "last_or 0 ys = 0 \<or> last_or 0 ys \<in> set ys" "head_or zs 0 = 0 \<or> head_or zs 0 \<in> set zs"
  using linkedD(4,5) [OF assms] last_in_set [of ys] by (cases zs; auto simp: last_or_def)+

lemma remove_ok:
  assumes "desc_ok d" "linked d w (ys @ r # zs)" "room d w (- 1)"
  obtains w' where "remove d w r = Some w'" "linked d w' (ys @ zs)" "next_of d w' r = 0" "prev_of d w' r = 0"
    "same_but (touched d (set (ys @ r # zs))) w w'"
    "l_counted d \<Longrightarrow> uint (s_read w' (l_owner d) E_WAITING) = uint (s_read w (l_owner d) E_WAITING) - 1"
proof -
  let ?u = "unlink d w (last_or 0 ys) r (head_or zs 0)"
  note nb = split_neighbours [OF assms(2)]
  have eq: "remove d w r = recount d ?u (- 1)"
    using linked_split(1,2) [OF assms(2)] by (simp add: remove_eq)
  have c: "l_counted d \<Longrightarrow> s_read ?u (l_owner d) E_WAITING = s_read w (l_owner d) E_WAITING"
    using assms(1) by (rule unlink_count)
  then have "room d ?u (- 1)"
    using assms(3) by (simp add: room_def)
  then obtain w' where w': "recount d ?u (- 1) = Some w'"
    by (rule recount_Some)
  note rc = recount_reads [OF assms(1) w'] and rd = unlink_reads [OF assms(1) nb(1,2), of w]
  have "linked d w' (ys @ zs)"
    by (rule unlinked [OF assms(1,2)]) (simp_all add: rc rd)
  moreover have "same_but (touched d (set (ys @ r # zs))) w ?u"
    using nb(3,4) by (intro unlink_same) auto
  then have "same_but (touched d (set (ys @ r # zs))) w w'"
    using rc(5) by (rule same_but_step)
  moreover have "l_counted d \<Longrightarrow> uint (s_read w' (l_owner d) E_WAITING) = uint (s_read w (l_owner d) E_WAITING) - 1"
    using rc(6) c by simp
  ultimately show thesis
    using that w' eq rc(1,2) rd(1,2) by simp
qed

lemma push_front_ok:
  assumes "desc_ok d" "linked d w xs" "r \<notin> set xs" "r \<noteq> 0" "room d w 1"
  obtains w' where "push_front d w r = Some w'" "linked d w' (r # xs)" "same_but (touched d (insert r (set xs))) w w'"
    "l_counted d \<Longrightarrow> uint (s_read w' (l_owner d) E_WAITING) = uint (s_read w (l_owner d) E_WAITING) + 1"
proof -
  have "linked d w ([] @ xs)" "r \<notin> set ([] @ xs)"
    using assms by simp_all
  from insert_after_ok [OF assms(1) this assms(4,5)] obtain w' where
    "insert_after d w (last_or 0 []) r = Some w'" "linked d w' ([] @ r # xs)"
    "same_but (touched d (insert r (set ([] @ xs)))) w w'"
    "l_counted d \<Longrightarrow> uint (s_read w' (l_owner d) E_WAITING) = uint (s_read w (l_owner d) E_WAITING) + 1"
    by blast
  then show thesis
    by (intro that [of w']) (simp_all add: push_front_def)
qed

lemma push_back_ok:
  assumes "desc_ok d" "linked d w xs" "r \<notin> set xs" "r \<noteq> 0" "room d w 1" "l_tail d \<noteq> None"
  obtains w' where "push_back d w r = Some w'" "linked d w' (xs @ [r])" "same_but (touched d (insert r (set xs))) w w'"
    "l_counted d \<Longrightarrow> uint (s_read w' (l_owner d) E_WAITING) = uint (s_read w (l_owner d) E_WAITING) + 1"
proof -
  have l: "last_of d w = Some (last_or 0 xs)"
    using linkedD(3) [OF assms(2)] assms(6) by (auto simp: last_of_def tail_is_def)
  have "linked d w (xs @ [])" "r \<notin> set (xs @ [])"
    using assms by simp_all
  from insert_after_ok [OF assms(1) this assms(4,5)] obtain w' where
    "insert_after d w (last_or 0 xs) r = Some w'" "linked d w' (xs @ r # [])"
    "same_but (touched d (insert r (set (xs @ [])))) w w'"
    "l_counted d \<Longrightarrow> uint (s_read w' (l_owner d) E_WAITING) = uint (s_read w (l_owner d) E_WAITING) + 1"
    by blast
  then show thesis
    by (intro that [of w']) (simp_all add: push_back_def l)
qed

lemma pop_front_ok:
  assumes "desc_ok d" "linked d w (x # xs)" "room d w (- 1)"
  obtains w' where "pop_front d w = Some (w', x)" "linked d w' xs" "same_but (touched d (set (x # xs))) w w'"
    "l_counted d \<Longrightarrow> uint (s_read w' (l_owner d) E_WAITING) = uint (s_read w (l_owner d) E_WAITING) - 1"
proof -
  have l: "linked d w ([] @ x # xs)"
    using assms(2) by simp
  have x: "first_of d w = x" "x \<noteq> 0"
    using linkedD(5,6) [OF assms(2)] by simp_all
  from remove_ok [OF assms(1) l assms(3)] obtain w' where "remove d w x = Some w'" "linked d w' ([] @ xs)"
    "same_but (touched d (set ([] @ x # xs))) w w'"
    "l_counted d \<Longrightarrow> uint (s_read w' (l_owner d) E_WAITING) = uint (s_read w (l_owner d) E_WAITING) - 1"
    by blast
  then show thesis
    by (intro that [of w']) (simp_all add: pop_front_def x)
qed

lemma pop_front_empty: "linked d w [] \<Longrightarrow> pop_front d w = Some (w, 0)"
  by (auto simp: pop_front_def dest: linkedD(6))

definition swap_in :: "ilist \<Rightarrow> store \<Rightarrow> u64 \<Rightarrow> u64 \<Rightarrow> u64 \<Rightarrow> u64 \<Rightarrow> store" where
  "swap_in d w pv old new nx =
     (let w = s_write w (mpage d new) (l_prev d) pv;
          w = s_write w (mpage d new) (l_next d) nx;
          w = (if pv = 0 then s_write w (l_owner d) (l_head d) new else s_write w (mpage d pv) (l_next d) new);
          w = (if nx \<noteq> 0 then s_write w (mpage d nx) (l_prev d) new
               else case l_tail d of Some t \<Rightarrow> s_write w (l_owner d) t new | None \<Rightarrow> w);
          w = s_write w (mpage d old) (l_prev d) 0
      in s_write w (mpage d old) (l_next d) 0)"

lemma replace_eq: "replace d w old new = swap_in d w (prev_of d w old) old new (next_of d w old)"
  by (simp add: replace_def swap_in_def Let_def)

lemma swap_in_reads:
  assumes "desc_ok d" "old \<noteq> pv" "old \<noteq> nx" "new \<noteq> old" "new \<noteq> pv" "new \<noteq> nx"
  shows "next_of d (swap_in d w pv old new nx) x =
      (if x = new then nx else if x = pv \<and> pv \<noteq> 0 then new else if x = old then 0 else next_of d w x)"
    "prev_of d (swap_in d w pv old new nx) x =
      (if x = new then pv else if x = nx \<and> nx \<noteq> 0 then new else if x = old then 0 else prev_of d w x)"
    "first_of d (swap_in d w pv old new nx) = (if pv = 0 then new else first_of d w)"
    "tail_is d (swap_in d w pv old new nx) z \<longleftrightarrow> (if nx = 0 then l_tail d = None \<or> z = new else tail_is d w z)"
proof -
  note sep = desc_sep [OF assms(1)]
  show "next_of d (swap_in d w pv old new nx) x =
      (if x = new then nx else if x = pv \<and> pv \<noteq> 0 then new else if x = old then 0 else next_of d w x)"
    using assms(2-6) by (auto simp: swap_in_def Let_def next_of_def ipc_reads sep split: option.split)
  show "prev_of d (swap_in d w pv old new nx) x =
      (if x = new then pv else if x = nx \<and> nx \<noteq> 0 then new else if x = old then 0 else prev_of d w x)"
    using assms(2-6) by (auto simp: swap_in_def Let_def prev_of_def ipc_reads sep split: option.split)
  show "first_of d (swap_in d w pv old new nx) = (if pv = 0 then new else first_of d w)"
    by (auto simp: swap_in_def Let_def first_of_def ipc_reads sep split: option.split)
  show "tail_is d (swap_in d w pv old new nx) z \<longleftrightarrow> (if nx = 0 then l_tail d = None \<or> z = new else tail_is d w z)"
    by (auto simp: swap_in_def Let_def tail_is_def ipc_reads sep split: option.split)
qed

lemma replace_linked:
  assumes ok: "desc_ok d" and l: "linked d w (ys @ old # zs)" and new: "new \<notin> set (ys @ old # zs)" "new \<noteq> 0"
  shows "linked d (replace d w old new) (ys @ new # zs)"
    and "same_but (touched d (insert new (set (ys @ old # zs)))) w (replace d w old new)"
    and "prev_of d (replace d w old new) old = 0" "next_of d (replace d w old new) old = 0"
proof -
  let ?pv = "last_or 0 ys" and ?nx = "head_or zs 0"
  note nb = split_neighbours [OF l]
  have ne: "new \<noteq> old" "new \<noteq> ?pv" "new \<noteq> ?nx"
    using new nb(3,4) by auto
  have eq: "replace d w old new = swap_in d w ?pv old new ?nx"
    using linked_split(1,2) [OF l] by (simp add: replace_eq)
  note rd = unlink_reads [OF ok nb(1,2), of w] and rs = swap_in_reads [OF ok nb(1,2) ne, of w]
  have u: "linked d (unlink d w ?pv old ?nx) (ys @ zs)"
    by (rule unlinked [OF ok l]) (simp_all add: rd)
  show "linked d (replace d w old new) (ys @ new # zs)"
    unfolding eq by (rule inserted [OF u]) (use new nb(1,2) in \<open>auto simp: rd rs\<close>)
  show "prev_of d (replace d w old new) old = 0" "next_of d (replace d w old new) old = 0"
    unfolding eq using ne nb(1,2) by (simp_all add: rs)
  show "same_but (touched d (insert new (set (ys @ old # zs)))) w (replace d w old new)"
    unfolding eq using nb(3,4)
    by (auto simp: swap_in_def Let_def touchedI intro!: same_but_write split: option.split)
qed

section \<open>Ordered insertion\<close>

lemma place_by_place:
  assumes "linked d w (ys @ zs)"
  shows "place_by d w key k (last_or 0 ys) = Some (last_or 0 (ys @ takeWhile (\<lambda>x. key w x \<le> k) zs))"
  using assms
proof (induction zs arbitrary: ys)
  case Nil
  then show ?case
    using gap_next [OF Nil] by (subst place_by.simps) (simp add: Let_def)
next
  case (Cons z zs)
  have z: "z \<noteq> 0"
    using linkedD(5) [OF Cons.prems] by auto
  have "linked d w ((ys @ [z]) @ zs)"
    using Cons.prems by simp
  from Cons.IH [OF this] gap_next [OF Cons.prems] z show ?case
    by (subst place_by.simps) (auto simp: Let_def)
qed

lemma insert_by_ok:
  fixes key :: "store \<Rightarrow> u64 \<Rightarrow> 'k :: linorder"
  assumes "desc_ok d" "linked d w xs" "r \<notin> set xs" "r \<noteq> 0" "room d w 1"
  obtains w' where "insert_by d w r key = Some w'"
    "linked d w' (takeWhile (\<lambda>x. key w x \<le> key w r) xs @ r # dropWhile (\<lambda>x. key w x \<le> key w r) xs)"
    "same_but (touched d (insert r (set xs))) w w'"
proof -
  let ?P = "\<lambda>x. key w x \<le> key w r"
  have split: "xs = takeWhile ?P xs @ dropWhile ?P xs"
    by simp
  then have "linked d w (takeWhile ?P xs @ dropWhile ?P xs)" "r \<notin> set (takeWhile ?P xs @ dropWhile ?P xs)"
    using assms(2,3) by simp_all
  from insert_after_ok [OF assms(1) this assms(4,5)] obtain w' where
    "insert_after d w (last_or 0 (takeWhile ?P xs)) r = Some w'" "linked d w' (takeWhile ?P xs @ r # dropWhile ?P xs)"
    "same_but (touched d (insert r (set (takeWhile ?P xs @ dropWhile ?P xs)))) w w'"
    by blast
  moreover have "place_by d w key (key w r) 0 = Some (last_or 0 (takeWhile ?P xs))"
    using place_by_place [of d w "[]" xs key "key w r"] assms(2) by simp
  ultimately show thesis
    by (intro that [of w']) (simp_all add: insert_by_def)
qed

lemma walk_back_place:
  assumes "linked d w (ys @ y # zs)"
  shows "walk_back d w key k y = Some (last_or y (takeWhile (\<lambda>x. key w x \<le> k) zs))"
  using assms
proof (induction zs arbitrary: ys y)
  case Nil
  then show ?case
    using linked_split(2) [OF Nil] by (subst walk_back.simps) simp
next
  case (Cons z zs)
  have z: "z \<noteq> 0"
    using linkedD(5) [OF Cons.prems] by auto
  have "linked d w ((ys @ [y]) @ z # zs)"
    using Cons.prems by simp
  from Cons.IH [OF this] linked_split(2) [OF Cons.prems] z show ?case
    by (subst walk_back.simps) (auto simp: Let_def)
qed

lemma moved_back_ok:
  assumes ok: "desc_ok d" "\<not> l_counted d" and l: "linked d w (ys @ r # zs)"
    and key: "\<And>w' x. same_but (touched d (set (ys @ r # zs))) w w' \<Longrightarrow> x \<in> set zs \<Longrightarrow> key w' x = key w x"
  obtains w' where "moved_back d w r key = Some w'"
    "linked d w' (ys @ takeWhile (\<lambda>x. key w x \<le> key w r) zs @ r # dropWhile (\<lambda>x. key w x \<le> key w r) zs)"
    "same_but (touched d (set (ys @ r # zs))) w w'"
proof (cases "zs = [] \<or> key w (hd zs) > key w r")
  case True
  have "next_of d w r = head_or zs 0" "0 \<notin> set zs"
    using linked_split(2) [OF l] linkedD(5) [OF l] by auto
  then have "moved_back d w r key = Some w"
    using True by (cases zs) (auto simp: moved_back_def)
  moreover have "takeWhile (\<lambda>x. key w x \<le> key w r) zs = []" "dropWhile (\<lambda>x. key w x \<le> key w r) zs = zs"
    using True by (cases zs; simp)+
  ultimately show thesis
    using that [of w] l by simp
next
  case False
  then obtain v vs where zs: "zs = v # vs" and v: "key w v \<le> key w r"
    by (cases zs) auto
  let ?P = "\<lambda>x. key w x \<le> key w r"
  from remove_ok [OF ok(1) l] ok(2) obtain w1 where w1: "remove d w r = Some w1" "linked d w1 (ys @ zs)"
    and same1: "same_but (touched d (set (ys @ r # zs))) w w1"
    by (auto simp: room_def)
  have k: "x \<in> set zs \<Longrightarrow> key w1 x = key w x" for x
    using key same1 by blast
  have tw: "takeWhile (\<lambda>x. key w1 x \<le> key w r) vs = takeWhile ?P vs"
    using k zs by (intro takeWhile_cong) auto
  have walk: "walk_back d w1 key (key w r) v = Some (last_or v (takeWhile ?P vs))"
    using walk_back_place [of d w1 ys v vs key "key w r"] w1(2) zs tw by simp
  have "linked d w1 ((ys @ takeWhile ?P zs) @ dropWhile ?P zs)" "r \<notin> set ((ys @ takeWhile ?P zs) @ dropWhile ?P zs)" "r \<noteq> 0"
    using w1(2) linked_split(3-5) [OF l] by simp_all
  from insert_after_ok [OF ok(1) this] ok(2) obtain w2 where
    w2: "insert_after d w1 (last_or 0 (ys @ takeWhile ?P zs)) r = Some w2"
      "linked d w2 ((ys @ takeWhile ?P zs) @ r # dropWhile ?P zs)"
      "same_but (touched d (insert r (set ((ys @ takeWhile ?P zs) @ dropWhile ?P zs)))) w1 w2"
    by (auto simp: room_def)
  have "insert r (set ((ys @ takeWhile ?P zs) @ dropWhile ?P zs)) = set (ys @ r # zs)"
    by simp
  then have "same_but (touched d (set (ys @ r # zs))) w w2"
    using same_but_step [OF same1] w2(3) by metis
  moreover have "last_or 0 (ys @ takeWhile ?P zs) = last_or v (takeWhile ?P vs)"
    using v zs by simp
  moreover have "next_of d w r = v" "v \<noteq> 0"
    using linked_split(2) [OF l] linkedD(5) [OF l] zs by auto
  moreover from calculation have "moved_back d w r key = Some w2"
    using w1(1) w2(1) walk leD [OF v] by (simp add: moved_back_def Let_def)
  ultimately show thesis
    using that [of w2] w2(2) by simp
qed

end
