(* ===== verification/Ipc_Merge.thy ===== *)
theory Ipc_Merge
  imports Ipc_Links "HOL-Library.Multiset"
begin

text \<open>
  The merge of a list's sort: the functional merge of adjacent runs, and that a pass over the forward
  links computes it.  A pass merges the runs of a width two by two, in place; the
  members already merged are a segment whose last member's forward link is not yet set.
\<close>

section \<open>The merge sort on lists\<close>

text \<open>Two runs, merged as the pass merges them: the left one's first unless the right one's key is lower.\<close>

fun weave :: "('a \<Rightarrow> 'k :: linorder) \<Rightarrow> 'a list \<Rightarrow> 'a list \<Rightarrow> 'a list" where
  "weave f [] rs = rs"
| "weave f ls [] = ls"
| "weave f (l # ls) (r # rs) = (if f r < f l then r # weave f (l # ls) rs else l # weave f ls (r # rs))"

lemma weave_Nil2 [simp]: "weave f xs [] = xs"
  by (cases xs) auto

lemma mset_weave [simp]: "mset (weave f xs ys) = mset xs + mset ys"
  by (induction f xs ys rule: weave.induct) auto

lemma set_weave [simp]: "set (weave f xs ys) = set xs \<union> set ys"
  using mset_weave [of f xs ys] by (metis set_mset_mset set_mset_union)

lemma length_weave [simp]: "length (weave f xs ys) = length xs + length ys"
  using mset_weave [of f xs ys] by (metis size_mset size_union)

lemma sorted_weave: "sorted (map f xs) \<Longrightarrow> sorted (map f ys) \<Longrightarrow> sorted (map f (weave f xs ys))"
  by (induction f xs ys rule: weave.induct) (auto intro: order_trans)

lemma filter_weave: "sorted (map f xs) \<Longrightarrow> filter (\<lambda>x. f x = k) (weave f xs ys) = filter (\<lambda>x. f x = k) xs @ filter (\<lambda>x. f x = k) ys"
proof (induction f xs ys rule: weave.induct)
  case (3 f x xs y ys)
  show ?case
  proof (cases "f x \<le> f y")
    case False
    then have "filter (\<lambda>z. f z = f y) (x # xs) = []"
      using 3(3) by (auto simp: filter_empty_conv)
    with False 3 show ?thesis
      by auto
  qed (use 3 in auto)
qed auto

function merge_adj :: "('a \<Rightarrow> 'k :: linorder) \<Rightarrow> nat \<Rightarrow> 'a list \<Rightarrow> 'a list" where
  "merge_adj f n xs =
     (if xs = [] \<or> n = 0 then xs
      else weave f (take n xs) (take n (drop n xs)) @ merge_adj f n (drop n (drop n xs)))"
  by pat_completeness auto
termination
  by (relation "measure (\<lambda>(f, n, xs). length xs)") auto

declare merge_adj.simps [simp del]

lemma merge_adj_Nil [simp]: "merge_adj f n [] = []"
  by (simp add: merge_adj.simps)

lemma mset_merge_adj: "mset (merge_adj f n xs) = mset xs"
proof (induction f n xs rule: merge_adj.induct)
  case (1 f n xs)
  have "mset (take n xs) + (mset (take n (drop n xs)) + mset (drop n (drop n xs))) = mset xs"
    by (metis append_take_drop_id mset_append)
  with 1 show ?case
    by (subst merge_adj.simps) (auto simp: union_assoc)
qed

lemma length_merge_adj [simp]: "length (merge_adj f n xs) = length xs"
  using mset_merge_adj [of f n xs] by (metis size_mset)

definition sorted_runs :: "('a \<Rightarrow> 'k :: linorder) \<Rightarrow> nat \<Rightarrow> 'a list \<Rightarrow> bool" where
  "sorted_runs f n xs \<longleftrightarrow> (\<forall>i. sorted (map f (take n (drop (i * n) xs))))"

lemma sorted_runs_drop: "sorted_runs f n xs \<Longrightarrow> sorted_runs f n (drop n xs)"
  unfolding sorted_runs_def
proof
  fix i
  assume "\<forall>i. sorted (map f (take n (drop (i * n) xs)))"
  from this [rule_format, of "Suc i"] show "sorted (map f (take n (drop (i * n) (drop n xs))))"
    by (simp add: add.commute)
qed

lemma sorted_runs_take: "sorted_runs f n xs \<Longrightarrow> sorted (map f (take n xs))"
  unfolding sorted_runs_def by (metis drop0 mult_0)

lemma filter_merge_adj:
  "sorted_runs f n xs \<Longrightarrow> filter (\<lambda>x. f x = k) (merge_adj f n xs) = filter (\<lambda>x. f x = k) xs"
proof (induction f n xs rule: merge_adj.induct)
  case (1 f n xs)
  show ?case
  proof (cases "xs = [] \<or> n = 0")
    case False
    have "sorted (map f (take n xs))" "sorted_runs f n (drop n (drop n xs))"
      using 1(2) sorted_runs_take sorted_runs_drop by blast+
    with False 1(1) have "filter (\<lambda>x. f x = k) (merge_adj f n xs) =
        filter (\<lambda>x. f x = k) (take n xs @ take n (drop n xs) @ drop n (drop n xs))"
      by (subst merge_adj.simps) (simp add: filter_weave)
    then show ?thesis
      by (simp only: append_take_drop_id)
  qed (simp add: merge_adj.simps)
qed

lemma sorted_runs_merge_adj: "0 < n \<Longrightarrow> sorted_runs f n xs \<Longrightarrow> sorted_runs f (n + n) (merge_adj f n xs)"
proof (induction f n xs rule: merge_adj.induct)
  case (1 f n xs)
  show ?case
  proof (cases "xs = []")
    case True
    then show ?thesis
      by (simp add: sorted_runs_def)
  next
    case False
    let ?ys = "take n xs" and ?zs = "take n (drop n xs)" and ?rest = "drop n (drop n xs)"
    have m: "merge_adj f n xs = weave f ?ys ?zs @ merge_adj f n ?rest"
      using False 1(2) by (subst merge_adj.simps) simp
    have runs: "sorted_runs f n (drop n xs)" "sorted_runs f n ?rest"
      using 1(3) sorted_runs_drop by blast+
    have sm: "sorted (map f (weave f ?ys ?zs))"
      using sorted_runs_take [OF 1(3)] sorted_runs_take [OF runs(1)] by (rule sorted_weave)
    have IH: "sorted_runs f (n + n) (merge_adj f n ?rest)"
      using False 1(1,2) runs(2) by simp
    show ?thesis
      unfolding sorted_runs_def
    proof
      fix i
      show "sorted (map f (take (n + n) (drop (i * (n + n)) (merge_adj f n xs))))"
      proof (cases "length xs \<le> n + n")
        case True
        then have "?rest = []"
          by simp
        then show ?thesis
          using sm by (simp add: m sorted_wrt_take sorted_wrt_drop take_map [symmetric] drop_map [symmetric])
      next
        case False
        then have len: "length (weave f ?ys ?zs) = n + n"
          by simp
        show ?thesis
        proof (cases i)
          case 0
          then show ?thesis using sm len by (simp add: m)
        next
          case (Suc j)
          have "drop (i * (n + n)) (merge_adj f n xs) = drop (j * (n + n)) (merge_adj f n ?rest)"
            using len by (simp add: m Suc)
          then show ?thesis
            using IH by (simp add: sorted_runs_def)
        qed
      qed
    qed
  qed
qed

lemma sorted_runs_one: "sorted_runs f 1 xs"
proof -
  have "sorted (map f (take 1 ys))" for ys
    by (cases ys) auto
  then show ?thesis
    by (simp add: sorted_runs_def)
qed

lemma stable_sorted:
  assumes "mset ys = mset xs" "\<And>k. filter (\<lambda>x. f x = k) ys = filter (\<lambda>x. f x = k) xs" "sorted (map f ys)"
  shows "sort_key f xs = ys"
  using assms by (intro properties_for_sort_key) (auto simp: eq_commute)

section \<open>Runs on the links\<close>

declare take_run.simps [simp del] merge_runs.simps [simp del]

lemma count_from_path: "path d w r xs 0 \<Longrightarrow> count_from d w r n = Some (n + length xs)"
proof (induction xs arbitrary: r n)
  case Nil
  then show ?case by (subst count_from.simps) simp
next
  case (Cons x xs)
  then show ?case by (subst count_from.simps) simp
qed

lemma take_run_path:
  "path d w q xs 0 \<Longrightarrow> sz \<le> n \<Longrightarrow>
    take_run d w n q sz = (head_or (drop (n - sz) xs) 0, sz + length (take (n - sz) xs))"
proof (induction xs arbitrary: q sz)
  case Nil
  then show ?case by (subst take_run.simps) simp
next
  case (Cons x xs)
  show ?case
  proof (cases "sz < n")
    case True
    then have "n - sz = Suc (n - Suc sz)"
      by simp
    with Cons True show ?thesis
      by (subst take_run.simps) simp
  next
    case False
    with Cons show ?thesis
      by (subst take_run.simps) simp
  qed
qed

text \<open>The forward links of a set of members, and keys that do not depend on them.\<close>

definition next_words :: "ilist \<Rightarrow> u64 set \<Rightarrow> (page \<times> nat) set" where
  "next_words d X = (\<lambda>x. (mpage d x, l_next d)) ` X"

lemma next_of_same: "same_but (next_words d X) w w' \<Longrightarrow> x \<notin> X \<Longrightarrow> next_of d w' x = next_of d w x"
  unfolding next_of_def by (rule same_butD) (auto simp: next_words_def)

lemma path_same: "same_but (next_words d X) w w' \<Longrightarrow> set xs \<inter> X = {} \<Longrightarrow> path d w' a xs b \<longleftrightarrow> path d w a xs b"
  by (rule path_cong) (auto intro: next_of_same)

definition seg :: "ilist \<Rightarrow> store \<Rightarrow> u64 list \<Rightarrow> bool" where
  "seg d w xs \<longleftrightarrow> xs = [] \<or> path d w (hd xs) (butlast xs) (last xs)"

lemma seg_snoc:
  assumes "seg d w xs" "distinct (xs @ [e])" "0 \<notin> set xs"
  shows "seg d (if xs = [] then w else s_write w (mpage d (last xs)) (l_next d) e) (xs @ [e])"
proof (cases xs rule: rev_cases)
  case (snoc ys y)
  let ?w = "s_write w (mpage d y) (l_next d) e"
  have same: "same_but (next_words d {y}) w ?w"
    by (intro same_but_write) (auto simp: next_words_def)
  have "path d w (hd xs) ys y" "y \<notin> set ys" "y \<noteq> 0"
    using assms snoc by (auto simp: seg_def)
  then have "path d ?w (hd xs) ys y"
    using path_same [OF same, of ys] by simp
  moreover have "next_of d ?w y = e"
    by (simp add: next_of_def ipc_reads)
  ultimately show ?thesis
    using snoc \<open>y \<noteq> 0\<close> by (auto simp: seg_def path_snoc hd_append butlast_append split: if_splits)
qed (simp add: seg_def)

lemma seg_path:
  assumes "seg d w xs" "xs \<noteq> []" "distinct xs" "0 \<notin> set xs"
  shows "path d (s_write w (mpage d (last xs)) (l_next d) b) (hd xs) xs b"
proof (cases xs rule: rev_cases)
  case (snoc ys y)
  let ?w = "s_write w (mpage d y) (l_next d) b"
  have same: "same_but (next_words d {y}) w ?w"
    by (intro same_but_write) (auto simp: next_words_def)
  have "path d w (hd xs) ys y" "y \<notin> set ys" "y \<noteq> 0"
    using assms snoc by (auto simp: seg_def)
  then have "path d ?w (hd xs) ys y"
    using path_same [OF same, of ys] by simp
  moreover have "next_of d ?w y = b"
    by (simp add: next_of_def ipc_reads)
  ultimately show ?thesis
    using snoc \<open>y \<noteq> 0\<close> by (simp add: path_snoc)
qed (use assms in simp)

section \<open>Merging in place\<close>

lemma next_words_mono: "X \<subseteq> Y \<Longrightarrow> next_words d X \<subseteq> next_words d Y"
  by (auto simp: next_words_def)

text \<open>The keys of the members \<open>Y\<close> are \<open>f\<close>, whatever becomes of the forward links of \<open>X\<close>.\<close>

definition keyed :: "ilist \<Rightarrow> (store \<Rightarrow> u64 \<Rightarrow> 'k) \<Rightarrow> (u64 \<Rightarrow> 'k) \<Rightarrow> u64 set \<Rightarrow> u64 set \<Rightarrow> store \<Rightarrow> bool" where
  "keyed d key f X Y w \<longleftrightarrow> (\<forall>w' x. same_but (next_words d X) w w' \<longrightarrow> x \<in> Y \<longrightarrow> key w' x = f x)"

lemma keyedD: "keyed d key f X Y w \<Longrightarrow> x \<in> Y \<Longrightarrow> key w x = f x"
  unfolding keyed_def using same_but_refl by blast

lemma keyed_mono:
  assumes "keyed d key f X Y w" "same_but (next_words d X) w w1" "X' \<subseteq> X" "Y' \<subseteq> Y"
  shows "keyed d key f X' Y' w1"
  unfolding keyed_def
proof (intro allI impI)
  fix w' x
  assume a: "same_but (next_words d X') w1 w'" "x \<in> Y'"
  then have "same_but (next_words d X) w1 w'"
    using next_words_mono [OF assms(3)] same_but_mono by blast
  with assms(2) have "same_but (next_words d X) w w'"
    by (rule same_but_step)
  with assms(1,4) a(2) show "key w' x = f x"
    unfolding keyed_def by blast
qed

text \<open>
  From the output \<open>xs\<close> and the runs \<open>ls\<close> and \<open>rs\<close>, the merge leaves the output \<open>xs @ weave f ls rs\<close>;
  \<open>f\<close> is the keys as they were.
\<close>

text \<open>The next member merged, and what is left of the runs.\<close>

definition from_left :: "('a \<Rightarrow> 'k :: linorder) \<Rightarrow> 'a list \<Rightarrow> 'a list \<Rightarrow> bool" where
  "from_left f ls rs \<longleftrightarrow> rs = [] \<or> (ls \<noteq> [] \<and> f (hd ls) \<le> f (hd rs))"

lemma weave_left: "from_left f (x # ls) rs \<Longrightarrow> weave f (x # ls) rs = x # weave f ls rs"
  by (cases rs) (auto simp: from_left_def)

lemma weave_right: "\<not> from_left f ls (x # rs) \<Longrightarrow> weave f ls (x # rs) = x # weave f ls rs"
  by (cases ls) (auto simp: from_left_def)

lemma merge_runs_step:
  assumes "lsize > 0 \<or> rsize > 0"
  shows "rsize = 0 \<or> (lsize > 0 \<and> key w l \<le> key w r) \<Longrightarrow> merge_runs d key w l lsize r rsize out lst =
      merge_runs d key (if lst = 0 then w else s_write w (mpage d lst) (l_next d) l) (next_of d w l) (lsize - 1) r rsize
        (if lst = 0 then l else out) l"
    and "\<not> (rsize = 0 \<or> (lsize > 0 \<and> key w l \<le> key w r)) \<Longrightarrow> merge_runs d key w l lsize r rsize out lst =
      merge_runs d key (if lst = 0 then w else s_write w (mpage d lst) (l_next d) r) l lsize (next_of d w r) (rsize - 1)
        (if lst = 0 then r else out) r"
  using assms(1) by (subst merge_runs.simps; auto simp: Let_def)+

lemma merge_runs_seg:
  fixes key :: "store \<Rightarrow> u64 \<Rightarrow> 'k :: linorder"
  assumes "seg d w xs" "path d w l ls bl" "path d w r rs br" "distinct (xs @ ls @ rs)" "0 \<notin> set (xs @ ls @ rs)"
    "keyed d key f (set (xs @ ls @ rs)) (set (ls @ rs)) w"
  shows "\<exists>w'. merge_runs d key w l (length ls) r (length rs) (head_or xs 0) (last_or 0 xs) =
      (w', head_or (xs @ weave f ls rs) 0, last_or 0 (xs @ weave f ls rs)) \<and>
    seg d w' (xs @ weave f ls rs) \<and> same_but (next_words d (set (xs @ ls @ rs))) w w'"
  using assms
proof (induction "length ls + length rs" arbitrary: w xs l ls r rs)
  case 0
  then show ?case
    by (subst merge_runs.simps) (auto intro!: exI [of _ w])
next
  case (Suc n)
  let ?X = "set (xs @ ls @ rs)"
  have keys: "key w x = f x" if "x \<in> set (ls @ rs)" for x
    using keyedD [OF Suc.prems(6)] that by blast
  have go: ?case if step: "weave f ls rs = e # weave f ls' rs'" "set (ls @ rs) = insert e (set (ls' @ rs'))"
      "distinct (xs @ e # ls' @ rs')" "n = length ls' + length rs'" "path d w l' ls' bl" "path d w r' rs' br"
      "merge_runs d key w l (length ls) r (length rs) (head_or xs 0) (last_or 0 xs) =
        merge_runs d key (if xs = [] then w else s_write w (mpage d (last xs)) (l_next d) e) l' (length ls') r' (length rs')
          (head_or (xs @ [e]) 0) (last_or 0 (xs @ [e]))" for e ls' rs' l' r'
  proof -
    let ?w = "if xs = [] then w else s_write w (mpage d (last xs)) (l_next d) e"
    have X: "set ((xs @ [e]) @ ls' @ rs') = ?X"
      using step(2) by auto
    have same: "same_but (next_words d (set xs)) w ?w"
      by (auto simp: next_words_def intro!: same_but_write)
    then have sameX: "same_but (next_words d ?X) w ?w"
      by (rule same_but_mono) (rule next_words_mono, auto)
    have "set ls' \<inter> set xs = {}" "set rs' \<inter> set xs = {}"
      using step(3) by auto
    then have "path d ?w l' ls' bl" "path d ?w r' rs' br"
      using step(5,6) path_same [OF same] by blast+
    moreover have "seg d ?w (xs @ [e])"
      using Suc.prems(1,5) step(3) by (intro seg_snoc) auto
    moreover have "0 \<notin> set ((xs @ [e]) @ ls' @ rs')" "distinct ((xs @ [e]) @ ls' @ rs')"
      using Suc.prems(5) X step(3) by auto
    moreover have "keyed d key f (set ((xs @ [e]) @ ls' @ rs')) (set (ls' @ rs')) ?w"
      using keyed_mono [OF Suc.prems(6) sameX] X step(2) by blast
    ultimately obtain w' where "merge_runs d key ?w l' (length ls') r' (length rs') (head_or (xs @ [e]) 0) (last_or 0 (xs @ [e])) =
        (w', head_or ((xs @ [e]) @ weave f ls' rs') 0, last_or 0 ((xs @ [e]) @ weave f ls' rs'))"
      "seg d w' ((xs @ [e]) @ weave f ls' rs')" "same_but (next_words d (set ((xs @ [e]) @ ls' @ rs'))) ?w w'"
      using Suc.hyps(1) [OF step(4), of ?w "xs @ [e]" l' r'] by blast
    then show ?case
      using step(1,7) same_but_step [OF sameX] unfolding X by (intro exI [of _ w']) simp
  qed
  have head: "(if last_or 0 xs = 0 then e else head_or xs 0) = head_or (xs @ [e]) 0" for e
    using Suc.prems(5) last_or_zero [of xs] by (cases xs) auto
  have wr: "(if last_or 0 xs = 0 then w else s_write w (mpage d (last_or 0 xs)) (l_next d) e) =
      (if xs = [] then w else s_write w (mpage d (last xs)) (l_next d) e)" for e
    using Suc.prems(5) last_or_zero [of xs] by (auto simp: last_or_def)
  have ne: "length ls > 0 \<or> length rs > 0"
    using Suc.hyps(2) by auto
  have ends: "ls \<noteq> [] \<Longrightarrow> l = hd ls" "rs \<noteq> [] \<Longrightarrow> r = hd rs"
    using Suc.prems(2,3) path_head by (cases ls; cases rs; auto)+
  have lft: "(length rs = 0 \<or> (length ls > 0 \<and> key w l \<le> key w r)) \<longleftrightarrow> from_left f ls rs"
    using ends keys [of l] keys [of r] by (cases ls; cases rs) (auto simp: from_left_def)
  show ?case
  proof (cases "from_left f ls rs")
    case True
    with ne obtain a as where ls: "ls = a # as"
      by (cases ls) (auto simp: from_left_def)
    have "merge_runs d key w l (length ls) r (length rs) (head_or xs 0) (last_or 0 xs) =
        merge_runs d key (if xs = [] then w else s_write w (mpage d (last xs)) (l_next d) a) (next_of d w a) (length as) r
          (length rs) (head_or (xs @ [a]) 0) (last_or 0 (xs @ [a]))"
      using merge_runs_step(1) [OF ne, of key w l r d "head_or xs 0" "last_or 0 xs"] True lft ends(1)
      unfolding ls by (simp only: head wr list.sel length_Cons diff_Suc_1 last_or_simps list.distinct simp_thms)
    then show ?thesis
      using True ls Suc.prems(2-4) Suc.hyps(2) by (intro go [of a as rs "next_of d w a" r]) (auto simp: weave_left)
  next
    case False
    with ne obtain b bs where rs: "rs = b # bs"
      by (cases rs) (auto simp: from_left_def)
    have "merge_runs d key w l (length ls) r (length rs) (head_or xs 0) (last_or 0 xs) =
        merge_runs d key (if xs = [] then w else s_write w (mpage d (last xs)) (l_next d) b) l (length ls) (next_of d w b)
          (length bs) (head_or (xs @ [b]) 0) (last_or 0 (xs @ [b]))"
      using merge_runs_step(2) [OF ne, of key w l r d "head_or xs 0" "last_or 0 xs"] False lft ends(2)
      unfolding rs by (simp only: head wr list.sel length_Cons diff_Suc_1 last_or_simps list.distinct simp_thms)
    then show ?thesis
      using False rs Suc.prems(2-4) Suc.hyps(2) by (intro go [of b ls bs l "next_of d w b"]) (auto simp: weave_right)
  qed
qed

section \<open>Passes\<close>

lemma path_take_drop: "path d w p ys b \<Longrightarrow> path d w p (take n ys) (head_or (drop n ys) b) \<and> path d w (head_or (drop n ys) b) (drop n ys) b"
proof (induction ys arbitrary: p n)
  case (Cons y ys)
  then show ?case by (cases n) auto
qed simp

lemma merge_pass_seg:
  fixes key :: "store \<Rightarrow> u64 \<Rightarrow> 'k :: linorder"
  assumes "0 < n" "seg d w xs" "path d w p ys 0" "distinct (xs @ ys)" "0 \<notin> set (xs @ ys)"
    "keyed d key f (set (xs @ ys)) (set ys) w"
  shows "\<exists>w'. merge_pass d key n w p (head_or xs 0) (last_or 0 xs) =
      Some (w', head_or (xs @ merge_adj f n ys) 0, last_or 0 (xs @ merge_adj f n ys)) \<and>
    seg d w' (xs @ merge_adj f n ys) \<and> same_but (next_words d (set (xs @ ys))) w w'"
  using assms
proof (induction "length ys" arbitrary: w xs p ys rule: less_induct)
  case less
  show ?case
  proof (cases "ys = []")
    case True
    with less.prems show ?thesis
      by (subst merge_pass.simps) (auto intro!: exI [of _ w])
  next
    case False
    define ls rs zs where "ls = take n ys" and "rs = take n (drop n ys)" and "zs = drop n (drop n ys)"
    have ys: "ys = ls @ rs @ zs" and shorter: "length zs < length ys"
      using False less.prems(1) by (simp_all add: ls_def rs_def zs_def append_take_drop_id del: drop_drop)
    have p: "p \<noteq> 0"
      using less.prems(3) False by (cases ys) auto
    let ?r = "head_or (drop n ys) 0" and ?q = "head_or zs 0"
    have paths: "path d w p ls ?r" "path d w ?r rs ?q" "path d w ?q zs 0" "path d w ?r (drop n ys) 0"
      using path_take_drop [OF less.prems(3), of n] path_take_drop [of d w ?r "drop n ys" 0 n]
      unfolding ls_def rs_def zs_def by blast+
    have runs: "take_run d w n p 0 = (?r, length ls)" "take_run d w n ?r 0 = (?q, length rs)"
      using take_run_path [OF less.prems(3), of 0 n] take_run_path [OF paths(4), of 0 n]
      by (simp_all add: ls_def rs_def zs_def)
    have sets: "set (xs @ ys) = set (xs @ ls @ rs) \<union> set zs"
      by (subst ys) auto
    have dist: "distinct ((xs @ ls @ rs) @ zs)" "0 \<notin> set ((xs @ ls @ rs) @ zs)"
      using less.prems(4,5) ys by (metis append.assoc)+
    have dl: "distinct (xs @ ls @ rs)" "0 \<notin> set (xs @ ls @ rs)"
      using dist by auto
    have mono: "same_but (next_words d (set (xs @ ls @ rs))) w w' \<Longrightarrow> same_but (next_words d (set (xs @ ys))) w w'" for w'
      using next_words_mono [of "set (xs @ ls @ rs)" "set (xs @ ys)" d] sets by (blast intro: same_but_mono)
    have keys: "keyed d key f (set (xs @ ls @ rs)) (set (ls @ rs)) w"
      using keyed_mono [OF less.prems(6) same_but_refl, of "set (xs @ ls @ rs)" "set (ls @ rs)"] ys by auto
    obtain w1 where w1: "merge_runs d key w p (length ls) ?r (length rs) (head_or xs 0) (last_or 0 xs) =
        (w1, head_or (xs @ weave f ls rs) 0, last_or 0 (xs @ weave f ls rs))"
      "seg d w1 (xs @ weave f ls rs)" "same_but (next_words d (set (xs @ ls @ rs))) w w1"
      using merge_runs_seg [OF less.prems(2) paths(1,2) dl keys] by blast
    let ?xs = "xs @ weave f ls rs"
    have same1: "same_but (next_words d (set (xs @ ys))) w w1"
      using w1(3) by (rule mono)
    have sets': "set (?xs @ zs) = set (xs @ ys)"
      using sets by auto
    have "path d w1 ?q zs 0"
      using paths(3) path_same [OF w1(3), of zs] dist(1) by (metis distinct_append inf_commute)
    moreover have "mset (?xs @ zs) = mset ((xs @ ls @ rs) @ zs)"
      by simp
    then have "distinct (?xs @ zs)"
      using dist(1) by (metis distinct_count_atmost_1 mset_eq_setD)
    moreover have "0 \<notin> set (?xs @ zs)"
      using less.prems(5) sets' by simp
    moreover have "keyed d key f (set (?xs @ zs)) (set zs) w1"
      using keyed_mono [OF less.prems(6) same1, of "set (?xs @ zs)" "set zs"] sets' ys by auto
    ultimately obtain w' where w': "merge_pass d key n w1 ?q (head_or ?xs 0) (last_or 0 ?xs) =
        Some (w', head_or (?xs @ merge_adj f n zs) 0, last_or 0 (?xs @ merge_adj f n zs))"
      "seg d w' (?xs @ merge_adj f n zs)" "same_but (next_words d (set (?xs @ zs))) w1 w'"
      using less.hyps [OF shorter less.prems(1) w1(2)] by blast
    have adj: "xs @ merge_adj f n ys = ?xs @ merge_adj f n zs"
      using False less.prems(1) by (subst merge_adj.simps) (simp add: ls_def rs_def zs_def)
    have "merge_pass d key n w p (head_or xs 0) (last_or 0 xs) = merge_pass d key n w1 ?q (head_or ?xs 0) (last_or 0 ?xs)"
      using p by (subst merge_pass.simps) (simp add: runs w1(1))
    then show ?thesis
      using w' same_but_step [OF same1] unfolding adj sets' by (intro exI [of _ w']) simp
  qed
qed

end
