(* ===== verification/Ipc_Sort.thy ===== *)
theory Ipc_Sort
  imports Ipc_Merge
begin

text \<open>
  The list's sort is the stable sort of its members: a bottom-up merge sort on the forward links,
  then the back links from them.
\<close>

section \<open>The passes\<close>

lemma sort_key_merge_adj: "sorted_runs f n xs \<Longrightarrow> sort_key f (merge_adj f n xs) = sort_key f xs"
  by (rule stable_sorted [symmetric]) (simp_all add: sort_key_stable mset_merge_adj filter_merge_adj)

lemma merge_pass_whole:
  fixes key :: "store \<Rightarrow> u64 \<Rightarrow> 'k :: linorder"
  assumes "0 < n" "path d w h xs 0" "distinct xs" "keyed d key f (set xs) (set xs) w" "xs \<noteq> []"
  obtains w' ys where "merge_pass d key n w h 0 0 = Some (w', hd ys, last ys)" "ys = merge_adj f n xs" "ys \<noteq> []"
    "path d (s_write w' (mpage d (last ys)) (l_next d) 0) (hd ys) ys 0"
    "same_but (next_words d (set xs)) w (s_write w' (mpage d (last ys)) (l_next d) 0)" "distinct ys"
proof -
  define ys where "ys = merge_adj f n xs"
  have nz: "0 \<notin> set xs"
    using assms(2) by (rule path_nonzero)
  have "seg d w []"
    by (simp add: seg_def)
  from merge_pass_seg [OF assms(1) this assms(2), of key f] assms(3,4) nz
  obtain w1 where w1: "merge_pass d key n w h 0 0 = Some (w1, head_or ys 0, last_or 0 ys)" "seg d w1 ys"
    "same_but (next_words d (set xs)) w w1"
    unfolding ys_def by auto
  have m: "mset ys = mset xs"
    unfolding ys_def by (rule mset_merge_adj)
  then have set: "set ys = set xs"
    by (rule mset_eq_setD)
  have dist: "distinct ys"
    using assms(3) m set by (simp add: distinct_count_atmost_1)
  have ne: "ys \<noteq> []"
    using set assms(5) by auto
  then have ends: "last_or 0 ys = last ys" "head_or ys 0 = hd ys"
    by (simp_all add: last_or_def head_or_def split: list.split)
  have path: "path d (s_write w1 (mpage d (last ys)) (l_next d) 0) (hd ys) ys 0"
    using w1(2) ne dist nz set by (intro seg_path) simp_all
  have "(mpage d (last ys), l_next d) \<in> next_words d (set xs)"
    unfolding next_words_def set [symmetric] using last_in_set [OF ne] by (rule imageI)
  then have same: "same_but (next_words d (set xs)) w (s_write w1 (mpage d (last ys)) (l_next d) 0)"
    using w1(3) by (rule same_but_write)
  show thesis
    using w1(1) unfolding ends by (rule that [OF _ ys_def ne path same dist])
qed

lemma merge_passes_sorted:
  fixes key :: "store \<Rightarrow> u64 \<Rightarrow> 'k :: linorder"
  assumes "0 < width" "path d w h xs 0" "distinct xs" "sorted_runs f width xs"
    "keyed d key f (set xs) (set xs) w"
  shows "\<exists>w' h'. merge_passes d key (length xs) w h width = Some (w', h') \<and> path d w' h' (sort_key f xs) 0 \<and>
    same_but (next_words d (set xs)) w w'"
  using assms
proof (induction "length xs - width" arbitrary: w h xs width rule: less_induct)
  case less
  show ?case
  proof (cases "width < length xs")
    case False
    then have "sorted (map f xs)"
      using sorted_runs_take [OF less.prems(4)] by simp
    then have "sort_key f xs = xs"
      by (rule sort_key_id_if_sorted)
    moreover have "merge_passes d key (length xs) w h width = Some (w, h)"
      using False by (subst merge_passes.simps) simp
    ultimately show ?thesis
      using less.prems(2) by simp
  next
    case True
    then have "xs \<noteq> []" by auto
    from merge_pass_whole [OF less.prems(1-3,5) this]
    obtain w1 ys where w1: "merge_pass d key width w h 0 0 = Some (w1, hd ys, last ys)" "ys = merge_adj f width xs"
      "ys \<noteq> []" and path: "path d (s_write w1 (mpage d (last ys)) (l_next d) 0) (hd ys) ys 0"
      and same: "same_but (next_words d (set xs)) w (s_write w1 (mpage d (last ys)) (l_next d) 0)" and dist: "distinct ys"
      by blast
    let ?w = "s_write w1 (mpage d (last ys)) (l_next d) 0"
    have m: "mset ys = mset xs"
      unfolding w1(2) by (rule mset_merge_adj)
    have ys: "set ys = set xs" "length ys = length xs"
      using mset_eq_setD [OF m] mset_eq_length [OF m] by simp_all
    have runs: "sorted_runs f (width * 2) ys"
      using sorted_runs_merge_adj [OF less.prems(1,4)] unfolding w1(2) by (simp add: mult_2_right)
    have shorter: "length ys - width * 2 < length xs - width"
      using True less.prems(1) ys(2) by linarith
    have "keyed d key f (set ys) (set ys) ?w"
      using keyed_mono [OF less.prems(5) same order_refl order_refl] unfolding ys(1) .
    from less.hyps [OF shorter _ path dist runs this] less.prems(1)
    obtain w' h' where w': "merge_passes d key (length xs) ?w (hd ys) (width * 2) = Some (w', h')"
      "path d w' h' (sort_key f ys) 0" "same_but (next_words d (set xs)) ?w w'"
      unfolding ys by auto
    have "sort_key f ys = sort_key f xs"
      unfolding w1(2) by (rule sort_key_merge_adj [OF less.prems(4)])
    moreover have "merge_passes d key (length xs) w h width = Some (w', h')"
      using True w1(1) w'(1) by (subst merge_passes.simps) simp
    ultimately show ?thesis
      using w'(2) same_but_step [OF same w'(3)] by simp
  qed
qed

section \<open>The back links\<close>

definition prev_words :: "ilist \<Rightarrow> u64 set \<Rightarrow> (page \<times> nat) set" where
  "prev_words d X = (\<lambda>x. (mpage d x, l_prev d)) ` X"

lemma relink_backs:
  assumes "desc_ok d" "path d w r xs 0" "distinct xs"
  shows "\<exists>w'. relink d w pv r = Some (w', last_or pv xs) \<and> path d w' r xs 0 \<and> backs d w' pv xs \<and>
    same_but (prev_words d (set xs)) w w'"
  using assms(2,3)
proof (induction xs arbitrary: w r pv)
  case Nil
  then show ?case by (subst relink.simps) simp
next
  case (Cons x xs)
  define w1 where "w1 = s_write w (mpage d x) (l_prev d) pv"
  have same: "same_but (prev_words d (set (x # xs))) w w1"
    unfolding w1_def by (intro same_but_write) (auto simp: prev_words_def)
  have nx: "next_of d w1 y = next_of d w y" for y
    using desc_sep(1) [OF assms(1)] by (simp add: w1_def next_of_def ipc_reads)
  have r: "r = x" "x \<noteq> 0" "x \<notin> set xs" "distinct xs"
    using Cons.prems by simp_all
  have "path d w1 (next_of d w1 x) xs 0"
    using Cons.prems(1) path_cong [of xs d w1 w] nx by simp
  from Cons.IH [OF this r(4), of x] obtain w' where w': "relink d w1 x (next_of d w1 x) = Some (w', last_or x xs)"
    "path d w' (next_of d w1 x) xs 0" "backs d w' x xs" "same_but (prev_words d (set xs)) w1 w'"
    by blast
  have "(mpage d x, l_prev d) \<notin> prev_words d (set xs)" "(mpage d x, l_next d) \<notin> prev_words d (set xs)"
    using r(3) desc_sep(1) [OF assms(1)] by (auto simp: prev_words_def)
  then have keep: "prev_of d w' x = prev_of d w1 x" "next_of d w' x = next_of d w1 x"
    using same_butD [OF w'(4)] by (simp_all add: prev_of_def next_of_def)
  have pv: "prev_of d w1 x = pv"
    by (simp add: w1_def prev_of_def ipc_reads)
  have "prev_words d (set xs) \<subseteq> prev_words d (set (x # xs))"
    by (auto simp: prev_words_def)
  then have same': "same_but (prev_words d (set (x # xs))) w w'"
    using same_but_mono [OF w'(4)] same_but_step [OF same] by blast
  have "relink d w pv r = Some (w', last_or x xs)"
    using w'(1) r by (subst relink.simps) (simp add: w1_def)
  then show ?case
    using w'(2,3) same' r keep pv by simp
qed

section \<open>The sort\<close>

text \<open>
  What a list's sort may not change: the key of a member reads no word the list's forward links are in.
\<close>

definition key_apart :: "ilist \<Rightarrow> (store \<Rightarrow> u64 \<Rightarrow> 'k) \<Rightarrow> u64 set \<Rightarrow> store \<Rightarrow> bool" where
  "key_apart d key X w \<longleftrightarrow> keyed d key (key w) X X w"

lemma sort_list_ok:
  fixes key :: "store \<Rightarrow> u64 \<Rightarrow> 'k :: linorder"
  assumes "desc_ok d" "linked d w xs" "key_apart d key (set xs) w"
  shows "\<exists>w'. sort_list d w key = Some w' \<and> linked d w' (sort_key (key w) xs) \<and> same_but (touched d (set xs)) w w'"
proof -
  let ?ys = "sort_key (key w) xs"
  note l = linkedD [OF assms(2)]
  have "sorted_runs (key w) 1 xs"
    by (rule sorted_runs_one)
  from merge_passes_sorted [OF zero_less_one l(1,4) this assms(3) [unfolded key_apart_def]]
  obtain w1 h where w1: "merge_passes d key (length xs) w (first_of d w) 1 = Some (w1, h)" "path d w1 h ?ys 0"
    "same_but (next_words d (set xs)) w w1"
    by blast
  define w2 where "w2 = s_write w1 (l_owner d) (l_head d) h"
  have "next_of d w2 x = next_of d w1 x" for x
    using desc_sep(5,6) [OF assms(1)] by (simp add: w2_def next_of_def ipc_reads)
  then have "path d w2 h ?ys 0"
    using w1(2) path_cong [of ?ys d w2 w1] by simp
  from relink_backs [OF assms(1) this, of 0] l(4)
  obtain w3 where w3: "relink d w2 0 h = Some (w3, last_or 0 ?ys)" "path d w3 h ?ys 0" "backs d w3 0 ?ys"
    "same_but (prev_words d (set xs)) w2 w3"
    by auto
  define w4 where "w4 = (case l_tail d of Some t \<Rightarrow> s_write w3 (l_owner d) t (last_or 0 ?ys) | None \<Rightarrow> w3)"
  have run: "sort_list d w key = Some w4"
    using count_from_path [OF l(1), of 0] w1(1) w3(1) by (simp add: sort_list_def w2_def w4_def)
  have head: "first_of d w4 = h"
  proof -
    have "(l_owner d, l_head d) \<notin> prev_words d (set xs)"
      using desc_sep(3,4) [OF assms(1)] unfolding at_eq by (auto simp: prev_words_def)
    then have "s_read w3 (l_owner d) (l_head d) = h"
      using same_butD [OF w3(4)] by (simp add: w2_def ipc_reads)
    then show ?thesis
      using desc_sep(11,12) [OF assms(1)] by (auto simp: w4_def first_of_def ipc_reads split: option.split)
  qed
  have links: "next_of d w4 x = next_of d w3 x" "prev_of d w4 x = prev_of d w3 x" for x
    using desc_sep(7-10) [OF assms(1)]
    by (auto simp: w4_def next_of_def prev_of_def ipc_reads split: option.split)
  have tail: "tail_is d w4 (last_or 0 ?ys)"
    by (auto simp: tail_is_def w4_def ipc_reads split: option.split)
  have "linked d w4 ?ys"
    unfolding linked_def head
    using path_cong [of ?ys d w4 w3] backs_cong [of ?ys d w4 w3] links w3(2,3) tail l(4) by simp
  moreover have "same_but (touched d (set xs)) w w4"
  proof -
    have "next_words d (set xs) \<subseteq> touched d (set xs)" "prev_words d (set xs) \<subseteq> touched d (set xs)"
      using touchedI by (auto simp: next_words_def prev_words_def)
    then have "same_but (touched d (set xs)) w w1" "same_but (touched d (set xs)) w2 w3"
      using w1(3) w3(4) same_but_mono by blast+
    moreover have "same_but (touched d (set xs)) w1 w2"
      unfolding w2_def by (intro same_but_write touchedI same_but_refl)
    moreover have "same_but (touched d (set xs)) w3 w4"
      unfolding w4_def using touchedI(2) [of d] by (auto intro!: same_but_write split: option.split)
    ultimately show ?thesis
      using same_but_step by blast
  qed
  ultimately show ?thesis
    using run by blast
qed

end
