(* ===== verification/Ipc_Audit.thy ===== *)
theory Ipc_Audit
  imports Ipc_Links
begin

text \<open>
  The checked build's audit of a list: it always returns, since a cycle of links breaks a back
  link, and it passes exactly the words that are a well-formed list.
\<close>

lemma backs_nth: "backs d w p xs \<Longrightarrow> i < length xs \<Longrightarrow> prev_of d w (xs ! i) = (if i = 0 then p else xs ! (i - 1))"
proof (induction xs arbitrary: p i)
  case (Cons x xs)
  then show ?case by (cases i) (auto simp: nth_Cons split: nat.split)
qed simp

text \<open>Members that are forward and back linked are distinct: the walk cannot come round.\<close>

lemma walked_distinct: "path d w a xs b \<Longrightarrow> backs d w 0 xs \<Longrightarrow> distinct xs"
proof (induction xs arbitrary: b rule: rev_induct)
  case (snoc x xs)
  have xs: "path d w a xs x" "backs d w 0 xs" "x \<noteq> 0" "prev_of d w x = last_or 0 xs"
    using snoc.prems by (auto simp: path_snoc backs_append)
  have d: "distinct xs" and nz: "0 \<notin> set xs"
    using snoc.IH xs path_nonzero by auto
  have "x \<notin> set xs"
  proof
    assume "x \<in> set xs"
    then obtain i where i: "i < length xs" "x = xs ! i"
      by (auto simp: in_set_conv_nth)
    then have ne: "xs \<noteq> []"
      by auto
    have "last xs = (if i = 0 then 0 else xs ! (i - 1))"
      using backs_nth [OF xs(2) i(1)] xs(4) i(2) ne by (simp add: last_or_def)
    then show False
      using d nz i ne last_in_set [OF ne] by (auto simp: last_conv_nth nth_eq_iff_index_eq split: if_splits)
  qed
  with d show ?case by simp
qed simp

lemma distinct_bound: "distinct xs \<Longrightarrow> length xs \<le> 2 ^ 64" for xs :: "u64 list"
proof -
  assume "distinct xs"
  then have "length xs = card (set xs)"
    by (simp add: distinct_card)
  also have "\<dots> \<le> card (UNIV :: u64 set)"
    by (intro card_mono) auto
  finally show ?thesis
    by (simp add: card_word)
qed

lemma audit_from_returns:
  assumes each: "\<And>r s. each r s \<noteq> None"
    and "path d w (first_of d w) vs r" "backs d w 0 vs"
  shows "audit_from d w each (last_or 0 vs) r n s \<noteq> None"
  using assms(2,3)
proof (induction "2 ^ 64 - length vs" arbitrary: vs r n s rule: less_induct)
  case less
  show ?case
  proof (cases "r \<noteq> 0 \<and> prev_of d w r = last_or 0 vs")
    case True
    then have vs: "path d w (first_of d w) (vs @ [r]) (next_of d w r)" "backs d w 0 (vs @ [r])"
      using less.prems by (auto simp: path_snoc backs_append)
    have "length (vs @ [r]) \<le> 2 ^ 64"
      using walked_distinct [OF vs] by (rule distinct_bound)
    then have "audit_from d w each (last_or 0 (vs @ [r])) (next_of d w r) m t \<noteq> None" for m t
      using vs by (intro less.hyps) auto
    then show ?thesis
      using True each [of r s] by (subst audit_from.simps) (auto split: sum.splits)
  next
    case False
    then show ?thesis
      by (subst audit_from.simps) auto
  qed
qed

text \<open>The audit's closure over the members, in order.\<close>

fun run_each :: "(u64 \<Rightarrow> 's \<Rightarrow> (fault + 's) option) \<Rightarrow> u64 list \<Rightarrow> 's \<Rightarrow> (fault + 's) option" where
  "run_each each [] s = Some (Inr s)"
| "run_each each (x # xs) s =
     do { res \<leftarrow> each x s; case res of Inl f \<Rightarrow> Some (Inl f) | Inr s \<Rightarrow> run_each each xs s }"

lemma audit_from_run:
  assumes "path d w r ys 0" "backs d w pv ys"
  shows "audit_from d w each pv r n s =
    (case run_each each ys s of
       None \<Rightarrow> None
     | Some (Inl f) \<Rightarrow> Some (Inl f)
     | Some (Inr s) \<Rightarrow> Some (Inr (last_or pv ys, n + length ys, s)))"
  using assms
proof (induction ys arbitrary: pv r n s)
  case Nil
  then show ?case by (subst audit_from.simps) simp
next
  case (Cons y ys)
  then show ?case
    by (subst audit_from.simps) (auto split: bind_splits sum.split option.split)
qed

lemma audit_from_sound:
  assumes "path d w (first_of d w) vs r" "backs d w 0 vs"
    "audit_from d w each (last_or 0 vs) r n s = Some (Inr (pv', n', s'))"
  shows "\<exists>ys. path d w (first_of d w) (vs @ ys) 0 \<and> backs d w 0 (vs @ ys) \<and> pv' = last_or 0 (vs @ ys) \<and> n' = n + length ys"
  using assms
proof (induction "2 ^ 64 - length vs" arbitrary: vs r n s rule: less_induct)
  case less
  show ?case
  proof (cases "r = 0")
    case True
    with less.prems show ?thesis
      by (intro exI [of _ "[]"]) (simp add: audit_from.simps)
  next
    case False
    with less.prems(3) obtain t where t: "prev_of d w r = last_or 0 vs"
      "audit_from d w each r (next_of d w r) (n + 1) t = Some (Inr (pv', n', s'))"
      by (subst (asm) audit_from.simps) (auto split: if_splits bind_splits sum.splits)
    have vs: "path d w (first_of d w) (vs @ [r]) (next_of d w r)" "backs d w 0 (vs @ [r])"
      using less.prems False t(1) by (auto simp: path_snoc backs_append)
    have "length (vs @ [r]) \<le> 2 ^ 64"
      using walked_distinct [OF vs] by (rule distinct_bound)
    then have "2 ^ 64 - length (vs @ [r]) < 2 ^ 64 - length vs"
      by simp
    from less.hyps [OF this vs, of "n + 1" t] t(2)
    obtain ys where "path d w (first_of d w) ((vs @ [r]) @ ys) 0 \<and> backs d w 0 ((vs @ [r]) @ ys) \<and>
        pv' = last_or 0 ((vs @ [r]) @ ys) \<and> n' = n + 1 + length ys"
      by auto
    then show ?thesis
      by (intro exI [of _ "r # ys"]) simp
  qed
qed

lemma audit_list_returns:
  assumes "\<And>r s. each r s \<noteq> None"
  shows "audit_list d w each s \<noteq> None"
  using audit_from_returns [of each d w "[]" "first_of d w" 0 s] assms by (auto simp: audit_list_def)

lemma tail_last: "(l_tail d \<noteq> None \<longrightarrow> last_of d w = Some r) \<longleftrightarrow> tail_is d w r"
  by (auto simp: last_of_def tail_is_def split: option.split)

lemma audit_list_sound: "audit_list d w each s = Some (Inr (n, s')) \<Longrightarrow> \<exists>xs. linked d w xs \<and> length xs = n"
proof -
  assume a: "audit_list d w each s = Some (Inr (n, s'))"
  then obtain pv where "audit_from d w each 0 (first_of d w) 0 s = Some (Inr (pv, n, s'))" "tail_is d w pv"
    unfolding audit_list_def tail_last [symmetric] by (auto split: bind_splits sum.splits if_splits)
  then obtain xs where "path d w (first_of d w) xs 0" "backs d w 0 xs" "pv = last_or 0 xs" "n = length xs" "tail_is d w pv"
    using audit_from_sound [of d w "[]" "first_of d w" each 0 s pv n s'] by auto
  then show ?thesis
    using walked_distinct by (auto simp: linked_def)
qed

lemma audit_list_linked:
  assumes "linked d w xs"
  shows "audit_list d w each s =
    (case run_each each xs s of
       None \<Rightarrow> None | Some (Inl f) \<Rightarrow> Some (Inl f) | Some (Inr s) \<Rightarrow> Some (Inr (length xs, s)))"
proof -
  have "l_tail d \<noteq> None \<longrightarrow> last_of d w = Some (last_or 0 xs)"
    using linkedD(3) [OF assms] tail_last by blast
  then show ?thesis
    using audit_from_run [OF linkedD(1,2) [OF assms], of each 0 s]
    by (auto simp: audit_list_def split: bind_splits sum.split option.split)
qed

end
