(* ===== verification/Ipc_Fifo.thy ===== *)
theory Ipc_Fifo
  imports Ipc_Links
begin

text \<open>
  The lists a wait joins at the tail and leaves at the head are queues: the receivers of an endpoint,
  the waiters of a device's interrupt, the exit notices an endpoint is owed, the due waits of an expiry
  and the endpoints a destruction pumps.  The contract of a queue is a locale, and each of the five is an
  instance of it.
\<close>

section \<open>The contract of a queue\<close>

primrec push_all :: "('w \<Rightarrow> 'r \<Rightarrow> 'w option) \<Rightarrow> 'w \<Rightarrow> 'r list \<Rightarrow> 'w option" where
  "push_all push w [] = Some w"
| "push_all push w (r # rs) = do { w \<leftarrow> push w r; push_all push w rs }"

primrec pop_all :: "('w \<Rightarrow> ('w \<times> 'r) option) \<Rightarrow> nat \<Rightarrow> 'w \<Rightarrow> ('w \<times> 'r list) option" where
  "pop_all pop 0 w = Some (w, [])"
| "pop_all pop (Suc n) w = do { (w, r) \<leftarrow> pop w; (w, rs) \<leftarrow> pop_all pop n w; Some (w, r # rs) }"

locale fifo_list =
  fixes holds :: "'w \<Rightarrow> 'r list \<Rightarrow> bool"
    and push :: "'w \<Rightarrow> 'r \<Rightarrow> 'w option"
    and pop :: "'w \<Rightarrow> ('w \<times> 'r) option"
    and fits :: "'r \<Rightarrow> bool"
  assumes push_last: "holds w xs \<Longrightarrow> r \<notin> set xs \<Longrightarrow> fits r \<Longrightarrow> \<exists>w'. push w r = Some w' \<and> holds w' (xs @ [r])"
    and pop_first: "holds w (x # xs) \<Longrightarrow> \<exists>w'. pop w = Some (w', x) \<and> holds w' xs"
begin

lemma push_all_holds:
  "holds w xs \<Longrightarrow> distinct (xs @ rs) \<Longrightarrow> \<forall>r\<in>set rs. fits r \<Longrightarrow> \<exists>w'. push_all push w rs = Some w' \<and> holds w' (xs @ rs)"
proof (induction rs arbitrary: w xs)
  case (Cons r rs)
  then obtain w1 where "push w r = Some w1" "holds w1 (xs @ [r])"
    using push_last [of w xs r] by auto
  with Cons.IH [of w1 "xs @ [r]"] Cons.prems show ?case
    by auto
qed simp

lemma pop_all_holds: "holds w (rs @ xs) \<Longrightarrow> \<exists>w'. pop_all pop (length rs) w = Some (w', rs) \<and> holds w' xs"
proof (induction rs arbitrary: w)
  case (Cons r rs)
  then obtain w1 where "pop w = Some (w1, r)" "holds w1 (rs @ xs)"
    using pop_first [of w r "rs @ xs"] by auto
  with Cons.IH [of w1] show ?case
    by auto
qed simp

text \<open>What joined is what leaves, in the same order, whatever was there before it.\<close>

lemma first_in_first_out:
  assumes "holds w xs" "distinct (xs @ rs)" "\<forall>r\<in>set rs. fits r"
  shows "\<exists>w1 w2. push_all push w rs = Some w1 \<and> pop_all pop (length (xs @ rs)) w1 = Some (w2, xs @ rs) \<and> holds w2 []"
proof -
  obtain w1 where w1: "push_all push w rs = Some w1" "holds w1 (xs @ rs)"
    using push_all_holds [OF assms] by blast
  from w1(2) have "holds w1 ((xs @ rs) @ [])"
    by simp
  with w1(1) show ?thesis
    using pop_all_holds by blast
qed

end

section \<open>The kernel's queues\<close>

text \<open>
  A member of a queue is a name below \<open>2 ^ 63\<close>, and the other lists of a counted queue's endpoint hold
  fewer than \<open>2 ^ 63\<close> members: the endpoint's count cannot wrap, since no name is on a list twice.
\<close>

definition name_ok :: "u64 \<Rightarrow> bool" where
  "name_ok r \<longleftrightarrow> r \<noteq> 0 \<and> r < 2 ^ 63"

definition held :: "ilist \<Rightarrow> store \<Rightarrow> u64 list \<Rightarrow> bool" where
  "held d w xs \<longleftrightarrow>
     linked d w xs \<and> (\<forall>x\<in>set xs. name_ok x) \<and>
     (l_counted d \<longrightarrow>
        int (length xs) \<le> uint (s_read w (l_owner d) E_WAITING) \<and>
        uint (s_read w (l_owner d) E_WAITING) < 2 ^ 63 + int (length xs))"

lemma names_bound: "distinct xs \<Longrightarrow> \<forall>x\<in>set xs. name_ok x \<Longrightarrow> length xs < 2 ^ 63"
proof -
  assume d: "distinct xs" and ok: "\<forall>x\<in>set xs. name_ok x"
  have "unat x \<in> {1..<2 ^ 63}" if "x \<in> set xs" for x
  proof -
    have "unat x < unat (2 ^ 63 :: u64)" "unat x \<noteq> 0"
      using ok that by (auto simp: name_ok_def word_less_nat_alt unat_eq_0)
    then show ?thesis by simp
  qed
  then have "unat ` set xs \<subseteq> {1..<2 ^ 63}"
    by blast
  then have "card (unat ` set xs) \<le> card {1..<2 ^ 63 :: nat}"
    by (intro card_mono) auto
  moreover have "card (unat ` set xs) = length xs"
    using d card_image [of unat "set xs"] by (simp add: inj_on_def word_unat_eq_iff distinct_card)
  ultimately show ?thesis
    by simp
qed

lemma held_push:
  assumes "desc_ok d" "l_tail d \<noteq> None" "held d w xs" "r \<notin> set xs" "name_ok r"
  shows "\<exists>w'. push_back d w r = Some w' \<and> held d w' (xs @ [r])"
proof -
  have l: "linked d w xs" "r \<noteq> 0"
    using assms by (auto simp: held_def name_ok_def)
  have "length (xs @ [r]) < 2 ^ 63"
    using assms linkedD(4) [OF l(1)] by (intro names_bound) (auto simp: held_def)
  then have "room d w 1"
    using assms(3) by (auto simp: held_def room_def)
  from push_back_ok [OF assms(1) l(1) assms(4) l(2) this assms(2)] obtain w' where
    "push_back d w r = Some w'" "linked d w' (xs @ [r])"
    "l_counted d \<Longrightarrow> uint (s_read w' (l_owner d) E_WAITING) = uint (s_read w (l_owner d) E_WAITING) + 1"
    by blast
  then show ?thesis
    using assms(3,5) by (auto simp: held_def)
qed

lemma held_pop:
  assumes "desc_ok d" "held d w (x # xs)"
  shows "\<exists>w'. pop_front d w = Some (w', x) \<and> held d w' xs"
proof -
  have l: "linked d w (x # xs)"
    using assms by (auto simp: held_def)
  have "uint (s_read w (l_owner d) E_WAITING) < 2 ^ 64"
    using uint_bounded [of "s_read w (l_owner d) E_WAITING"] by simp
  then have "room d w (- 1)"
    using assms(2) by (auto simp: held_def room_def)
  from pop_front_ok [OF assms(1) l this] obtain w' where
    "pop_front d w = Some (w', x)" "linked d w' xs"
    "l_counted d \<Longrightarrow> uint (s_read w' (l_owner d) E_WAITING) = uint (s_read w (l_owner d) E_WAITING) - 1"
    by blast
  then show ?thesis
    using assms(2) by (auto simp: held_def)
qed

lemma queue_tails [simp]:
  "l_tail (receivers e) \<noteq> None" "l_tail (irq_waiters i) \<noteq> None" "l_tail (exits e) \<noteq> None" "l_tail due \<noteq> None"
  "l_tail pumps \<noteq> None" "l_tail (groups e) \<noteq> None" "l_tail (send_groups e) \<noteq> None" "l_tail (chain n s) \<noteq> None"
  by (simp_all add: list_defs)

interpretation receiver_queue: fifo_list "held (receivers e)" "push_back (receivers e)" "pop_front (receivers e)" name_ok
  for e
  by unfold_locales (simp_all add: held_push held_pop)

interpretation irq_queue: fifo_list "held (irq_waiters i)" "push_back (irq_waiters i)" "pop_front (irq_waiters i)" name_ok
  for i
  by unfold_locales (simp_all add: held_push held_pop)

interpretation exit_queue: fifo_list "held (exits e)" "push_back (exits e)" "pop_front (exits e)" name_ok
  for e
  by unfold_locales (simp_all add: held_push held_pop)

interpretation due_queue: fifo_list "held due" "push_back due" "pop_front due" name_ok
  by unfold_locales (simp_all add: held_push held_pop)

interpretation pump_queue: fifo_list "held pumps" "push_back pumps" "pop_front pumps" name_ok
  by unfold_locales (simp_all add: held_push held_pop)

end
