(* ===== verification/Ipc_Groups.thy ===== *)
theory Ipc_Groups
  imports Ipc_Words
begin

text \<open>
  The groups of queued messages (\<open>libs/ipclist/src/lib.rs\<close>, "R2's groups"): an endpoint keeps the
  groups with a message queued in the order their turns fall due, and those with a send queued in
  the order their oldest sends do; a group's node lives in its oldest message's thread.
\<close>

definition seq :: "store \<Rightarrow> u64 \<Rightarrow> u64" where
  "seq w t = s_read w (PThread t) T_SEQ"

definition chain_first :: "store \<Rightarrow> u64 \<Rightarrow> bool \<Rightarrow> u64" where
  "chain_first w node send = s_read w (PThread node) (if send then G_SENDS else G_CALLS)"

definition oldest :: "store \<Rightarrow> u64 \<Rightarrow> u64" where
  "oldest w node =
     (let s = chain_first w node True; c = chain_first w node False
      in if s = 0 then c else if c = 0 then s else if seq w s < seq w c then s else c)"

definition turn_key :: "store \<Rightarrow> u64 \<Rightarrow> u64" where
  "turn_key w node = max (seq w (oldest w node)) (s_read w (PThread node) G_TAKEN)"

definition send_key :: "store \<Rightarrow> u64 \<Rightarrow> u64" where
  "send_key w node = max (seq w (chain_first w node True)) (s_read w (PThread node) G_TAKEN)"

definition group_of :: "store \<Rightarrow> u64 \<Rightarrow> u64" where
  "group_of w t = s_read w (PThread t) T_GROUP"

definition count_of :: "store \<Rightarrow> u64 \<Rightarrow> u64" where
  "count_of w node = s_read w (PThread node) G_COUNT"

partial_function (option) find_from :: "ilist \<Rightarrow> store \<Rightarrow> (store \<Rightarrow> u64 \<Rightarrow> bool) \<Rightarrow> u64 \<Rightarrow> u64 option option" where
  "find_from d w same node =
     (if node \<noteq> 0 then if same w node then Some (Some node) else find_from d w same (next_of d w node) else Some None)"

definition find_group :: "store \<Rightarrow> u32 \<Rightarrow> (store \<Rightarrow> u64 \<Rightarrow> bool) \<Rightarrow> u64 option option" where
  "find_group w e same = find_from (groups e) w same (first_of (groups e) w)"

definition clear_node :: "store \<Rightarrow> u64 \<Rightarrow> store" where
  "clear_node w node = fold (\<lambda>i w. s_write w (PThread node) i 0) [G_PREV..<G_TAKEN + 1] w"

text \<open>A group's count: the checked build panics where it would overflow.\<close>

definition count_add :: "store \<Rightarrow> u64 \<Rightarrow> int \<Rightarrow> u64 option" where
  "count_add w node by =
     (let n = uint (count_of w node) + by in if 0 \<le> n \<and> n < 2 ^ 64 then Some (word_of_int n) else None)"

definition enqueue :: "store \<Rightarrow> u32 \<Rightarrow> u64 option \<Rightarrow> u64 \<Rightarrow> bool \<Rightarrow> u64 \<Rightarrow> store option" where
  "enqueue w e node t send sq =
     (let w = s_write w (PThread t) T_SEQ sq
      in do { (w, node) \<leftarrow> (case node of
                 Some node \<Rightarrow> Some (w, node)
               | None \<Rightarrow> do { w \<leftarrow> push_back (groups e) (clear_node w t) t; Some (w, t) });
              let w = s_write w (PThread t) T_GROUP node;
              w \<leftarrow> (if send \<and> is_empty (chain node send) w then push_back (send_groups e) w node else Some w);
              w \<leftarrow> push_back (chain node send) w t;
              n \<leftarrow> count_add w node 1;
              counts (s_write w (PThread node) G_COUNT n) (PEndpoint e) 1 })"

definition pick_message :: "store \<Rightarrow> u32 \<Rightarrow> bool \<Rightarrow> u64" where
  "pick_message w e calls =
     (let node = (if calls then first_of (groups e) w else first_of (send_groups e) w)
      in if node = 0 then 0 else if calls then oldest w node else chain_first w node True)"

definition to_back :: "ilist \<Rightarrow> u64 \<Rightarrow> store \<Rightarrow> store option" where
  "to_back d node w = (if on_list d w node then do { w \<leftarrow> remove d w node; push_back d w node } else Some w)"

definition served :: "store \<Rightarrow> u32 \<Rightarrow> u64 \<Rightarrow> u64 \<Rightarrow> store option" where
  "served w e t now =
     (let node = group_of w t
      in do { w \<leftarrow> to_back (groups e) node (s_write w (PThread node) G_TAKEN now); to_back (send_groups e) node w })"

partial_function (option) set_groups :: "ilist \<Rightarrow> u64 \<Rightarrow> store \<Rightarrow> u64 \<Rightarrow> store option" where
  "set_groups d new w m =
     (if m \<noteq> 0 then (let w = s_write w (PThread m) T_GROUP new in set_groups d new w (next_of d w m)) else Some w)"

definition move_node :: "store \<Rightarrow> u32 \<Rightarrow> u64 \<Rightarrow> u64 \<Rightarrow> store option" where
  "move_node w e old new =
     (let w = replace (groups e) w old new;
          w = (if on_list (send_groups e) w old then replace (send_groups e) w old new else w);
          w = fold (\<lambda>i w. s_write w (PThread new) i (s_read w (PThread old) i)) [G_SENDS..<G_TAKEN + 1] w;
          w = clear_node w old
      in do { w \<leftarrow> set_groups (chain new True) new w (first_of (chain new True) w);
              set_groups (chain new False) new w (first_of (chain new False) w) })"

definition dequeue :: "store \<Rightarrow> u32 \<Rightarrow> u64 \<Rightarrow> bool \<Rightarrow> store option" where
  "dequeue w e t send =
     (let node = group_of w t; first_send = (send \<and> first_of (chain node send) w = t)
      in do { w \<leftarrow> remove (chain node send) w t;
              w \<leftarrow> counts (s_write w (PThread t) T_GROUP 0) (PEndpoint e) (- 1);
              left \<leftarrow> count_add w node (- 1);
              if left = 0 then
                do { w \<leftarrow> remove (groups e) w node;
                     w \<leftarrow> (if on_list (send_groups e) w node then remove (send_groups e) w node else Some w);
                     Some (clear_node w node) }
              else
                do { let w = s_write w (PThread node) G_COUNT left;
                     (w, node) \<leftarrow> (if t = node then
                         do { let node = oldest w t;
                              w \<leftarrow> move_node w e t node;
                              w \<leftarrow> moved_back (groups e) w node turn_key;
                              Some (w, node) }
                       else Some (w, node));
                     if first_send then
                       if is_empty (chain node True) w then remove (send_groups e) w node
                       else moved_back (send_groups e) w node send_key
                     else Some w } })"

section \<open>The audit of an endpoint's groups\<close>

text \<open>\<open>memb\<close> is the kernel's check of a member, with whether it is a send, threading its own state.\<close>

type_synonym 's member_check = "store \<Rightarrow> u64 \<Rightarrow> bool \<Rightarrow> 's \<Rightarrow> fault + 's"

definition audit_member :: "store \<Rightarrow> 's member_check \<Rightarrow> u64 \<Rightarrow> bool \<Rightarrow> u64 \<Rightarrow> u64 \<times> 's \<Rightarrow> (fault + u64 \<times> 's) option" where
  "audit_member w memb node send m st =
     (case st of (prev_seq, s) \<Rightarrow>
        Some (if group_of w m \<noteq> node then Inl (FGroup node)
              else if seq w m \<le> prev_seq then Inl (FOrder (PThread m))
              else map_sum id (Pair (seq w m)) (memb w m send s)))"

definition audit_chain :: "store \<Rightarrow> 's member_check \<Rightarrow> u64 \<Rightarrow> bool \<Rightarrow> 's \<Rightarrow> (fault + nat \<times> 's) option" where
  "audit_chain w memb node send s =
     do { res \<leftarrow> audit_list (chain node send) w (audit_member w memb node send) (0, s);
          Some (map_sum id (\<lambda>(n, _, s). (n, s)) res) }"

text \<open>A node's state is the last key, the members and groups with sends so far, and the check's own state.\<close>

definition audit_node ::
  "store \<Rightarrow> u32 \<Rightarrow> 's member_check \<Rightarrow> u64 \<Rightarrow> u64 \<times> nat \<times> nat \<times> 's \<Rightarrow> (fault + u64 \<times> nat \<times> nat \<times> 's) option" where
  "audit_node w e memb node st =
     (case st of (lst, members, with_sends, s) \<Rightarrow>
        let k = turn_key w node
        in if k \<le> lst then Some (Inl (FOrder (PThread node)))
           else if oldest w node \<noteq> node then Some (Inl (FGroup node))
           else do { sends \<leftarrow> audit_chain w memb node True s;
                     case sends of
                       Inl f \<Rightarrow> Some (Inl f)
                     | Inr (n1, s) \<Rightarrow>
                         do { calls \<leftarrow> audit_chain w memb node False s;
                              case calls of
                                Inl f \<Rightarrow> Some (Inl f)
                              | Inr (n2, s) \<Rightarrow>
                                  let n = n1 + n2; has_sends = (\<not> is_empty (chain node True) w)
                                  in Some (if n = 0 \<or> of_nat n \<noteq> count_of w node then Inl (FGroup node)
                                           else if has_sends \<noteq> on_list (send_groups e) w node then Inl (FGroup node)
                                           else Inr (k, members + n, with_sends + of_bool has_sends, s)) } })"

definition audit_send_node :: "store \<Rightarrow> u32 \<Rightarrow> u64 \<Rightarrow> u64 \<Rightarrow> (fault + u64) option" where
  "audit_send_node w e node lst =
     (let k = send_key w node
      in Some (if k \<le> lst then Inl (FOrder (PThread node))
               else if \<not> on_list (groups e) w node \<or> is_empty (chain node True) w then Inl (FGroup node)
               else Inr k))"

definition audit_groups :: "store \<Rightarrow> u32 \<Rightarrow> 's member_check \<Rightarrow> 's \<Rightarrow> (fault + nat \<times> 's) option" where
  "audit_groups w e memb s =
     do { res \<leftarrow> audit_list (groups e) w (audit_node w e memb) (0, 0, 0, s);
          case res of
            Inl f \<Rightarrow> Some (Inl f)
          | Inr (_, _, members, with_sends, s) \<Rightarrow>
              do { res \<leftarrow> audit_list (send_groups e) w (audit_send_node w e) 0;
                   Some (case res of
                           Inl f \<Rightarrow> Inl f
                         | Inr (listed, _) \<Rightarrow>
                             if listed \<noteq> with_sends then Inl (FLinks (PEndpoint e) E_SENDS) else Inr (members, s)) } }"

definition waiting_on :: "store \<Rightarrow> u32 \<Rightarrow> u64" where
  "waiting_on w e = s_read w (PEndpoint e) E_WAITING"

definition no_groups :: "store \<Rightarrow> u32 \<Rightarrow> bool" where
  "no_groups w e \<longleftrightarrow> is_empty (groups e) w"

definition first_group :: "store \<Rightarrow> u32 \<Rightarrow> u64" where
  "first_group w e = first_of (groups e) w"

end
