(* ===== verification/Ipc_System.thy ===== *)
theory Ipc_System
  imports Ipc_Sort Ipc_Audit Ipc_Fifo Ipc_Groups
begin

text \<open>
  What the IPC lists promise the kernel: an insertion by key keeps the order, the sort is the stable sort,
  a list used as a queue is first in, first out, and the audits return on any words and pass exactly the
  well-formed ones.
\<close>

section \<open>A due list\<close>

text \<open>Three due waits, of the threads 1, 2 and 3, whose places in the order of arrivals are 7, 3 and 7.\<close>

definition sample_due :: store where
  "sample_due =
     fold (\<lambda>(p, i, v) w. s_write w p i v)
       [(PKernel, K_DUE, 1), (PKernel, K_DUE + 1, 3), (PThread 1, T_XNEXT, 2), (PThread 2, T_XPREV, 1),
        (PThread 2, T_XNEXT, 3), (PThread 3, T_XPREV, 2), (PThread 1, T_SEQ, 7), (PThread 2, T_SEQ, 3),
        (PThread 3, T_SEQ, 7), (PThread 4, T_SEQ, 7)] (\<lambda>_ _. 0)"

lemmas sample_defs = sample_due_def s_write_def s_read_def list_defs word_defs

lemma sample_due_linked: "linked due sample_due [1, 2, 3]"
  by (simp add: linked_def tail_is_def first_of_def next_of_def prev_of_def mpage_def sample_defs)

lemma seq_apart: "key_apart due seq X w"
proof -
  have "(PThread x, T_SEQ) \<notin> next_words due X" for x
    by (auto simp: next_words_def mpage_def list_defs word_defs)
  then show ?thesis
    by (auto simp: key_apart_def keyed_def seq_def dest: same_butD)
qed

lemma sample_seqs: "map (seq sample_due) [1, 2, 3, 4] = [7, 3, 7, 7]"
  by (simp add: seq_def sample_defs)

section \<open>Order\<close>

text \<open>
  C6: sorting a list returns, whatever its length, and leaves it the stable sort of its members by the key:
  the bottom-up merge on the links is \<open>sort_key\<close>.  Only the list's own words change.
\<close>

theorem sort_is_stable_sort:
  fixes key :: "store \<Rightarrow> u64 \<Rightarrow> 'k :: linorder"
  assumes "desc_ok d" "linked d w xs" "key_apart d key (set xs) w"
  shows "\<exists>w'. sort_list d w key = Some w' \<and> linked d w' (sort_key (key w) xs) \<and> same_but (touched d (set xs)) w w'"
  using assms by (rule sort_list_ok)

theorem sort_is_stable_sort_witness:
  "\<exists>w'. sort_list due sample_due seq = Some w' \<and> linked due w' [2, 1, 3]"
proof -
  have "sort_key (seq sample_due) [1, 2, 3] = [2, 1, 3]"
    using sample_seqs by simp
  with sort_is_stable_sort [OF _ sample_due_linked seq_apart] show ?thesis
    by force
qed

text \<open>
  C28: linking a member into a list ordered by a key puts it after every member whose key is not greater
  and leaves the list ordered.
\<close>

theorem insert_by_keeps_order:
  fixes key :: "store \<Rightarrow> u64 \<Rightarrow> 'k :: linorder"
  assumes "desc_ok d" "linked d w xs" "r \<notin> set xs" "r \<noteq> 0" "room d w 1" "sorted (map (key w) xs)"
  shows "\<exists>w' ys zs. insert_by d w r key = Some w' \<and> linked d w' (ys @ r # zs) \<and> xs = ys @ zs \<and>
    (\<forall>y\<in>set ys. key w y \<le> key w r) \<and> (\<forall>z\<in>set zs. key w r < key w z)"
proof -
  let ?P = "\<lambda>x. key w x \<le> key w r"
  from insert_by_ok [OF assms(1-5), of key] obtain w' where
    w': "insert_by d w r key = Some w'" "linked d w' (takeWhile ?P xs @ r # dropWhile ?P xs)"
    by blast
  have "\<forall>z\<in>set (dropWhile ?P xs). key w r < key w z"
    using assms(6)
  proof (induction xs)
    case (Cons x xs)
    then show ?case by (cases "?P x") force+
  qed simp
  then show ?thesis
    using w' by (intro exI [of _ w'] exI [of _ "takeWhile ?P xs"] exI [of _ "dropWhile ?P xs"])
      (auto dest: set_takeWhileD)
qed

theorem insert_by_keeps_order_witness:
  "\<exists>w' ys zs. insert_by due sample_due 4 (\<lambda>_. id :: u64 \<Rightarrow> u64) = Some w' \<and> linked due w' (ys @ 4 # zs) \<and> [1, 2, 3] = ys @ zs"
proof -
  have "sorted (map (id :: u64 \<Rightarrow> u64) [1, 2, 3])"
    by simp
  moreover have "room due sample_due 1"
    by (simp add: room_def list_defs)
  ultimately show ?thesis
    using insert_by_keeps_order [OF _ sample_due_linked, of 4 "\<lambda>_. id"] by auto
qed

section \<open>Queues\<close>

text \<open>
  C27: the receivers of an endpoint, the waiters of a device's interrupt, the exit notices an endpoint is
  owed, the due waits and the endpoints to pump are queues: whoever joins at the tail leaves at the head in
  the same order, and the endpoint's count of what waits on it never wraps.
\<close>

theorem queues_are_fifo:
  assumes "d \<in> {receivers e, irq_waiters i, exits e, due, pumps}" "held d w xs" "distinct (xs @ rs)"
    "\<forall>r\<in>set rs. name_ok r"
  shows "\<exists>w1 w2. push_all (push_back d) w rs = Some w1 \<and>
    pop_all (pop_front d) (length (xs @ rs)) w1 = Some (w2, xs @ rs) \<and> held d w2 []"
  using assms(1)
proof (elim insertE emptyE)
  assume "d = receivers e"
  with receiver_queue.first_in_first_out assms(2-4) show ?thesis by blast
next
  assume "d = irq_waiters i"
  with irq_queue.first_in_first_out assms(2-4) show ?thesis by blast
next
  assume "d = exits e"
  with exit_queue.first_in_first_out assms(2-4) show ?thesis by blast
next
  assume "d = due"
  with due_queue.first_in_first_out assms(2-4) show ?thesis by blast
next
  assume "d = pumps"
  with pump_queue.first_in_first_out assms(2-4) show ?thesis by blast
qed

theorem queues_are_fifo_witness:
  "\<exists>w1 w2. push_all (push_back due) sample_due [5, 4] = Some w1 \<and>
    pop_all (pop_front due) (length ([1, 2, 3] @ [5, 4 :: u64])) w1 = Some (w2, [1, 2, 3] @ [5, 4])"
proof -
  have "held due sample_due [1, 2, 3]"
    using sample_due_linked by (simp add: held_def name_ok_def list_defs)
  moreover have "\<forall>r\<in>set [5, 4]. name_ok r"
    by (simp add: name_ok_def)
  moreover have "distinct ([1, 2, 3] @ [5, 4 :: u64])"
    by simp
  ultimately show ?thesis
    using queues_are_fifo [of due 0 0 sample_due "[1, 2, 3]" "[5, 4]"] by blast
qed

section \<open>The audits\<close>

definition pass_all :: "u64 \<Rightarrow> unit \<Rightarrow> (fault + unit) option" where
  "pass_all r s = Some (Inr s)"

lemma run_pass_all [simp]: "run_each pass_all xs s = Some (Inr ())"
  by (induction xs arbitrary: s) (simp_all add: pass_all_def)

text \<open>
  C25: the audit of a list passes exactly when the words are a well-formed list, and then returns how many
  members it has.
\<close>

theorem audit_list_exact: "audit_list d w pass_all () = Some (Inr (n, ())) \<longleftrightarrow> (\<exists>xs. linked d w xs \<and> length xs = n)"
  using audit_list_sound [of d w pass_all "()" n "()"] audit_list_linked [of d w _ pass_all "()"] by auto

lemma audit_chain_returns: "audit_chain w memb node send s \<noteq> None"
  using audit_list_returns [of "audit_member w memb node send" "chain node send" w "(0, s)"]
  by (auto simp: audit_chain_def audit_member_def split: prod.split)

lemma audit_node_returns: "audit_node w e memb node st \<noteq> None"
proof -
  obtain lst members with_sends s where st: "st = (lst, members, with_sends, s)"
    by (cases st) auto
  show ?thesis
    unfolding st by (auto simp: audit_node_def Let_def audit_chain_returns simp del: not_None_eq split: bind_splits sum.split)
qed

text \<open>
  C26: the audit of an endpoint's groups returns on any words, well formed or not: a cycle of links breaks a
  back link, so no walk comes round.
\<close>

theorem audit_groups_returns: "\<exists>res. audit_groups w e memb s = Some res"
proof -
  have groups: "audit_list (groups e) w (audit_node w e memb) st \<noteq> None" for st
    using audit_node_returns by (rule audit_list_returns)
  have sends: "audit_list (send_groups e) w (audit_send_node w e) 0 \<noteq> None"
    by (rule audit_list_returns) (simp add: audit_send_node_def Let_def)
  show ?thesis
    using groups [of "(0, 0, 0, s)"] sends
    by (auto simp: audit_groups_def split: sum.split)
qed

end
