(* ===== verification/Ticket.thy ===== *)
theory Ticket
  imports Prelude
begin

text \<open>
  The kernel lock (\<open>kernel/src/cell.rs\<close>, \<open>libs/ticket/src/lib.rs\<close>): a ticket lock on which a waiting hart
  halts, and whose release wakes the one hart it serves.

  Every access to a shared word is one step of a hart, and any hart may take the next step: the runs are the
  interleavings of the harts' steps, as for sequentially consistent accesses.  In the checked build the
  draw, the count, the wait and the release are so in the source; the reads of \<open>serving\<close> that end the wait
  (\<open>Acquire\<close>) and the records of the holder and of the longest wait (\<open>Relaxed\<close>) are weaker there, and
  what a weaker ordering could add is not modelled.  A hart is a program
  counter, which names the access it makes next with the values it holds by then.  Two things are the
  hardware's: a wake is a pending interrupt that ends a halt once, and a halt may end with none pending.
\<close>

unbundle bit_operations_syntax

section \<open>The lock and its harts\<close>

text \<open>
  \<open>acquire_ticket\<close> draws a ticket, counts the sections ahead of it (\<open>Count\<close>) and reads \<open>serving\<close> until
  its turn comes (\<open>Enter\<close>); between two reads, \<open>wait\<close> records the ticket, marks the hart, reads \<open>serving\<close>
  again, halts and clears the mark.  \<open>Took\<close> makes the checked build's records of an acquisition.
  \<open>release\<close> reads \<open>serving\<close> (\<open>Load\<close>), advances it (\<open>Serve\<close>), reads the marks and the marked harts' tickets.
\<close>

datatype pc =
    Outside | Count u32 | Enter u32
  | Record u32 | Mark u32 | Reread u32 | Halt u32 | Unmark u32
  | Took | Inside | Load | Serve u32 | Read_Marks u32 | Scan u32 "nat list" | Panicked

record lock =
  next_ticket :: u32
  serving :: u32
  halted :: u32
  tickets :: "u32 list"
  holder :: u32
  most_waited :: u32

record world = lock +
  pcs :: "pc list"
  waited :: "u32 list"
  wakes :: "bool list"

definition new_world :: "nat \<Rightarrow> world" where
  "new_world n =
     \<lparr>next_ticket = 0, serving = 0, halted = 0, tickets = replicate n 0, holder = 0, most_waited = 0,
      pcs = replicate n Outside, waited = replicate n 0, wakes = replicate n False\<rparr>"

definition goto :: "nat \<Rightarrow> pc \<Rightarrow> world \<Rightarrow> world" where
  "goto h p w = w\<lparr>pcs := (pcs w)[h := p]\<rparr>"

definition hart_bit :: "nat \<Rightarrow> u32" where
  "hart_bit h = push_bit h 1"

definition marked :: "u32 \<Rightarrow> nat \<Rightarrow> bool" where
  "marked m h \<longleftrightarrow> m AND hart_bit h \<noteq> 0"

section \<open>Taking the lock\<close>

definition draw :: "nat \<Rightarrow> world \<Rightarrow> world" where
  "draw h w = goto h (Count (next_ticket w)) (w\<lparr>next_ticket := next_ticket w + 1\<rparr>)"

definition count_ahead :: "nat \<Rightarrow> u32 \<Rightarrow> world \<Rightarrow> world" where
  "count_ahead h t w = goto h (Enter t) (w\<lparr>waited := (waited w)[h := t - serving w]\<rparr>)"

definition enter :: "nat \<Rightarrow> u32 \<Rightarrow> world \<Rightarrow> world" where
  "enter h t w = goto h (if serving w \<noteq> t then Record t else Took) w"

text \<open>The checked build's assertion is R78's: no acquisition waits behind as many sections as there are harts.\<close>

definition took :: "nat \<Rightarrow> nat \<Rightarrow> world \<Rightarrow> world" where
  "took n h w =
     (let w = w\<lparr>holder := of_nat h + 1, most_waited := max (most_waited w) (waited w ! h)\<rparr>
      in goto h (if waited w ! h < of_nat n then Inside else Panicked) w)"

section \<open>Waiting for a turn\<close>

definition record_ticket :: "nat \<Rightarrow> u32 \<Rightarrow> world \<Rightarrow> world" where
  "record_ticket h t w = goto h (Mark t) (w\<lparr>tickets := (tickets w)[h := t]\<rparr>)"

definition mark_hart :: "nat \<Rightarrow> u32 \<Rightarrow> world \<Rightarrow> world" where
  "mark_hart h t w = goto h (Reread t) (w\<lparr>halted := halted w OR hart_bit h\<rparr>)"

definition reread :: "nat \<Rightarrow> u32 \<Rightarrow> world \<Rightarrow> world" where
  "reread h t w = goto h (if serving w \<noteq> t then Halt t else Unmark t) w"

definition unmark :: "nat \<Rightarrow> u32 \<Rightarrow> world \<Rightarrow> world" where
  "unmark h t w = goto h (Enter t) (w\<lparr>halted := halted w AND NOT (hart_bit h)\<rparr>)"

section \<open>Releasing the lock\<close>

definition held_here :: "nat \<Rightarrow> world \<Rightarrow> bool" where
  "held_here h w \<longleftrightarrow> holder w = of_nat h + 1"

definition leave :: "nat \<Rightarrow> world \<Rightarrow> world" where
  "leave h w = (if held_here h w then goto h Load (w\<lparr>holder := 0\<rparr>) else goto h Panicked w)"

definition load_serving :: "nat \<Rightarrow> world \<Rightarrow> world" where
  "load_serving h w = goto h (Serve (serving w + 1)) w"

definition serve_next :: "nat \<Rightarrow> u32 \<Rightarrow> world \<Rightarrow> world" where
  "serve_next h t w = goto h (Read_Marks t) (w\<lparr>serving := t\<rparr>)"

definition read_marks :: "nat \<Rightarrow> nat \<Rightarrow> u32 \<Rightarrow> world \<Rightarrow> world" where
  "read_marks n h t w = goto h (Scan t (filter (marked (halted w)) [0..<n])) w"

definition scan_next :: "nat \<Rightarrow> u32 \<Rightarrow> nat list \<Rightarrow> world \<Rightarrow> world" where
  "scan_next h t xs w =
     (case xs of
        [] \<Rightarrow> goto h Outside w
      | x # xs \<Rightarrow>
          if tickets w ! x = t then goto h Outside (w\<lparr>wakes := (wakes w)[x := True]\<rparr>) else goto h (Scan t xs) w)"

section \<open>Runs\<close>

text \<open>
  One step of hart \<open>h\<close>, if it can take one; a halted hart can once a wake is pending for it.
\<close>

definition hart_step :: "nat \<Rightarrow> nat \<Rightarrow> world \<Rightarrow> world option" where
  "hart_step n h w =
     (case pcs w ! h of
        Outside \<Rightarrow> Some (draw h w)
      | Count t \<Rightarrow> Some (count_ahead h t w)
      | Enter t \<Rightarrow> Some (enter h t w)
      | Record t \<Rightarrow> Some (record_ticket h t w)
      | Mark t \<Rightarrow> Some (mark_hart h t w)
      | Reread t \<Rightarrow> Some (reread h t w)
      | Halt t \<Rightarrow> if wakes w ! h then Some (goto h (Unmark t) (w\<lparr>wakes := (wakes w)[h := False]\<rparr>)) else None
      | Unmark t \<Rightarrow> Some (unmark h t w)
      | Took \<Rightarrow> Some (took n h w)
      | Inside \<Rightarrow> Some (leave h w)
      | Load \<Rightarrow> Some (load_serving h w)
      | Serve t \<Rightarrow> Some (serve_next h t w)
      | Read_Marks t \<Rightarrow> Some (read_marks n h t w)
      | Scan t xs \<Rightarrow> Some (scan_next h t xs w)
      | Panicked \<Rightarrow> None)"

definition interrupted :: "nat \<Rightarrow> world \<Rightarrow> world option" where
  "interrupted h w = (case pcs w ! h of Halt t \<Rightarrow> Some (goto h (Unmark t) w) | _ \<Rightarrow> None)"

inductive runs :: "nat \<Rightarrow> world \<Rightarrow> bool" for n where
  start: "runs n (new_world n)"
| step: "runs n w \<Longrightarrow> h < n \<Longrightarrow> hart_step n h w = Some w' \<Longrightarrow> runs n w'"
| spurious: "runs n w \<Longrightarrow> h < n \<Longrightarrow> interrupted h w = Some w' \<Longrightarrow> runs n w'"

end
