(* ===== verification/Ticket_Inv.thy ===== *)
theory Ticket_Inv
  imports Ticket
begin

text \<open>
  The kernel lock is a queue of harts: the harts with a ticket, in the order they drew, the one being
  served first.  The invariant says so, that a mark stands beside the ticket recorded before it, and that
  a hart halted at its turn has a wake pending or a release on its way to it.
\<close>

section \<open>The queue of harts\<close>

text \<open>The ticket a hart has: its own, or the one being served while it is inside.\<close>

fun pc_ticket :: "u32 \<Rightarrow> pc \<Rightarrow> u32 option" where
  "pc_ticket s (Count t) = Some t"
| "pc_ticket s (Enter t) = Some t"
| "pc_ticket s (Record t) = Some t"
| "pc_ticket s (Mark t) = Some t"
| "pc_ticket s (Reread t) = Some t"
| "pc_ticket s (Halt t) = Some t"
| "pc_ticket s (Unmark t) = Some t"
| "pc_ticket s Took = Some s"
| "pc_ticket s Inside = Some s"
| "pc_ticket s Load = Some s"
| "pc_ticket s (Serve t) = Some s"
| "pc_ticket s Outside = None"
| "pc_ticket s (Read_Marks t) = None"
| "pc_ticket s (Scan t xs) = None"
| "pc_ticket s Panicked = None"

fun critical :: "pc \<Rightarrow> bool" where
  "critical Took \<longleftrightarrow> True"
| "critical Inside \<longleftrightarrow> True"
| "critical Load \<longleftrightarrow> True"
| "critical (Serve t) \<longleftrightarrow> True"
| "critical p \<longleftrightarrow> False"

lemma critical_ticket: "critical p \<Longrightarrow> pc_ticket s p = Some s"
  by (cases p) auto

lemma waiting_ticket: "\<not> critical p \<Longrightarrow> pc_ticket s p = pc_ticket s' p"
  by (cases p) auto

definition queue_of :: "nat \<Rightarrow> pc list \<Rightarrow> u32 \<Rightarrow> u32 \<Rightarrow> nat list \<Rightarrow> bool" where
  "queue_of n ps s nx os \<longleftrightarrow>
     length ps = n \<and> distinct os \<and> set os = {h. h < n \<and> pc_ticket s (ps ! h) \<noteq> None} \<and>
     (\<forall>i<length os. pc_ticket s (ps ! (os ! i)) = Some (s + of_nat i)) \<and> nx = s + of_nat (length os)"

lemma small_words: "i \<le> 32 \<Longrightarrow> j \<le> 32 \<Longrightarrow> (of_nat i :: u32) = of_nat j \<longleftrightarrow> i = j"
  by (simp add: word_of_nat_eq_iff take_bit_nat_eq_self)

lemma unat_hart: "i \<le> 32 \<Longrightarrow> unat (of_nat i :: u32) = i"
  by (simp add: unsigned_of_nat take_bit_nat_eq_self)

lemma queue_size:
  assumes "queue_of n ps s nx os"
  shows "length os \<le> n"
proof -
  have "set os \<subseteq> {..<n}" and "distinct os"
    using assms by (auto simp: queue_of_def)
  then have "card (set os) \<le> card {..<n}"
    by (intro card_mono) auto
  with \<open>distinct os\<close> show ?thesis
    by (simp add: distinct_card)
qed

lemma queue_place:
  assumes "queue_of n ps s nx os" "h < n" "pc_ticket s (ps ! h) = Some t"
  obtains i where "i < length os" "os ! i = h" "t = s + of_nat i"
proof -
  have "h \<in> set os"
    using assms by (auto simp: queue_of_def)
  then obtain i where i: "i < length os" "os ! i = h"
    by (auto simp: in_set_conv_nth)
  with assms(1) have "pc_ticket s (ps ! h) = Some (s + of_nat i)"
    by (auto simp: queue_of_def)
  with i assms(3) show thesis
    by (intro that) auto
qed

lemma queue_one_place:
  assumes "queue_of n ps s nx os" "n \<le> 32" "h < n" "h' < n"
    "pc_ticket s (ps ! h) = Some t" "pc_ticket s (ps ! h') = Some t"
  shows "h = h'"
proof -
  obtain i where i: "i < length os" "os ! i = h" "t = s + of_nat i"
    using queue_place [OF assms(1,3,5)] .
  obtain j where j: "j < length os" "os ! j = h'" "t = s + of_nat j"
    using queue_place [OF assms(1,4,6)] .
  have "(of_nat i :: u32) = of_nat j"
    using i(3) j(3) by simp
  with i(1) j(1) queue_size [OF assms(1)] assms(2) have "i = j"
    using small_words [of i j] by simp
  with i(2) j(2) show ?thesis by simp
qed

lemma queue_first:
  assumes "queue_of n ps s nx os" "n \<le> 32" "h < n" "pc_ticket s (ps ! h) = Some s"
  obtains xs where "os = h # xs"
proof -
  obtain i where i: "i < length os" "os ! i = h" "s = s + of_nat i"
    using queue_place [OF assms(1,3,4)] .
  then have "(of_nat i :: u32) = of_nat 0"
    by simp
  then have "i = 0"
    using i(1) queue_size [OF assms(1)] assms(2) small_words [of i 0] by simp
  with i show thesis
    by (cases os) (auto intro: that)
qed

lemma queue_ahead:
  assumes "queue_of n ps s nx os" "n \<le> 32" "h < n" "pc_ticket s (ps ! h) = Some t"
  shows "unat (t - s) < n"
proof -
  obtain i where i: "i < length os" "t = s + of_nat i"
    using queue_place [OF assms(1,3,4)] .
  then show ?thesis
    using queue_size [OF assms(1)] assms(2) unat_hart [of i] by simp
qed

text \<open>A step that keeps the hart's ticket, draws one, or serves the next.\<close>

lemma queue_keep:
  assumes "queue_of n ps s nx os" "h < n" "pc_ticket s p = pc_ticket s (ps ! h)"
  shows "queue_of n (ps[h := p]) s nx os"
proof -
  have "pc_ticket s (ps[h := p] ! x) = pc_ticket s (ps ! x)" if "x < n" for x
    using assms that by (simp add: nth_list_update queue_of_def)
  moreover have "os ! i < n" if "i < length os" for i
    using assms(1) that nth_mem [of i os] by (auto simp: queue_of_def)
  ultimately show ?thesis
    using assms(1) by (auto simp: queue_of_def)
qed

lemma queue_draw:
  assumes "queue_of n ps s nx os" "h < n" "ps ! h = Outside"
  shows "queue_of n (ps[h := Count nx]) s (nx + 1) (os @ [h])"
proof -
  have h: "h \<notin> set os" and len: "length ps = n" and nx: "nx = s + of_nat (length os)"
    using assms by (auto simp: queue_of_def)
  have "set (os @ [h]) = {x. x < n \<and> pc_ticket s (ps[h := Count nx] ! x) \<noteq> None}"
    using assms by (auto simp: queue_of_def nth_list_update)
  moreover have "pc_ticket s (ps[h := Count nx] ! ((os @ [h]) ! i)) = Some (s + of_nat i)" if "i < length (os @ [h])" for i
  proof (cases "i < length os")
    case True
    then have "os ! i \<noteq> h"
      using h nth_mem by metis
    with True assms(1) show ?thesis
      by (simp add: nth_append queue_of_def)
  next
    case False
    with that have "i = length os"
      by simp
    with assms(2) len nx show ?thesis
      by simp
  qed
  ultimately show ?thesis
    using assms(1) h by (simp add: queue_of_def)
qed

lemma queue_serve:
  assumes "queue_of n ps s nx os" "n \<le> 32" "h < n" "critical (ps ! h)" "pc_ticket (s + 1) p = None"
  shows "queue_of n (ps[h := p]) (s + 1) nx (tl os)"
proof -
  obtain xs where xs: "os = h # xs"
    using queue_first [OF assms(1-3) critical_ticket [OF assms(4)]] .
  have len: "length ps = n" and os: "set os = {h. h < n \<and> pc_ticket s (ps ! h) \<noteq> None}" and d: "h \<notin> set xs"
    using assms(1) xs by (auto simp: queue_of_def)
  have same: "pc_ticket (s + 1) (ps[h := p] ! x) = pc_ticket s (ps ! x)" if "x < n" "x \<noteq> h" for x
  proof -
    have "\<not> critical (ps ! x)"
      using queue_one_place [OF assms(1,2) that(1) assms(3)] critical_ticket assms(4) that(2) by blast
    with that(2) show ?thesis
      using waiting_ticket by simp
  qed
  have xs': "x \<in> set xs \<longleftrightarrow> x < n \<and> x \<noteq> h \<and> pc_ticket s (ps ! x) \<noteq> None" for x
    using os d xs by auto
  have "pc_ticket (s + 1) (ps[h := p] ! (xs ! i)) = Some (s + 1 + of_nat i)" if "i < length xs" for i
  proof -
    have "pc_ticket s (ps ! (os ! Suc i)) = Some (s + of_nat (Suc i))"
      using assms(1) that xs by (auto simp: queue_of_def)
    then show ?thesis
      using same [of "xs ! i"] xs' [of "xs ! i"] nth_mem [OF that] xs by (simp add: add.assoc)
  qed
  moreover have "x \<in> set xs \<longleftrightarrow> x < n \<and> pc_ticket (s + 1) (ps[h := p] ! x) \<noteq> None" for x
    using same [of x] xs' [of x] assms(3,5) len by (cases "x = h") auto
  then have "set xs = {x. x < n \<and> pc_ticket (s + 1) (ps[h := p] ! x) \<noteq> None}"
    by blast
  ultimately show ?thesis
    using assms(1) xs len by (simp add: queue_of_def add.assoc)
qed

section \<open>What a hart's place says of the words\<close>

fun recorded :: "pc \<Rightarrow> u32 option" where
  "recorded (Mark t) = Some t"
| "recorded (Reread t) = Some t"
| "recorded (Halt t) = Some t"
| "recorded (Unmark t) = Some t"
| "recorded p = None"

fun shows_mark :: "pc \<Rightarrow> bool" where
  "shows_mark (Reread t) \<longleftrightarrow> True"
| "shows_mark (Halt t) \<longleftrightarrow> True"
| "shows_mark (Unmark t) \<longleftrightarrow> True"
| "shows_mark p \<longleftrightarrow> False"

fun counted :: "pc \<Rightarrow> bool" where
  "counted Outside \<longleftrightarrow> False"
| "counted (Count t) \<longleftrightarrow> False"
| "counted (Load) \<longleftrightarrow> False"
| "counted (Serve t) \<longleftrightarrow> False"
| "counted (Read_Marks t) \<longleftrightarrow> False"
| "counted (Scan t xs) \<longleftrightarrow> False"
| "counted p \<longleftrightarrow> True"

lemma recorded_ticket: "recorded p = Some t \<Longrightarrow> pc_ticket s p = Some t"
  by (cases p) auto

lemma shows_recorded: "shows_mark p \<Longrightarrow> recorded p = pc_ticket s p"
  by (cases p) auto

definition sized :: "nat \<Rightarrow> world \<Rightarrow> bool" where
  "sized n w \<longleftrightarrow> n \<le> 32 \<and> length (pcs w) = n \<and> length (tickets w) = n \<and> length (waited w) = n \<and> length (wakes w) = n"

definition records_ok :: "nat \<Rightarrow> world \<Rightarrow> bool" where
  "records_ok n w \<longleftrightarrow> (\<forall>h<n. \<forall>t. recorded (pcs w ! h) = Some t \<longrightarrow> tickets w ! h = t)"

definition marks_ok :: "nat \<Rightarrow> world \<Rightarrow> bool" where
  "marks_ok n w \<longleftrightarrow> (\<forall>h<n. marked (halted w) h \<longleftrightarrow> shows_mark (pcs w ! h))"

definition holder_ok :: "nat \<Rightarrow> world \<Rightarrow> bool" where
  "holder_ok n w \<longleftrightarrow>
     (\<forall>h<n. (pcs w ! h = Inside \<longrightarrow> held_here h w) \<and> (\<forall>t. pcs w ! h = Serve t \<longrightarrow> t = serving w + 1) \<and>
       pcs w ! h \<noteq> Panicked)"

definition counts_ok :: "nat \<Rightarrow> world \<Rightarrow> bool" where
  "counts_ok n w \<longleftrightarrow>
     (\<forall>h<n. counted (pcs w ! h) \<longrightarrow> unat (waited w ! h) < n) \<and> (most_waited w = 0 \<or> unat (most_waited w) < n)"

lemmas step_defs = hart_step_def draw_def count_ahead_def enter_def took_def record_ticket_def mark_hart_def reread_def
  unmark_def leave_def load_serving_def serve_next_def read_marks_def scan_next_def goto_def

lemma bit_hart_bit: "bit (hart_bit h) i \<longleftrightarrow> i = h \<and> i < 32"
  by (auto simp: hart_bit_def bit_exp_iff)

lemma marked_iff: "h < 32 \<Longrightarrow> marked m h \<longleftrightarrow> bit m h"
proof -
  assume h: "h < 32"
  have "m AND hart_bit h = 0" if "\<not> bit m h"
    by (rule bit_word_eqI) (use that in \<open>auto simp: bit_and_iff bit_hart_bit\<close>)
  moreover have "bit (m AND hart_bit h) h" if "bit m h"
    using that h by (simp add: bit_and_iff bit_hart_bit)
  ultimately show ?thesis
    unfolding marked_def by (metis bit_0_eq bot_apply bot_bool_def)
qed

lemma marked_or: "x < 32 \<Longrightarrow> marked (m OR hart_bit h) x \<longleftrightarrow> marked m x \<or> x = h"
  by (auto simp: marked_iff bit_or_iff bit_hart_bit)

lemma marked_and_not: "x < 32 \<Longrightarrow> h < 32 \<Longrightarrow> marked (m AND NOT (hart_bit h)) x \<longleftrightarrow> marked m x \<and> x \<noteq> h"
  by (auto simp: marked_iff bit_and_iff bit_not_iff bit_hart_bit)

lemma sized_step: "sized n w \<Longrightarrow> hart_step n h w = Some w' \<Longrightarrow> sized n w'"
  by (auto simp: sized_def step_defs Let_def split: pc.splits list.splits if_splits)

lemma records_step:
  assumes "sized n w" "h < n" "records_ok n w" "hart_step n h w = Some w'"
  shows "records_ok n w'"
  using assms
  by (auto simp: records_ok_def sized_def step_defs Let_def nth_list_update split: pc.splits list.splits if_splits)

lemma marks_step:
  assumes "sized n w" "h < n" "marks_ok n w" "hart_step n h w = Some w'"
  shows "marks_ok n w'"
  using assms
  by (auto simp: marks_ok_def sized_def step_defs Let_def nth_list_update marked_or marked_and_not
      split: pc.splits list.splits if_splits)

text \<open>What a step at a place does to the queue of harts.\<close>

definition queue_after :: "pc \<Rightarrow> nat \<Rightarrow> nat list \<Rightarrow> nat list" where
  "queue_after p h os = (case p of Outside \<Rightarrow> os @ [h] | Serve t \<Rightarrow> tl os | _ \<Rightarrow> os)"

abbreviation queues :: "nat \<Rightarrow> world \<Rightarrow> nat list \<Rightarrow> bool" where
  "queues n w os \<equiv> queue_of n (pcs w) (serving w) (next_ticket w) os"

lemma took_in_time: "sized n w \<Longrightarrow> counts_ok n w \<Longrightarrow> h < n \<Longrightarrow> pcs w ! h = Took \<Longrightarrow> waited w ! h < of_nat n"
  using unat_hart [of n] by (simp add: counts_ok_def sized_def word_less_nat_alt)

lemma queue_step:
  assumes "sized n w" "holder_ok n w" "queues n w os" "h < n" "hart_step n h w = Some w'" "counts_ok n w"
  shows "queues n w' (queue_after (pcs w ! h) h os)"
proof (cases "pcs w ! h")
  case Outside
  then show ?thesis
    using queue_draw [OF assms(3,4) Outside] assms(5) by (auto simp: step_defs queue_after_def)
next
  case (Serve t)
  have t: "t = serving w + 1"
    using assms(2,4) Serve by (simp add: holder_ok_def)
  have "n \<le> 32"
    using assms(1) by (simp add: sized_def)
  from queue_serve [OF assms(3) this assms(4), of "Read_Marks t"] Serve t assms(5) show ?thesis
    by (auto simp: step_defs queue_after_def)
qed (use assms(2-5) queue_keep [OF assms(3,4)] took_in_time [OF assms(1,6,4)] in
  \<open>auto simp: step_defs queue_after_def Let_def holder_ok_def split: list.splits if_splits\<close>)

lemma critical_unique:
  assumes "sized n w" "queues n w os" "h < n" "x < n" "critical (pcs w ! h)" "critical (pcs w ! x)"
  shows "x = h"
proof (rule queue_one_place [OF assms(2) _ assms(4,3)])
  show "n \<le> 32"
    using assms(1) by (simp add: sized_def)
  show "pc_ticket (serving w) (pcs w ! x) = Some (serving w)" "pc_ticket (serving w) (pcs w ! h) = Some (serving w)"
    using assms critical_ticket by blast+
qed

lemma counts_step:
  assumes "sized n w" "queues n w os" "h < n" "counts_ok n w" "hart_step n h w = Some w'"
  shows "counts_ok n w'"
proof -
  have "unat (t - serving w) < n" if "pcs w ! h = Count t" for t
    using queue_ahead [OF assms(2) _ assms(3), of t] that assms(1) by (simp add: sized_def)
  moreover have "unat (max a b) < n" if "unat a < n" "unat b < n" for a b :: u32
    using that by (simp add: max_def)
  ultimately show ?thesis
    using assms(1,3,4,5)
    by (auto simp: counts_ok_def sized_def step_defs Let_def nth_list_update
        split: pc.splits list.splits if_splits)
qed

lemma holder_step:
  assumes "sized n w" "queues n w os" "h < n" "counts_ok n w" "holder_ok n w" "hart_step n h w = Some w'"
  shows "holder_ok n w'"
proof -
  have alone: "\<not> critical (pcs w ! x)" if "critical (pcs w ! h)" "x < n" "x \<noteq> h" for x
    using critical_unique [OF assms(1-3) that(2,1)] that(3) by blast
  have inside: "pcs w ! x \<noteq> Inside" "pcs w ! x \<noteq> Serve t" if "critical (pcs w ! h)" "x < n" "x \<noteq> h" for x t
    using alone [OF that] by auto
  show ?thesis
    using assms(1,3,5,6) inside took_in_time [OF assms(1,4,3)]
    by (auto simp: holder_ok_def held_here_def sized_def step_defs Let_def nth_list_update
        split: pc.splits list.splits if_splits)
qed

section \<open>No wake is lost\<close>

text \<open>
  A wake pending for a hart, or a release that has served its ticket and has not read the marks, or has
  read them and reaches the hart before any other with that ticket.
\<close>

definition brings :: "world \<Rightarrow> nat \<Rightarrow> pc \<Rightarrow> bool" where
  "brings w h p \<longleftrightarrow>
     p = Read_Marks (serving w) \<or>
     (\<exists>ys zs. p = Scan (serving w) (ys @ h # zs) \<and> (\<forall>y\<in>set ys. tickets w ! y \<noteq> serving w))"

definition wake_coming :: "nat \<Rightarrow> world \<Rightarrow> nat \<Rightarrow> bool" where
  "wake_coming n w h \<longleftrightarrow> wakes w ! h \<or> (\<exists>r<n. brings w h (pcs w ! r))"

definition wakes_ok :: "nat \<Rightarrow> world \<Rightarrow> bool" where
  "wakes_ok n w \<longleftrightarrow> (\<forall>h<n. pcs w ! h = Halt (serving w) \<longrightarrow> wake_coming n w h)"

text \<open>A step of a hart that is not releasing brings on no wake and takes none but its own.\<close>

lemma wake_coming_other:
  assumes "wake_coming n w x" "x \<noteq> h" "serving w' = serving w" "\<forall>y<n. y \<noteq> h \<longrightarrow> pcs w' ! y = pcs w ! y"
    "wakes w' ! x = wakes w ! x" "\<forall>y. tickets w ! y \<noteq> serving w \<longrightarrow> tickets w' ! y \<noteq> serving w"
    "\<not> brings w x (pcs w ! h)"
  shows "wake_coming n w' x"
proof -
  have "brings w' x p" if "brings w x p" for p
    using that assms(3,6) unfolding brings_def by auto
  moreover have "r \<noteq> h" if "brings w x (pcs w ! r)" for r
    using that assms(7) by auto
  ultimately show ?thesis
    using assms(1,4,5) unfolding wake_coming_def by metis
qed

lemma wake_kept [simp]: "x < length ws \<Longrightarrow> ws ! x \<Longrightarrow> ws[y := True] ! x"
  by (cases "y = x") auto

lemma wakes_release:
  assumes "sized n w" "queues n w os" "h < n" "marks_ok n w" "records_ok n w" "wakes_ok n w"
    and at: "pcs w ! h = Read_Marks t \<or> pcs w ! h = Scan t xs"
    and step: "hart_step n h w = Some w'" and x: "x < n" "pcs w ! x = Halt (serving w)" "wake_coming n w x"
  shows "wake_coming n w' x"
proof -
  have n: "n \<le> 32" "length (pcs w) = n" "length (wakes w) = n"
    using assms(1) by (auto simp: sized_def)
  have keep: "serving w' = serving w" "tickets w' = tickets w" "\<forall>y<n. y \<noteq> h \<longrightarrow> pcs w' ! y = pcs w ! y"
    "wakes w ! x \<longrightarrow> wakes w' ! x"
    using at step n x by (auto simp: step_defs nth_list_update split: list.splits if_splits)
  have mine: "tickets w ! y \<noteq> serving w" if "y \<noteq> x" "y < n" "marked (halted w) y" for y
  proof -
    have "shows_mark (pcs w ! y)"
      using assms(4) that by (simp add: marks_ok_def)
    then obtain u where u: "recorded (pcs w ! y) = Some u"
      by (cases "pcs w ! y") auto
    then have "tickets w ! y = u" "pc_ticket (serving w) (pcs w ! y) = Some u"
      using assms(5) that recorded_ticket by (auto simp: records_ok_def)
    then show ?thesis
      using queue_one_place [OF assms(2) n(1) that(2) x(1), of u] x(2) that(1) by auto
  qed
  show ?thesis
  proof (cases "brings w x (pcs w ! h)")
    case False
    then show ?thesis
      using x(3) keep unfolding wake_coming_def brings_def by metis
  next
    case True
    from at show ?thesis
    proof
      assume h: "pcs w ! h = Read_Marks t"
      then have t: "t = serving w"
        using True by (auto simp: brings_def)
      have "marked (halted w) x"
        using assms(4) x(1,2) by (simp add: marks_ok_def)
      then have "x \<in> set (filter (marked (halted w)) [0..<n])"
        using x(1) by simp
      then obtain ys zs where yz: "filter (marked (halted w)) [0..<n] = ys @ x # zs" "x \<notin> set ys"
        using split_list_first by metis
      have "y < n \<and> marked (halted w) y" if "y \<in> set ys" for y
      proof -
        have "y \<in> set (filter (marked (halted w)) [0..<n])"
          unfolding yz(1) using that by simp
        then show ?thesis by simp
      qed
      then have "\<forall>y\<in>set ys. tickets w ! y \<noteq> serving w"
        using mine yz(2) by metis
      moreover have "pcs w' ! h = Scan (serving w) (ys @ x # zs)"
        using h t step yz assms(3) n by (auto simp: step_defs)
      ultimately show ?thesis
        using keep assms(3) unfolding wake_coming_def brings_def by metis
    next
      assume h: "pcs w ! h = Scan t xs"
      then obtain ys zs where yz: "t = serving w" "xs = ys @ x # zs" "\<forall>y\<in>set ys. tickets w ! y \<noteq> serving w"
        using True by (auto simp: brings_def)
      have tx: "tickets w ! x = serving w"
        using assms(5) x(1,2) by (simp add: records_ok_def)
      show ?thesis
      proof (cases ys)
        case Nil
        then have "wakes w' ! x"
          using h yz step tx x(1) n by (auto simp: step_defs)
        then show ?thesis by (simp add: wake_coming_def)
      next
        case (Cons y ys')
        then have "pcs w' ! h = Scan (serving w) (ys' @ x # zs)"
          using h yz step assms(3) n by (auto simp: step_defs)
        then show ?thesis
          using Cons keep assms(3) yz(3) unfolding wake_coming_def brings_def by (metis list.set_intros(2))
      qed
    qed
  qed
qed

fun releasing :: "pc \<Rightarrow> bool" where
  "releasing (Serve t) \<longleftrightarrow> True"
| "releasing (Read_Marks t) \<longleftrightarrow> True"
| "releasing (Scan t xs) \<longleftrightarrow> True"
| "releasing p \<longleftrightarrow> False"

lemma brings_releasing: "brings w h p \<Longrightarrow> releasing p"
  by (auto simp: brings_def)

lemma wakes_waiting:
  assumes "sized n w" "queues n w os" "h < n" "\<not> releasing (pcs w ! h)" "hart_step n h w = Some w'"
    "x < n" "pcs w' ! x = Halt (serving w')" "wakes_ok n w"
  shows "wake_coming n w' x"
proof -
  have n: "n \<le> 32" "length (pcs w) = n" "length (wakes w) = n" "length (tickets w) = n"
    using assms(1) by (auto simp: sized_def)
  have keep: "serving w' = serving w" "\<forall>y<n. y \<noteq> h \<longrightarrow> pcs w' ! y = pcs w ! y" "x \<noteq> h \<longrightarrow> wakes w' ! x = wakes w ! x"
    using assms(4,5) n by (auto simp: step_defs Let_def nth_list_update split: pc.splits if_splits)
  have "pcs w' ! h \<noteq> Halt (serving w)"
    using assms(3-5) n by (auto simp: step_defs Let_def nth_list_update split: pc.splits if_splits)
  then have x: "x \<noteq> h" "pcs w ! x = Halt (serving w)"
    using keep assms(6,7) by auto
  have "tickets w' ! y \<noteq> serving w" if "tickets w ! y \<noteq> serving w" for y
  proof (cases "\<exists>t. pcs w ! h = Record t")
    case True
    then obtain t where t: "pcs w ! h = Record t" ..
    have "t \<noteq> serving w"
      using queue_one_place [OF assms(2) n(1) assms(3,6), of t] t x by auto
    then show ?thesis
      using that t assms(3,5) n by (cases "y = h") (auto simp: step_defs)
  next
    case False
    then have "tickets w' = tickets w"
      using assms(4,5) by (auto simp: step_defs Let_def split: pc.splits if_splits)
    with that show ?thesis by simp
  qed
  then show ?thesis
    using wake_coming_other [of n w x h w'] keep x assms(4,6,8) brings_releasing unfolding wakes_ok_def by blast
qed

lemma wakes_step:
  assumes "sized n w" "queues n w os" "h < n" "marks_ok n w" "records_ok n w" "wakes_ok n w" "holder_ok n w"
    and step: "hart_step n h w = Some w'"
  shows "wakes_ok n w'"
  unfolding wakes_ok_def
proof (intro allI impI)
  fix x assume x: "x < n" "pcs w' ! x = Halt (serving w')"
  have len: "length (pcs w) = n"
    using assms(1) by (simp add: sized_def)
  consider t where "pcs w ! h = Serve t" | t xs where "pcs w ! h = Read_Marks t \<or> pcs w ! h = Scan t xs"
    | "\<not> releasing (pcs w ! h)"
    by (cases "pcs w ! h") auto
  then show "wake_coming n w' x"
  proof cases
    case (1 t)
    then have "pcs w' ! h = Read_Marks (serving w')"
      using step assms(3) len by (auto simp: step_defs)
    then show ?thesis
      using assms(3) unfolding wake_coming_def brings_def by blast
  next
    case (2 t xs)
    then have same: "serving w' = serving w" "\<forall>y<n. y \<noteq> h \<longrightarrow> pcs w' ! y = pcs w ! y" "pcs w' ! h \<noteq> Halt (serving w)"
      using step assms(3) len by (auto simp: step_defs nth_list_update split: list.splits if_splits)
    then have "pcs w ! x = Halt (serving w)"
      using x by (cases "x = h") auto
    then show ?thesis
      using wakes_release [OF assms(1-6) 2 step x(1)] assms(6) x(1) by (simp add: wakes_ok_def)
  next
    case 3
    then show ?thesis
      using wakes_waiting [OF assms(1-3) _ step x assms(6)] by blast
  qed
qed

section \<open>The invariant\<close>

definition lock_inv :: "nat \<Rightarrow> world \<Rightarrow> nat list \<Rightarrow> bool" where
  "lock_inv n w os \<longleftrightarrow>
     sized n w \<and> queues n w os \<and> records_ok n w \<and> marks_ok n w \<and> holder_ok n w \<and> counts_ok n w \<and> wakes_ok n w"

lemma lock_inv_new: "n \<le> 32 \<Longrightarrow> lock_inv n (new_world n) []"
  by (auto simp: lock_inv_def new_world_def sized_def queue_of_def records_ok_def marks_ok_def marked_def holder_ok_def
      counts_ok_def wakes_ok_def)

lemma lock_invD:
  assumes "lock_inv n w os"
  shows "sized n w" "queues n w os" "records_ok n w" "marks_ok n w" "holder_ok n w" "counts_ok n w" "wakes_ok n w"
  using assms by (simp_all add: lock_inv_def)

lemma lock_inv_step:
  assumes "lock_inv n w os" "h < n" "hart_step n h w = Some w'"
  shows "lock_inv n w' (queue_after (pcs w ! h) h os)"
proof -
  note inv = lock_invD [OF assms(1)]
  show ?thesis
    unfolding lock_inv_def
    using sized_step [OF inv(1) assms(3)] records_step [OF inv(1) assms(2) inv(3) assms(3)]
      marks_step [OF inv(1) assms(2) inv(4) assms(3)] counts_step [OF inv(1,2) assms(2) inv(6) assms(3)]
      holder_step [OF inv(1,2) assms(2) inv(6,5) assms(3)] wakes_step [OF inv(1,2) assms(2) inv(4,3,7,5) assms(3)]
      queue_step [OF inv(1,5,2) assms(2,3) inv(6)]
    by (intro conjI)
qed

lemma lock_inv_interrupted:
  assumes "lock_inv n w os" "h < n" "interrupted h w = Some w'"
  shows "lock_inv n w' os"
proof -
  note inv = assms(1) [unfolded lock_inv_def]
  obtain t where t: "pcs w ! h = Halt t" and w': "w' = w\<lparr>pcs := (pcs w)[h := Unmark t]\<rparr>"
    using assms(3) by (auto simp: interrupted_def goto_def split: pc.splits)
  have q: "queues n w' os"
    using queue_keep [of n "pcs w" "serving w" "next_ticket w" os h "Unmark t"] inv assms(2) t w' by simp
  have "wake_coming n w' x" if "wake_coming n w x" "x < n" "x \<noteq> h" for x
    using wake_coming_other [of n w x h w'] that w' t brings_releasing [of w x "Halt t"] by auto
  then have "wakes_ok n w'"
    using inv w' assms(2) by (auto simp: wakes_ok_def sized_def nth_list_update split: if_splits)
  then show ?thesis
    using inv q w' t assms(2)
    by (auto simp: lock_inv_def sized_def records_ok_def marks_ok_def holder_ok_def held_here_def counts_ok_def nth_list_update)
qed

lemma runs_inv: "runs n w \<Longrightarrow> n \<le> 32 \<Longrightarrow> \<exists>os. lock_inv n w os"
proof (induction rule: runs.induct)
  case start
  then show ?case
    using lock_inv_new by blast
next
  case (step w h w')
  then show ?case
    using lock_inv_step by blast
next
  case (spurious w h w')
  then show ?case
    using lock_inv_interrupted by blast
qed

end
