(* ===== verification/Ticket_System.thy ===== *)
theory Ticket_System
  imports Ticket_Inv
begin

text \<open>
  What the kernel lock promises: one hart inside at a time, in the order the harts drew, no hart halted
  past its turn, and no run of the harts that stops with a hart waiting.
\<close>

section \<open>Schedules\<close>

fun schedule :: "nat \<Rightarrow> nat list \<Rightarrow> world \<Rightarrow> world option" where
  "schedule n [] w = Some w"
| "schedule n (h # hs) w =
     (if h < n then case hart_step n h w of None \<Rightarrow> None | Some w' \<Rightarrow> schedule n hs w' else None)"

lemma runs_schedule: "runs n w \<Longrightarrow> schedule n hs w = Some w' \<Longrightarrow> runs n w'"
proof (induction hs arbitrary: w)
  case (Cons h hs)
  then obtain w1 where "h < n" "hart_step n h w = Some w1" "schedule n hs w1 = Some w'"
    by (auto split: if_splits option.splits)
  then show ?case
    using Cons runs.step by blast
qed simp

text \<open>
  Two harts: hart 0 takes the lock, hart 1 draws the next ticket and halts, and hart 0 releases, as far as
  the store of \<open>serving\<close>.
\<close>

definition sample_hs :: "nat list" where
  "sample_hs = [0, 0, 0, 0, 1, 1, 1, 1, 1, 1, 0, 0, 0]"

definition sample_lock :: world where
  "sample_lock =
     \<lparr>next_ticket = 2, serving = 1, halted = 2, tickets = [0, 1], holder = 0, most_waited = 0,
      pcs = [Read_Marks 1, Halt 1], waited = [0, 1], wakes = [False, False]\<rparr>"

lemmas run_defs = step_defs new_world_def held_here_def hart_bit_def Let_def numeral_2_eq_2

lemma sample_schedule: "schedule 2 sample_hs (new_world 2) = Some sample_lock"
  by (simp add: sample_hs_def sample_lock_def run_defs)

lemma sample_runs: "runs 2 sample_lock"
  by (rule runs_schedule [OF runs.start sample_schedule])

lemma sample_pcs: "pcs sample_lock = [Read_Marks 1, Halt 1]" "serving sample_lock = 1" "next_ticket sample_lock = 2"
  by (simp_all add: sample_lock_def)

section \<open>The lock\<close>

text \<open>C8: no two harts are inside the kernel lock at once, whatever the order of their accesses.\<close>

theorem lock_excludes:
  assumes "runs n w" "n \<le> 32" "h < n" "x < n" "critical (pcs w ! h)" "critical (pcs w ! x)"
  shows "x = h"
proof -
  obtain os where inv: "lock_inv n w os"
    using runs_inv [OF assms(1,2)] ..
  show ?thesis
    using critical_unique [OF lock_invD(1,2) [OF inv] assms(3-6)] .
qed

theorem lock_excludes_witness: "\<exists>w. runs 2 w \<and> pcs w ! 0 = Inside \<and> \<not> critical (pcs w ! 1)"
proof -
  have "\<exists>w. schedule 2 [0, 0, 0, 0] (new_world 2) = Some w \<and> pcs w ! 0 = Inside"
    by (simp add: run_defs)
  then obtain w where "runs 2 w" "pcs w ! 0 = Inside"
    using runs_schedule [OF runs.start] by blast
  then show ?thesis
    using lock_excludes [of 2 w 0 1] by auto
qed

text \<open>
  C2: no hart halts past its turn.  While the ticket of a halted hart is the one being served, a wake is
  pending for it, or a release that served that ticket has yet to read the marks, or has read the hart's
  and has yet to come to it.
\<close>

theorem no_lost_wake:
  assumes "runs n w" "n \<le> 32" "h < n" "pcs w ! h = Halt (serving w)"
  shows "wakes w ! h \<or>
    (\<exists>r<n. pcs w ! r = Read_Marks (serving w) \<or> (\<exists>xs. pcs w ! r = Scan (serving w) xs \<and> h \<in> set xs))"
proof -
  obtain os where inv: "lock_inv n w os"
    using runs_inv [OF assms(1,2)] ..
  have "wake_coming n w h"
    using lock_invD(7) [OF inv] assms(3,4) by (simp add: wakes_ok_def)
  then show ?thesis
    unfolding wake_coming_def brings_def by (metis in_set_conv_decomp)
qed

theorem no_lost_wake_witness: "pcs sample_lock ! 1 = Halt (serving sample_lock) \<and> (wakes sample_lock ! 1 \<or>
    (\<exists>r<2. pcs sample_lock ! r = Read_Marks (serving sample_lock) \<or>
      (\<exists>xs. pcs sample_lock ! r = Scan (serving sample_lock) xs \<and> 1 \<in> set xs)))"
  using no_lost_wake [OF sample_runs, of 1] sample_pcs by simp

text \<open>
  C5: the lock is a queue of harts.  The harts with a ticket are a list, in the order they drew; a draw
  appends the hart, the store of a release drops the first, every other step leaves the list, and the hart
  inside is the first.
\<close>

theorem lock_refines_queue:
  assumes "runs n w" "n \<le> 32"
  shows "\<exists>os. queue_of n (pcs w) (serving w) (next_ticket w) os \<and>
    (\<forall>h<n. critical (pcs w ! h) \<longrightarrow> os \<noteq> [] \<and> hd os = h) \<and>
    (\<forall>h<n. \<forall>w'. hart_step n h w = Some w' \<longrightarrow>
      queue_of n (pcs w') (serving w') (next_ticket w') (queue_after (pcs w ! h) h os))"
proof -
  obtain os where inv: "lock_inv n w os"
    using runs_inv [OF assms] ..
  show ?thesis
  proof (intro exI conjI allI impI)
    show "queues n w os"
      using lock_invD(2) [OF inv] .
  next
    fix h assume h: "h < n" "critical (pcs w ! h)"
    obtain xs where "os = h # xs"
      using queue_first [OF lock_invD(2) [OF inv] assms(2) h(1) critical_ticket [OF h(2)]] .
    then show "os \<noteq> []" "hd os = h"
      by simp_all
  next
    fix h w' assume "h < n" "hart_step n h w = Some w'"
    then show "queues n w' (queue_after (pcs w ! h) h os)"
      by (rule lock_invD(2) [OF lock_inv_step [OF inv]])
  qed
qed

theorem lock_refines_queue_witness:
  "\<exists>os. queue_of 2 (pcs sample_lock) (serving sample_lock) (next_ticket sample_lock) os"
  using lock_refines_queue [OF sample_runs] by auto

text \<open>
  C29: R78's bound.  No acquisition waits behind as many sections as there are harts, and the checked
  build's assertions, this one and that the hart releasing is the holder, never fail.
\<close>

theorem lock_wait_bounded:
  assumes "runs n w" "n \<le> 32"
  shows "(most_waited w = 0 \<or> unat (most_waited w) < n) \<and> (\<forall>h<n. pcs w ! h \<noteq> Panicked)"
proof -
  obtain os where inv: "lock_inv n w os"
    using runs_inv [OF assms] ..
  then show ?thesis
    using lock_invD(5,6) [OF inv] by (simp add: counts_ok_def holder_ok_def)
qed

text \<open>The two harts further on: hart 0 wakes hart 1, which takes the lock behind one section.\<close>

definition sample_waited :: world where
  "sample_waited =
     \<lparr>next_ticket = 2, serving = 1, halted = 0, tickets = [0, 1], holder = 2, most_waited = 1,
      pcs = [Outside, Inside], waited = [0, 1], wakes = [False, False]\<rparr>"

lemma sample_waited_schedule: "schedule 2 [0, 0, 1, 1, 1, 1] sample_lock = Some sample_waited"
proof -
  have "marked 2 (Suc 0)" "\<not> marked 2 0"
    by code_simp+
  then show ?thesis
    by (simp add: sample_lock_def sample_waited_def run_defs)
qed

theorem lock_wait_bounded_witness:
  "runs 2 sample_waited \<and> most_waited sample_waited = 1 \<and> unat (most_waited sample_waited) < 2"
proof -
  have r: "runs 2 sample_waited"
    by (rule runs_schedule [OF sample_runs sample_waited_schedule])
  have "most_waited sample_waited = 1"
    by (simp add: sample_waited_def)
  with r lock_wait_bounded [OF r] show ?thesis
    by simp
qed

text \<open>
  C30: while any hart has a ticket, a hart that has one, or is still releasing, can take a step without any
  interrupt but the wakes the releases send: the harts are never all stuck.
\<close>

theorem lock_never_stuck:
  assumes "runs n w" "n \<le> 32" "next_ticket w \<noteq> serving w"
  shows "\<exists>h<n. pcs w ! h \<noteq> Outside \<and> hart_step n h w \<noteq> None"
proof -
  obtain os where inv: "lock_inv n w os"
    using runs_inv [OF assms(1,2)] ..
  note q = lock_invD(2) [OF inv]
  obtain h hs where os: "os = h # hs"
    using q assms(3) by (cases os) (auto simp: queue_of_def)
  have h: "h < n" "pc_ticket (serving w) (pcs w ! h) = Some (serving w)"
    using q os by (auto simp: queue_of_def)
  show ?thesis
  proof (cases "pcs w ! h = Halt (serving w)")
    case False
    have "pcs w ! h \<noteq> Outside" "hart_step n h w \<noteq> None"
      using False h(2) by (auto simp: hart_step_def split: pc.splits)
    with h(1) show ?thesis by blast
  next
    case True
    then consider "wakes w ! h" | r where "r < n" "brings w h (pcs w ! r)"
      using lock_invD(7) [OF inv] h(1) by (auto simp: wakes_ok_def wake_coming_def)
    then show ?thesis
    proof cases
      case 1
      with True h(1) show ?thesis
        by (intro exI [of _ h]) (simp add: hart_step_def)
    next
      case (2 r)
      then show ?thesis
        by (intro exI [of _ r]) (auto simp: brings_def hart_step_def)
    qed
  qed
qed

theorem lock_never_stuck_witness: "\<exists>h<2. pcs sample_lock ! h \<noteq> Outside \<and> hart_step 2 h sample_lock \<noteq> None"
proof -
  have "next_ticket sample_lock \<noteq> serving sample_lock"
    by (simp add: sample_pcs)
  then show ?thesis
    using lock_never_stuck [OF sample_runs] by simp
qed

end
