(* ===== verification/Console.thy ===== *)
theory Console
  imports Prelude
begin

text \<open>
  The console's one writer: the hold and the kernel's lines waiting on it (\<open>libs/conhold/src/lib.rs\<close>), and
  the kernel console over them (\<open>kernel/src/debug/console.rs\<close>).  The serial port is the list of the bytes
  sent to it.  A formatted line is the list of the strings its formatting writes, in order; a writer that
  refuses one ends the formatting, as \<open>write_fmt\<close> does.  The lines are not wrapped (\<open>wrap-print\<close> is off).
\<close>

section \<open>The hold\<close>

datatype line_result = Line_Free | Line_Ending | Line_Queued | Line_Full

record hold =
  h_holder :: u32
  h_queue :: "u8 list"
  h_len :: nat
  h_spilled :: u64
  h_open_by :: u32
  h_wrote_for :: u32

definition hold_new :: "nat \<Rightarrow> hold" where
  "hold_new n = \<lparr>h_holder = 0, h_queue = replicate n 0, h_len = 0, h_spilled = 0, h_open_by = 0, h_wrote_for = 0\<rparr>"

definition hold_holder :: "hold \<Rightarrow> u32 option" where
  "hold_holder h = (if h_holder h \<noteq> 0 then Some (h_holder h) else None)"

datatype busy = Busy

definition hold_take :: "u32 \<Rightarrow> hold \<Rightarrow> (busy + bool) \<times> hold" where
  "hold_take pid h =
     (if h_holder h = 0 \<or> h_holder h = pid then
        let h = (if h_holder h = 0 then h\<lparr>h_holder := pid\<rparr> else h); wrote = (h_wrote_for h = pid)
        in (Inr wrote, if wrote then h\<lparr>h_wrote_for := 0\<rparr> else h)
      else (Inl Busy, h))"

definition hold_release :: "u32 \<Rightarrow> bool \<Rightarrow> hold \<Rightarrow> bool option \<times> hold" where
  "hold_release pid opn h =
     (if pid = 0 \<or> h_holder h \<noteq> pid then (None, h)
      else let h = h\<lparr>h_holder := 0\<rparr>; ending = (opn \<and> h_len h > 0);
               h = h\<lparr>h_open_by := if opn \<and> \<not> ending then pid else 0\<rparr>
           in (Some ending, if ending then h\<lparr>h_wrote_for := pid\<rparr> else h))"

definition hold_died :: "u32 \<Rightarrow> hold \<Rightarrow> bool \<times> hold" where
  "hold_died pid h =
     (let opn = (pid \<noteq> 0 \<and> h_open_by h = pid);
          h = (if opn then h\<lparr>h_open_by := 0\<rparr> else h);
          h = (if pid \<noteq> 0 \<and> h_wrote_for h = pid then h\<lparr>h_wrote_for := 0\<rparr> else h);
          (released, h) = hold_release pid False h
      in (released \<noteq> None \<or> opn, h))"

text \<open>The writer on the free end of the queue: a string that does not fit is refused and leaves nothing.\<close>

definition tail_write :: "u8 list \<Rightarrow> u8 list \<times> nat \<Rightarrow> (u8 list \<times> nat) option" where
  "tail_write s t =
     (case t of (queue, len) \<Rightarrow>
        if len + length s \<le> length queue then Some (take len queue @ s @ drop (len + length s) queue, len + length s)
        else None)"

primrec tail_fmt :: "u8 list list \<Rightarrow> u8 list \<times> nat \<Rightarrow> bool \<times> u8 list \<times> nat" where
  "tail_fmt [] t = (True, t)"
| "tail_fmt (s # ss) t = (case tail_write s t of None \<Rightarrow> (False, t) | Some t \<Rightarrow> tail_fmt ss t)"

definition hold_line :: "u8 list list \<Rightarrow> hold \<Rightarrow> line_result \<times> hold" where
  "hold_line ss h =
     (if h_holder h = 0 then
        if h_open_by h \<noteq> 0 then (Line_Ending, h\<lparr>h_wrote_for := h_open_by h, h_open_by := 0\<rparr>) else (Line_Free, h)
      else case tail_fmt ss (h_queue h, h_len h) of (ok, queue, len) \<Rightarrow>
             if ok then (Line_Queued, h\<lparr>h_queue := queue, h_len := len\<rparr>)
             else (Line_Full, h\<lparr>h_queue := queue, h_len := h_len h, h_spilled := h_spilled h + 1\<rparr>))"

definition hold_queued :: "hold \<Rightarrow> u8 list" where
  "hold_queued h = take (h_len h) (h_queue h)"

definition hold_clear :: "hold \<Rightarrow> hold" where
  "hold_clear h = h\<lparr>h_len := 0\<rparr>"

section \<open>The kernel console\<close>

record console =
  c_sent :: "u8 list"
  c_hold :: hold

definition HOLD_BYTES :: nat where
  "HOLD_BYTES = 4096"

definition console_new :: console where
  "console_new = \<lparr>c_sent = [], c_hold = hold_new HOLD_BYTES\<rparr>"

definition crlf :: "u8 list" where
  "crlf = [13, 10]"

definition write_str :: "u8 list \<Rightarrow> console \<Rightarrow> console" where
  "write_str s c = c\<lparr>c_sent := c_sent c @ s\<rparr>"

definition write_fmt :: "u8 list list \<Rightarrow> console \<Rightarrow> console" where
  "write_fmt ss c = fold write_str ss c"

definition con_flush :: "u8 list \<Rightarrow> console \<Rightarrow> console" where
  "con_flush before c =
     (if hold_queued (c_hold c) = [] then c
      else let c = write_str before c; c = write_str (hold_queued (c_hold c)) c
           in c\<lparr>c_hold := hold_clear (c_hold c)\<rparr>)"

definition con_print :: "u8 list list \<Rightarrow> console \<Rightarrow> console" where
  "con_print ss c =
     (case hold_line ss (c_hold c) of (res, h) \<Rightarrow>
        let c = c\<lparr>c_hold := h\<rparr>
        in case res of
             Line_Queued \<Rightarrow> c
           | Line_Full \<Rightarrow> write_fmt ss (con_flush [] c)
           | Line_Free \<Rightarrow> write_fmt ss c
           | Line_Ending \<Rightarrow> write_fmt ss (write_str crlf c))"

datatype hold_call = Take | Release | Release_Open

definition con_hold :: "u32 \<Rightarrow> hold_call \<Rightarrow> console \<Rightarrow> (busy + bool) \<times> console" where
  "con_hold pid k c =
     (case k of
        Take \<Rightarrow> (case hold_take pid (c_hold c) of (r, h) \<Rightarrow> (r, c\<lparr>c_hold := h\<rparr>))
      | _ \<Rightarrow>
          (case hold_release pid (k = Release_Open) (c_hold c) of (r, h) \<Rightarrow>
             let c = c\<lparr>c_hold := h\<rparr>
             in (Inr False, case r of Some ending \<Rightarrow> con_flush (if ending then crlf else []) c | None \<Rightarrow> c)))"

definition flush_held :: "console \<Rightarrow> console" where
  "flush_held c =
     (let c = (case hold_holder (c_hold c) of
                 Some pid \<Rightarrow> c\<lparr>c_hold := snd (hold_died pid (c_hold c))\<rparr> | None \<Rightarrow> c)
      in con_flush crlf c)"

definition con_died :: "u32 \<Rightarrow> console \<Rightarrow> console" where
  "con_died pid c =
     (case hold_died pid (c_hold c) of (b, h) \<Rightarrow>
        let c = c\<lparr>c_hold := h\<rparr> in if b then con_flush [] (write_str crlf c) else c)"

text \<open>A panic that did not strike inside a print.\<close>

definition print_panic :: "u8 list list \<Rightarrow> console \<Rightarrow> console" where
  "print_panic ss c = write_fmt (ss @ [crlf]) (con_flush crlf c)"

end
