(* ===== verification/Console_System.thy ===== *)
theory Console_System
  imports Console
begin

text \<open>
  What the console promises: the kernel's lines reach the serial port whole and in the order they were
  printed, and none waits while nobody holds the console; and what a holder is told of its unfinished line.
\<close>

section \<open>Runs of the console\<close>

datatype console_op =
    Print "u8 list list" | Hold_Call u32 hold_call | Died u32 | Flush_Held | Panic "u8 list list"

fun con_op :: "console_op \<Rightarrow> console \<Rightarrow> console" where
  "con_op (Print ss) c = con_print ss c"
| "con_op (Hold_Call pid k) c = snd (con_hold pid k c)"
| "con_op (Died pid) c = con_died pid c"
| "con_op Flush_Held c = flush_held c"
| "con_op (Panic ss) c = print_panic ss c"

fun op_lines :: "console_op \<Rightarrow> u8 list list" where
  "op_lines (Print ss) = [concat ss]"
| "op_lines (Panic ss) = [concat ss @ crlf]"
| "op_lines _ = []"

definition console_after :: "console_op list \<Rightarrow> console" where
  "console_after ops = fold con_op ops console_new"

definition lines_of :: "console_op list \<Rightarrow> u8 list list" where
  "lines_of ops = concat (map op_lines ops)"

text \<open>The lines one after another, with the ends of a holder's lines between them.\<close>

inductive spliced :: "u8 list list \<Rightarrow> u8 list \<Rightarrow> bool" where
  none: "spliced [] []"
| line: "spliced ls out \<Longrightarrow> spliced (ls @ [l]) (out @ l)"
| ending: "spliced ls out \<Longrightarrow> spliced ls (out @ crlf)"

lemma spliced_lines: "spliced ls out \<Longrightarrow> spliced (ls @ ms) (out @ concat ms)"
proof (induction ms rule: rev_induct)
  case (snoc m ms)
  then have "spliced ((ls @ ms) @ [m]) ((out @ concat ms) @ m)"
    by (intro spliced.line) simp
  then show ?case by simp
qed simp

definition con_ok :: "u8 list list \<Rightarrow> console \<Rightarrow> bool" where
  "con_ok ls c \<longleftrightarrow>
     (\<exists>ls1 ls2. ls = ls1 @ ls2 \<and> spliced ls1 (c_sent c) \<and> hold_queued (c_hold c) = concat ls2) \<and>
     h_len (c_hold c) \<le> length (h_queue (c_hold c)) \<and> (h_holder (c_hold c) = 0 \<longrightarrow> h_len (c_hold c) = 0)"

text \<open>The same, but that lines may wait with nobody holding: between giving the hold back and the flush.\<close>

definition con_mid :: "u8 list list \<Rightarrow> console \<Rightarrow> bool" where
  "con_mid ls c \<longleftrightarrow>
     (\<exists>ls1 ls2. ls = ls1 @ ls2 \<and> spliced ls1 (c_sent c) \<and> hold_queued (c_hold c) = concat ls2) \<and>
     h_len (c_hold c) \<le> length (h_queue (c_hold c))"

lemma con_midI:
  "spliced ls1 (c_sent c) \<Longrightarrow> hold_queued (c_hold c) = concat ls2 \<Longrightarrow> h_len (c_hold c) \<le> length (h_queue (c_hold c)) \<Longrightarrow>
    con_mid (ls1 @ ls2) c"
  by (auto simp: con_mid_def)

lemma con_mid_all: "spliced ls (c_sent c) \<Longrightarrow> h_len (c_hold c) = 0 \<Longrightarrow> con_mid ls c"
  using con_midI [of ls c "[]"] by (simp add: hold_queued_def)

lemma con_ok_mid: "con_ok ls c \<Longrightarrow> con_mid ls c"
  by (simp add: con_ok_def con_mid_def)

lemma con_mid_sent: "con_mid ls c \<Longrightarrow> h_len (c_hold c) = 0 \<Longrightarrow> spliced ls (c_sent c)"
proof -
  assume "con_mid ls c" "h_len (c_hold c) = 0"
  then obtain ls1 ls2 where "ls = ls1 @ ls2" "spliced ls1 (c_sent c)" "concat ls2 = []"
    by (auto simp: con_mid_def hold_queued_def)
  then show ?thesis
    using spliced_lines [of ls1 "c_sent c" ls2] by (metis append_Nil2)
qed

lemma con_mid_hold:
  assumes "con_mid ls c" "h_len h = h_len (c_hold c)" "h_queue h = h_queue (c_hold c)"
  shows "con_mid ls (c\<lparr>c_hold := h\<rparr>)"
  using assms by (simp add: con_mid_def hold_queued_def)

lemma con_mid_ok: "con_mid ls c \<Longrightarrow> h_holder (c_hold c) = 0 \<longrightarrow> h_len (c_hold c) = 0 \<Longrightarrow> con_ok ls c"
  by (simp add: con_mid_def con_ok_def)

section \<open>Every operation keeps it\<close>

lemma write_fmt_sent: "write_fmt ss c = c\<lparr>c_sent := c_sent c @ concat ss\<rparr>"
  unfolding write_fmt_def by (induction ss arbitrary: c) (simp_all add: write_str_def)

lemma con_flush_mid:
  assumes "con_mid ls c" "before = [] \<or> before = crlf"
  shows "con_mid ls (con_flush before c)" "h_len (c_hold (con_flush before c)) = 0"
    "h_holder (c_hold (con_flush before c)) = h_holder (c_hold c)"
proof -
  obtain ls1 ls2 where ls: "ls = ls1 @ ls2" "spliced ls1 (c_sent c)" "hold_queued (c_hold c) = concat ls2"
    and len: "h_len (c_hold c) \<le> length (h_queue (c_hold c))"
    using assms(1) by (auto simp: con_mid_def)
  have "spliced ls1 (c_sent c @ before)"
    using assms(2) ls(2) spliced.ending by auto
  then have "spliced (ls1 @ ls2) ((c_sent c @ before) @ concat ls2)"
    by (rule spliced_lines)
  then show "con_mid ls (con_flush before c)"
    using assms(1) ls
    by (cases "hold_queued (c_hold c) = []")
      (auto simp: con_flush_def write_str_def hold_clear_def Let_def intro!: con_mid_all)
  show "h_len (c_hold (con_flush before c)) = 0"
    using len by (auto simp: con_flush_def hold_queued_def hold_clear_def write_str_def Let_def)
  show "h_holder (c_hold (con_flush before c)) = h_holder (c_hold c)"
    by (simp add: con_flush_def hold_clear_def write_str_def Let_def)
qed

lemma sent_line:
  assumes "con_mid ls c" "h_len (c_hold c) = 0"
  shows "con_mid (ls @ [concat ss]) (write_fmt ss c)"
proof -
  have "spliced (ls @ [concat ss]) (c_sent c @ concat ss)"
    using con_mid_sent [OF assms] by (rule spliced.line)
  then show ?thesis
    using assms(2) by (intro con_mid_all) (simp_all add: write_fmt_sent)
qed

lemma sent_ending: "con_mid ls c \<Longrightarrow> con_mid ls (write_str crlf c)"
  using spliced.ending by (auto simp: con_mid_def write_str_def)

lemma tail_fmt_queue:
  "len \<le> length queue \<Longrightarrow> tail_fmt ss (queue, len) = (ok, queue', len') \<Longrightarrow>
    length queue' = length queue \<and> take len queue' = take len queue \<and>
    (ok \<longrightarrow> len' = len + length (concat ss) \<and> len' \<le> length queue \<and> take len' queue' = take len queue @ concat ss)"
proof (induction ss arbitrary: queue len)
  case (Cons s ss)
  show ?case
  proof (cases "len + length s \<le> length queue")
    case False
    then show ?thesis
      using Cons.prems by (simp add: tail_write_def)
  next
    case True
    let ?q = "take len queue @ s @ drop (len + length s) queue"
    have len: "len + length s \<le> length ?q" "length ?q = length queue"
      using True by simp_all
    have "tail_fmt ss (?q, len + length s) = (ok, queue', len')"
      using Cons.prems True by (simp add: tail_write_def)
    note IH = Cons.IH [OF len(1) this]
    have t: "take (len + length s) ?q = take len queue @ s"
      using True by simp
    have "take len queue' = take len (take (len + length s) queue')"
      by (simp add: min_def)
    also have "\<dots> = take len (take len queue @ s)"
      using IH unfolding t by simp
    finally have "take len queue' = take len queue"
      using True by simp
    then show ?thesis
      using IH unfolding t len(2) by (auto simp: add.assoc)
  qed
qed auto

lemma con_print_ok:
  assumes "con_ok ls c"
  shows "con_ok (ls @ [concat ss]) (con_print ss c)"
proof (cases "h_holder (c_hold c) = 0")
  case True
  then have len: "h_len (c_hold c) = 0"
    using assms by (simp add: con_ok_def)
  let ?c = "c\<lparr>c_hold := snd (hold_line ss (c_hold c))\<rparr>"
  have mid: "con_mid ls ?c" "h_len (c_hold ?c) = 0"
    using con_mid_hold [OF con_ok_mid [OF assms]] True len by (auto simp: hold_line_def)
  have mid': "con_mid ls (write_str crlf ?c)" "h_len (c_hold (write_str crlf ?c)) = 0"
    using sent_ending [OF mid(1)] mid(2) by (simp_all add: write_str_def)
  show ?thesis
    using sent_line [OF mid, of ss] sent_line [OF mid', of ss] mid(2) True
    by (intro con_mid_ok)
      (auto simp: con_print_def hold_line_def Let_def write_fmt_sent write_str_def)
next
  case False
  have ok: "h_len (c_hold c) \<le> length (h_queue (c_hold c))"
    using assms by (simp add: con_ok_def)
  obtain b queue len where t: "tail_fmt ss (h_queue (c_hold c), h_len (c_hold c)) = (b, queue, len)"
    by (metis prod_cases3)
  note tf = tail_fmt_queue [OF ok t]
  show ?thesis
  proof (cases b)
    case True
    obtain ls1 ls2 where ls: "ls = ls1 @ ls2" "spliced ls1 (c_sent c)" "hold_queued (c_hold c) = concat ls2"
      using assms by (auto simp: con_ok_def)
    have c: "con_print ss c = c\<lparr>c_hold := (c_hold c)\<lparr>h_queue := queue, h_len := len\<rparr>\<rparr>"
      using False True t by (simp add: con_print_def hold_line_def)
    have "con_mid (ls1 @ ls2 @ [concat ss]) (con_print ss c)"
      using True tf ls unfolding c by (intro con_midI) (auto simp: hold_queued_def)
    then show ?thesis
      using False ls(1) c by (intro con_mid_ok) simp_all
  next
    case full: False
    let ?c = "c\<lparr>c_hold := snd (hold_line ss (c_hold c))\<rparr>"
    have h: "hold_line ss (c_hold c) =
        (Line_Full, (c_hold c)\<lparr>h_queue := queue, h_len := h_len (c_hold c), h_spilled := h_spilled (c_hold c) + 1\<rparr>)"
      using False full t by (simp add: hold_line_def)
    have "con_mid ls ?c"
      using con_ok_mid [OF assms] tf h by (simp add: con_mid_def hold_queued_def)
    note fl = con_flush_mid [OF this, of "[]"]
    have "con_print ss c = write_fmt ss (con_flush [] ?c)"
      by (simp add: con_print_def h)
    then show ?thesis
      using sent_line [of ls "con_flush [] ?c" ss] fl by (intro con_mid_ok) (simp_all add: write_fmt_sent)
  qed
qed

lemma hold_release_queue:
  "hold_release pid opn h = (r, h') \<Longrightarrow> h_len h' = h_len h \<and> h_queue h' = h_queue h \<and> (r = None \<longrightarrow> h' = h) \<and> (r \<noteq> None \<longrightarrow> h_holder h' = 0)"
  by (auto simp: hold_release_def Let_def split: if_splits)

lemma hold_died_queue:
  assumes "hold_died pid h = (b, h')"
  shows "h_len h' = h_len h" "h_queue h' = h_queue h" "\<not> b \<Longrightarrow> h_holder h' = h_holder h"
  using assms by (auto simp: hold_died_def hold_release_def Let_def split: if_splits)

lemma con_hold_ok: "con_ok ls c \<Longrightarrow> con_ok ls (snd (con_hold pid k c))"
proof -
  assume ok: "con_ok ls c"
  have release: "con_ok ls (case r of Some e \<Rightarrow> con_flush (if e then crlf else []) (c\<lparr>c_hold := h\<rparr>) | None \<Rightarrow> c\<lparr>c_hold := h\<rparr>)"
    if "hold_release pid opn (c_hold c) = (r, h)" for opn r h
  proof (cases r)
    case None
    with hold_release_queue [OF that] ok show ?thesis by simp
  next
    case (Some e)
    have "con_mid ls (c\<lparr>c_hold := h\<rparr>)"
      using hold_release_queue [OF that] by (intro con_mid_hold con_ok_mid ok) simp_all
    note fl = con_flush_mid [OF this, of "if e then crlf else []"]
    then show ?thesis
      using Some by (intro con_mid_ok) auto
  qed
  show ?thesis
  proof (cases k)
    case Take
    have "h_len (snd (hold_take pid (c_hold c))) = h_len (c_hold c)" "h_queue (snd (hold_take pid (c_hold c))) = h_queue (c_hold c)"
      "h_holder (snd (hold_take pid (c_hold c))) = 0 \<longrightarrow> h_holder (c_hold c) = 0"
      by (auto simp: hold_take_def Let_def)
    then show ?thesis
      using ok con_mid_hold [OF con_ok_mid [OF ok]] Take
      by (intro con_mid_ok) (auto simp: con_hold_def con_ok_def split: prod.split)
  qed (use release in \<open>auto simp: con_hold_def Let_def split: prod.split\<close>)
qed

lemma con_died_ok: "con_ok ls c \<Longrightarrow> con_ok ls (con_died pid c)"
proof -
  assume ok: "con_ok ls c"
  obtain b h where d: "hold_died pid (c_hold c) = (b, h)"
    by force
  have mid: "con_mid ls (c\<lparr>c_hold := h\<rparr>)"
    using hold_died_queue [OF d] by (intro con_mid_hold con_ok_mid ok) simp_all
  show ?thesis
  proof (cases b)
    case True
    note fl = con_flush_mid [OF sent_ending [OF mid], of "[]"]
    with True d show ?thesis
      by (intro con_mid_ok) (simp_all add: con_died_def)
  next
    case False
    with d hold_died_queue [OF d] ok mid show ?thesis
      by (intro con_mid_ok) (simp_all add: con_died_def con_ok_def)
  qed
qed

lemma flush_held_ok: "con_ok ls c \<Longrightarrow> con_ok ls (flush_held c)"
proof -
  assume ok: "con_ok ls c"
  have mid: "con_mid ls (c\<lparr>c_hold := snd (hold_died pid (c_hold c))\<rparr>)" for pid
    using hold_died_queue [of pid "c_hold c"] by (intro con_mid_hold con_ok_mid ok) (metis prod.collapse)+
  show ?thesis
    using con_flush_mid [OF mid, of crlf] con_flush_mid [OF con_ok_mid [OF ok], of crlf]
    by (intro con_mid_ok) (auto simp: flush_held_def Let_def split: option.split)
qed

lemma print_panic_ok: "con_ok ls c \<Longrightarrow> con_ok (ls @ [concat ss @ crlf]) (print_panic ss c)"
proof -
  assume ok: "con_ok ls c"
  note fl = con_flush_mid [OF con_ok_mid [OF ok], of crlf]
  have "con_mid (ls @ [concat (ss @ [crlf])]) (print_panic ss c)"
    using sent_line [of ls "con_flush crlf c" "ss @ [crlf]"] fl by (simp add: print_panic_def)
  then show ?thesis
    using fl by (intro con_mid_ok) (simp_all add: print_panic_def write_fmt_sent)
qed

lemma con_op_ok: "con_ok ls c \<Longrightarrow> con_ok (ls @ op_lines opr) (con_op opr c)"
  by (cases opr) (simp_all add: con_print_ok con_hold_ok con_died_ok flush_held_ok print_panic_ok)

lemma con_ops_ok: "con_ok ls c \<Longrightarrow> con_ok (ls @ lines_of ops) (fold con_op ops c)"
proof (induction ops arbitrary: ls c)
  case (Cons opr ops)
  from Cons.IH [OF con_op_ok [OF Cons.prems, of opr]] show ?case
    by (simp add: lines_of_def)
qed (simp add: lines_of_def)

lemma con_new_ok: "con_ok [] console_new"
  by (auto simp: con_ok_def console_new_def hold_new_def hold_queued_def intro: spliced.none)

section \<open>The console's promises\<close>

text \<open>
  C9: after any sequence of prints, holds, deaths and flushes, the kernel's lines are on the serial port
  whole and in the order they were printed, with at most the ends of holders' lines between them, or wait
  whole and in order in the queue behind them; and while nobody holds the console they are all on the
  serial port.
\<close>

theorem kernel_lines_whole:
  "\<exists>ls1 ls2. lines_of ops = ls1 @ ls2 \<and> spliced ls1 (c_sent (console_after ops)) \<and>
    hold_queued (c_hold (console_after ops)) = concat ls2 \<and>
    (h_holder (c_hold (console_after ops)) = 0 \<longrightarrow> spliced (lines_of ops) (c_sent (console_after ops)))"
proof -
  have ok: "con_ok (lines_of ops) (console_after ops)"
    using con_ops_ok [OF con_new_ok, of ops] by (simp add: console_after_def)
  then have "h_holder (c_hold (console_after ops)) = 0 \<longrightarrow> spliced (lines_of ops) (c_sent (console_after ops))"
    using con_mid_sent [OF con_ok_mid [OF ok]] by (simp add: con_ok_def)
  with ok show ?thesis
    unfolding con_ok_def by blast
qed

theorem kernel_lines_whole_witness:
  "spliced [[1, 2], [3]] (c_sent (console_after [Print [[1], [2]], Hold_Call 5 Take, Hold_Call 5 Release_Open, Print [[3]]]))"
  using kernel_lines_whole [of "[Print [[1], [2]], Hold_Call 5 Take, Hold_Call 5 Release_Open, Print [[3]]]"]
  by (auto simp: console_after_def lines_of_def con_print_def hold_line_def con_hold_def hold_take_def hold_release_def con_flush_def
      hold_queued_def write_str_def write_fmt_sent console_new_def hold_new_def Let_def)

section \<open>What a holder is told\<close>

lemma con_flush_hold: "c_hold (con_flush before c) = (if hold_queued (c_hold c) = [] then c_hold c else (c_hold c)\<lparr>h_len := 0\<rparr>)"
  by (simp add: con_flush_def hold_clear_def write_str_def Let_def)

lemma con_print_hold:
  "h_holder (c_hold (con_print ss c)) = h_holder (c_hold c)"
  "h_wrote_for (c_hold (con_print ss c)) =
     (if h_holder (c_hold c) = 0 \<and> h_open_by (c_hold c) \<noteq> 0 then h_open_by (c_hold c) else h_wrote_for (c_hold c))"
  "h_open_by (c_hold (con_print ss c)) = (if h_holder (c_hold c) = 0 then 0 else h_open_by (c_hold c))"
  by (auto simp: con_print_def hold_line_def write_fmt_sent write_str_def con_flush_hold Let_def split: prod.split)

text \<open>A holder is owed no answer: its own take, which made it the holder, has given it.\<close>

definition answered :: "hold \<Rightarrow> bool" where
  "answered h \<longleftrightarrow> h_holder h = 0 \<or> h_wrote_for h \<noteq> h_holder h"

lemma con_flush_answered: "answered (c_hold (con_flush before c)) \<longleftrightarrow> answered (c_hold c)"
  by (simp add: con_flush_hold answered_def)

lemma hold_release_answered: "answered h \<Longrightarrow> answered (snd (hold_release pid opn h))"
  by (simp add: answered_def hold_release_def Let_def)

lemma hold_died_answered: "answered h \<Longrightarrow> answered (snd (hold_died pid h))"
proof -
  assume h: "answered h"
  let ?h1 = "if pid \<noteq> 0 \<and> h_open_by h = pid then h\<lparr>h_open_by := 0\<rparr> else h"
  let ?h2 = "if pid \<noteq> 0 \<and> h_wrote_for ?h1 = pid then ?h1\<lparr>h_wrote_for := 0\<rparr> else ?h1"
  have "answered ?h2"
    using h by (auto simp: answered_def)
  from hold_release_answered [OF this] show ?thesis
    by (simp add: hold_died_def Let_def case_prod_beta)
qed

lemma con_op_answered:
  assumes "answered (c_hold c)"
  shows "answered (c_hold (con_op opr c))"
proof (cases opr)
  case (Print ss)
  with assms show ?thesis
    by (simp add: answered_def con_print_hold)
next
  case (Hold_Call pid k)
  have "answered (snd (hold_take pid (c_hold c)))"
    using assms by (auto simp: answered_def hold_take_def Let_def)
  with Hold_Call hold_release_answered [OF assms] show ?thesis
    by (cases k) (auto simp: con_hold_def con_flush_answered Let_def case_prod_beta split: option.split)
next
  case (Died pid)
  with hold_died_answered [OF assms] show ?thesis
    by (auto simp: con_died_def con_flush_answered write_str_def Let_def case_prod_beta)
next
  case Flush_Held
  with assms hold_died_answered [OF assms] show ?thesis
    by (auto simp: flush_held_def con_flush_answered Let_def split: option.split)
next
  case (Panic ss)
  with assms show ?thesis
    by (simp add: print_panic_def write_fmt_sent con_flush_answered)
qed

lemma console_answered: "answered (c_hold (console_after ops))"
proof -
  have "answered (c_hold c) \<Longrightarrow> answered (c_hold (fold con_op ops c))" for c
    by (induction ops arbitrary: c) (simp_all add: con_op_answered)
  then show ?thesis
    by (simp add: console_after_def) (simp add: console_new_def hold_new_def answered_def)
qed

text \<open>What may happen between a release and the next take: anything but a take, or the death of the process.\<close>

fun no_take :: "u32 \<Rightarrow> console_op \<Rightarrow> bool" where
  "no_take pid (Hold_Call p k) \<longleftrightarrow> k \<noteq> Take"
| "no_take pid (Died p) \<longleftrightarrow> p \<noteq> pid"
| "no_take pid _ \<longleftrightarrow> True"

fun is_print :: "console_op \<Rightarrow> bool" where
  "is_print (Print ss) \<longleftrightarrow> True"
| "is_print _ \<longleftrightarrow> False"

definition owed :: "u32 \<Rightarrow> bool \<Rightarrow> hold \<Rightarrow> bool" where
  "owed pid told h \<longleftrightarrow> h_holder h = 0 \<and> h_open_by h = (if told then 0 else pid) \<and> (h_wrote_for h = pid \<longleftrightarrow> told)"

lemma owed_flush: "owed pid told (c_hold (con_flush before c)) \<longleftrightarrow> owed pid told (c_hold c)"
  by (simp add: con_flush_hold owed_def)

lemma owed_release: "owed pid told h \<Longrightarrow> hold_release p opn h = (None, h)"
  by (auto simp: owed_def hold_release_def)

lemma owed_died: "pid \<noteq> 0 \<Longrightarrow> p \<noteq> pid \<Longrightarrow> owed pid told h \<Longrightarrow> owed pid told (snd (hold_died p h))"
  by (auto simp: owed_def hold_died_def hold_release_def Let_def)

lemma con_op_owed:
  assumes "pid \<noteq> 0" "no_take pid opr" "owed pid told (c_hold c)"
  shows "owed pid (told \<or> is_print opr) (c_hold (con_op opr c))"
proof (cases opr)
  case (Print ss)
  with assms show ?thesis
    by (auto simp: owed_def con_print_hold)
next
  case (Hold_Call p k)
  with assms owed_release [OF assms(3)] show ?thesis
    by (cases k) (simp_all add: con_hold_def)
next
  case (Died p)
  with assms owed_died [of pid p told "c_hold c"] show ?thesis
    by (auto simp: con_died_def owed_flush write_str_def Let_def case_prod_beta)
next
  case Flush_Held
  with assms show ?thesis
    by (auto simp: flush_held_def hold_holder_def con_flush_hold owed_def Let_def)
next
  case (Panic ss)
  with assms show ?thesis
    by (simp add: print_panic_def write_fmt_sent owed_flush)
qed

lemma con_ops_owed:
  assumes "pid \<noteq> 0" "list_all (no_take pid) ops" "owed pid told (c_hold c)"
  shows "owed pid (told \<or> list_ex is_print ops) (c_hold (fold con_op ops c))"
  using assms(2,3)
proof (induction ops arbitrary: told c)
  case (Cons opr ops)
  from Cons.prems have "owed pid (told \<or> is_print opr) (c_hold (con_op opr c))"
    by (intro con_op_owed assms(1)) simp_all
  from Cons.IH [OF _ this] Cons.prems show ?case
    by (simp add: disj_assoc)
qed simp

text \<open>
  C31: a holder that gives the hold back with its line unfinished is told by its next take that the kernel
  wrote exactly when a kernel line waited as it did or one was printed since, whatever else came between
  that is neither a take of the console nor the holder's own death: releases by others, deaths of others,
  flushes.  (A panic's line is not a print in this sense, and is not told.)
\<close>

theorem ending_told:
  assumes "h_holder (c_hold (console_after before)) = pid" "pid \<noteq> 0" "list_all (no_take pid) between"
  shows "fst (con_hold pid Take (console_after (before @ Hold_Call pid Release_Open # between))) =
    Inr (h_len (c_hold (console_after before)) > 0 \<or> list_ex is_print between)"
proof -
  let ?c = "console_after before"
  have "owed pid (h_len (c_hold ?c) > 0) (c_hold (con_op (Hold_Call pid Release_Open) ?c))"
    using assms(1,2) console_answered [of before]
    by (auto simp: con_hold_def hold_release_def con_flush_hold owed_def answered_def Let_def)
  note o = con_ops_owed [OF assms(2,3) this]
  have "console_after (before @ Hold_Call pid Release_Open # between) =
      fold con_op between (con_op (Hold_Call pid Release_Open) ?c)"
    by (simp add: console_after_def)
  with o show ?thesis
    by (simp add: con_hold_def hold_take_def owed_def Let_def case_prod_beta)
qed

theorem ending_told_witness:
  "h_holder (c_hold (console_after [Hold_Call 7 Take])) = 7 \<and>
   list_all (no_take 7) [Died 3, Print [[65]], Hold_Call 4 Release, Died 4] \<and>
   fst (con_hold 7 Take (console_after
     ([Hold_Call 7 Take] @ Hold_Call 7 Release_Open # [Died 3, Print [[65]], Hold_Call 4 Release, Died 4]))) = Inr True"
proof -
  have h: "h_holder (c_hold (console_after [Hold_Call 7 Take])) = 7"
    by (simp add: console_after_def con_hold_def hold_take_def console_new_def hold_new_def Let_def)
  have b: "list_all (no_take 7) [Died 3, Print [[65]], Hold_Call 4 Release, Died 4]"
    by simp
  from h b ending_told [OF h _ b] show ?thesis
    by simp
qed

text \<open>
  One record is kept for every holder, so another process's ended line takes its place: process 1
  leaves its line unfinished, a kernel line ends it, and after process 2's line is ended the same way the
  take of process 1 is not told.
\<close>

lemma ending_forgotten:
  "fst (con_hold 1 Take (console_after [Hold_Call 1 Take, Hold_Call 1 Release_Open, Print [[65]]])) = Inr True \<and>
   fst (con_hold 1 Take (console_after [Hold_Call 1 Take, Hold_Call 1 Release_Open, Print [[65]],
     Hold_Call 2 Take, Hold_Call 2 Release_Open, Print [[66]]])) = Inr False"
  by (simp add: console_after_def con_print_def hold_line_def con_hold_def hold_take_def hold_release_def con_flush_def
      hold_queued_def write_str_def write_fmt_sent console_new_def hold_new_def Let_def)

end
