(* ===== verification/Tlb.thy ===== *)
theory Tlb
  imports Sys_Range
begin

text \<open>
  What a page-table write leaves to flush and what each \<open>sfence.vma\<close> flushes (\<open>libs/paging/src/tlb.rs\<close>),
  against a reference reading of the privileged specification: which cached translations a record stands
  for and which a flush drops.
\<close>

section \<open>Records and flushes\<close>

record stale =
  st_asid :: "u64 option"
  st_page :: "u64 option"

datatype flush_op = FAll | FAsid u64 | FPage (f_page: u64) (f_asid: u64) | FGlobal u64

definition stale_flush :: "stale \<Rightarrow> flush_op" where
  "stale_flush s =
     (case (st_asid s, st_page s) of
        (Some asid, Some page) \<Rightarrow> FPage page asid
      | (Some asid, None) \<Rightarrow> FAsid asid
      | (None, Some page) \<Rightarrow> FGlobal page
      | (None, None) \<Rightarrow> FAll)"

definition same_page :: "u64 \<Rightarrow> u64 \<Rightarrow> bool" where
  "same_page a b \<longleftrightarrow> a div PAGE_SIZE = b div PAGE_SIZE"

fun covers :: "flush_op \<Rightarrow> stale \<Rightarrow> bool" where
  "covers FAll s \<longleftrightarrow> True"
| "covers (FAsid asid) s \<longleftrightarrow> st_asid s = Some asid"
| "covers (FPage page asid) s \<longleftrightarrow>
     st_asid s = Some asid \<and> (case st_page s of Some p \<Rightarrow> same_page p page | None \<Rightarrow> False)"
| "covers (FGlobal page) s \<longleftrightarrow> (case st_page s of Some p \<Rightarrow> same_page p page | None \<Rightarrow> False)"

section \<open>The log of unflushed writes\<close>

record unflushed =
  u_pending :: "stale option list"
  u_len :: nat

definition unflushed_new :: "nat \<Rightarrow> unflushed" where
  "unflushed_new n = \<lparr>u_pending = replicate n None, u_len = 0\<rparr>"

text \<open>\<open>Inl\<close> is the oldest record of a full log.\<close>

definition wrote :: "stale \<Rightarrow> unflushed \<Rightarrow> (stale option + unit) \<times> unflushed" where
  "wrote s u =
     (if Some s \<in> set (take (u_len u) (u_pending u)) then (Inr (), u)
      else if u_len u = length (u_pending u) then (Inl (u_pending u ! 0), u)
      else (Inr (), u\<lparr>u_pending := (u_pending u)[u_len u := Some s], u_len := u_len u + 1\<rparr>))"

text \<open>One record of the walk that keeps those the flush does not cover.\<close>

definition keep_record :: "flush_op \<Rightarrow> nat \<Rightarrow> stale option list \<times> nat \<Rightarrow> stale option list \<times> nat" where
  "keep_record f i acc =
     (case acc of (pending, kept) \<Rightarrow>
        if covers f (the (pending ! i)) then (pending, kept) else (pending[kept := pending ! i], kept + 1))"

definition flushed :: "flush_op \<Rightarrow> unflushed \<Rightarrow> unflushed" where
  "flushed f u =
     (case fold (keep_record f) [0..<u_len u] (u_pending u, 0) of (pending, kept) \<Rightarrow>
        u\<lparr>u_pending := take kept pending @ replicate (u_len u - kept) None @ drop (u_len u) pending, u_len := kept\<rparr>)"

definition u_first :: "unflushed \<Rightarrow> stale option" where
  "u_first u = u_pending u ! 0"

section \<open>The reference\<close>

text \<open>A cached translation: a leaf of an address space or a global one, by its page, or a table pointer.\<close>

datatype cached = Leaf u64 u64 | Global_Leaf u64 | Pointer u64 | Global_Pointer

fun stands_for :: "stale \<Rightarrow> cached \<Rightarrow> bool" where
  "stands_for s (Leaf a p) \<longleftrightarrow> st_asid s = Some a \<and> (case st_page s of Some q \<Rightarrow> same_page q p | None \<Rightarrow> True)"
| "stands_for s (Global_Leaf p) \<longleftrightarrow> st_asid s = None \<and> (case st_page s of Some q \<Rightarrow> same_page q p | None \<Rightarrow> True)"
| "stands_for s (Pointer a) \<longleftrightarrow> st_asid s = Some a \<and> st_page s = None"
| "stands_for s Global_Pointer \<longleftrightarrow> st_asid s = None \<and> st_page s = None"

text \<open>\<open>SFENCE.VMA\<close>, by whether it names an address and an address space.\<close>

fun drops :: "flush_op \<Rightarrow> cached \<Rightarrow> bool" where
  "drops FAll c \<longleftrightarrow> True"
| "drops (FAsid a) c \<longleftrightarrow> (case c of Leaf b _ \<Rightarrow> b = a | Pointer b \<Rightarrow> b = a | _ \<Rightarrow> False)"
| "drops (FPage p a) c \<longleftrightarrow> (case c of Leaf b q \<Rightarrow> b = a \<and> same_page q p | _ \<Rightarrow> False)"
| "drops (FGlobal p) c \<longleftrightarrow> (case c of Leaf _ q \<Rightarrow> same_page q p | Global_Leaf q \<Rightarrow> same_page q p | _ \<Rightarrow> False)"

lemma same_page_refl [simp]: "same_page a a"
  by (simp add: same_page_def)

text \<open>
  C32: a flush covers a record exactly when it drops every translation the record stands for.
\<close>

theorem covers_exact: "covers f s \<longleftrightarrow> (\<forall>c. stands_for s c \<longrightarrow> drops f c)"
proof
  assume "covers f s"
  then show "\<forall>c. stands_for s c \<longrightarrow> drops f c"
  proof (intro allI impI)
    fix c assume "stands_for s c"
    with \<open>covers f s\<close> show "drops f c"
      by (cases f; cases c) (auto simp: same_page_def split: option.splits)
  qed
next
  assume all: "\<forall>c. stands_for s c \<longrightarrow> drops f c"
  have "stands_for s (case (st_asid s, st_page s) of
      (Some a, Some p) \<Rightarrow> Leaf a p | (Some a, None) \<Rightarrow> Pointer a | (None, Some p) \<Rightarrow> Global_Leaf p | (None, None) \<Rightarrow> Global_Pointer)"
    by (auto split: option.split)
  then have "drops f (case (st_asid s, st_page s) of
      (Some a, Some p) \<Rightarrow> Leaf a p | (Some a, None) \<Rightarrow> Pointer a | (None, Some p) \<Rightarrow> Global_Leaf p | (None, None) \<Rightarrow> Global_Pointer)"
    using all by blast
  then show "covers f s"
    by (cases f) (auto split: option.splits)
qed

theorem covers_exact_witness: "drops (FGlobal 8) (Leaf 3 20)"
proof -
  have "covers (FGlobal 8) \<lparr>st_asid = Some 3, st_page = Some 16\<rparr>"
    by (simp add: same_page_def PAGE_SIZE_def)
  moreover have "stands_for \<lparr>st_asid = Some 3, st_page = Some 16\<rparr> (Leaf 3 20)"
    by (simp add: same_page_def PAGE_SIZE_def)
  ultimately show ?thesis
    using covers_exact by blast
qed

text \<open>
  C33: the flush a record names covers it, and is the narrowest that does: any other that covers the record
  drops everything this one drops.
\<close>

theorem stale_flush_narrowest:
  "covers (stale_flush s) s \<and> (\<forall>f c. covers f s \<longrightarrow> drops (stale_flush s) c \<longrightarrow> drops f c)"
proof (intro conjI allI impI)
  show "covers (stale_flush s) s"
    by (simp add: stale_flush_def split: option.split)
  fix f c assume "covers f s" "drops (stale_flush s) c"
  then show "drops f c"
    by (cases f; cases c) (auto simp: stale_flush_def same_page_def split: option.splits)
qed

lemma sample_covered: "covers (FGlobal 8) \<lparr>st_asid = None, st_page = Some 16\<rparr>"
  by (simp add: same_page_def PAGE_SIZE_def)

lemma sample_dropped: "drops (stale_flush \<lparr>st_asid = None, st_page = Some 16\<rparr>) (Leaf 5 20)"
  by (simp add: stale_flush_def same_page_def PAGE_SIZE_def)

theorem stale_flush_narrowest_witness: "drops (FGlobal 8) (Leaf 5 20)"
  by (rule stale_flush_narrowest [THEN conjunct2, rule_format, OF sample_covered sample_dropped])

section \<open>The log is a list\<close>

definition log_of :: "unflushed \<Rightarrow> stale list" where
  "log_of u = map the (take (u_len u) (u_pending u))"

definition log_ok :: "unflushed \<Rightarrow> bool" where
  "log_ok u \<longleftrightarrow>
     u_len u \<le> length (u_pending u) \<and>
     u_pending u = map Some (log_of u) @ replicate (length (u_pending u) - u_len u) None"

lemma log_okI:
  "u_pending u = map Some xs @ replicate k None \<Longrightarrow> u_len u = length xs \<Longrightarrow> log_ok u \<and> log_of u = xs"
  by (simp add: log_ok_def log_of_def)

lemma log_okE:
  assumes "log_ok u"
  obtains k where "u_pending u = map Some (log_of u) @ replicate k None" "u_len u = length (log_of u)"
proof (rule that)
  show "u_pending u = map Some (log_of u) @ replicate (length (u_pending u) - u_len u) None"
    using assms unfolding log_ok_def by (rule conjunct2)
  have "u_len u \<le> length (u_pending u)"
    using assms unfolding log_ok_def by (rule conjunct1)
  then show "u_len u = length (log_of u)"
    by (simp add: log_of_def)
qed

lemma keep_records:
  assumes "length xs \<le> i" "length zs = i - length xs"
  shows "fold (keep_record f) [i..<i + length ys] (map Some xs @ zs @ map Some ys @ rest, length xs) =
    (let kept = xs @ filter (\<lambda>s. \<not> covers f s) ys
     in (map Some kept @ drop (length kept) (map Some xs @ zs @ map Some ys @ rest), length kept))"
  using assms
proof (induction ys arbitrary: i xs zs)
  case Nil
  then show ?case by simp
next
  case (Cons y ys)
  have i: "[i..<i + length (y # ys)] = i # [Suc i..<Suc i + length ys]"
    by (simp add: upt_rec)
  have at: "(map Some xs @ zs @ map Some (y # ys) @ rest) ! i = Some y"
    using Cons.prems by (simp add: nth_append)
  show ?case
  proof (cases "covers f y")
    case True
    have "keep_record f i (map Some xs @ zs @ map Some (y # ys) @ rest, length xs) =
        (map Some xs @ (zs @ [Some y]) @ map Some ys @ rest, length xs)"
      using True at by (simp add: keep_record_def)
    with Cons.IH [of xs "Suc i" "zs @ [Some y]"] Cons.prems True i show ?thesis
      by simp
  next
    case False
    define tl1 where "tl1 = tl (zs @ [Some y])"
    have cons: "zs @ [Some y] = hd (zs @ [Some y]) # tl1"
      unfolding tl1_def by (cases zs) simp_all
    have "keep_record f i (map Some xs @ zs @ map Some (y # ys) @ rest, length xs) =
        ((map Some xs @ (zs @ [Some y]) @ map Some ys @ rest)[length xs := Some y], Suc (length xs))"
      using False at by (simp add: keep_record_def)
    also have "(map Some xs @ (zs @ [Some y]) @ map Some ys @ rest)[length xs := Some y] =
        map Some (xs @ [y]) @ tl1 @ map Some ys @ rest"
      by (subst cons) (simp add: list_update_append)
    finally have step: "keep_record f i (map Some xs @ zs @ map Some (y # ys) @ rest, length xs) =
        (map Some (xs @ [y]) @ tl1 @ map Some ys @ rest, length (xs @ [y]))"
      by simp
    have "length tl1 = Suc i - length (xs @ [y])" "length (xs @ [y]) \<le> Suc i"
      using Cons.prems by (simp_all add: tl1_def)
    with Cons.IH [of "xs @ [y]" "Suc i" tl1] have
      "fold (keep_record f) [Suc i..<Suc i + length ys] (map Some (xs @ [y]) @ tl1 @ map Some ys @ rest, length (xs @ [y])) =
       (let kept = (xs @ [y]) @ filter (\<lambda>s. \<not> covers f s) ys
        in (map Some kept @ drop (length kept) (map Some (xs @ [y]) @ tl1 @ map Some ys @ rest), length kept))"
      by blast
    moreover have "drop (length ((xs @ [y]) @ ws)) (map Some (xs @ [y]) @ tl1 @ map Some ys @ rest) =
        drop (length ((xs @ [y]) @ ws)) (map Some xs @ (zs @ [Some y]) @ map Some ys @ rest)" for ws
      by (subst cons) simp
    ultimately show ?thesis
      using i step False by (simp add: Let_def)
  qed
qed

lemma flushed_log:
  assumes "log_ok u"
  shows "log_ok (flushed f u) \<and> log_of (flushed f u) = filter (\<lambda>s. \<not> covers f s) (log_of u)"
proof -
  obtain k where u: "u_pending u = map Some (log_of u) @ replicate k None" "u_len u = length (log_of u)"
    using log_okE [OF assms] .
  let ?kept = "filter (\<lambda>s. \<not> covers f s) (log_of u)"
  have le: "length ?kept \<le> length (log_of u)"
    by (rule length_filter_le)
  have "fold (keep_record f) [0..<length (log_of u)] (u_pending u, 0) =
      (map Some ?kept @ drop (length ?kept) (u_pending u), length ?kept)"
    using keep_records [of "[]" 0 "[]" f "log_of u" "replicate k None"] u(1) by (simp add: Let_def)
  moreover have "drop (length (log_of u)) (map Some ?kept @ drop (length ?kept) (u_pending u)) = replicate k None"
    using le by (subst u(1)) simp
  ultimately have "flushed f u =
      u\<lparr>u_pending := map Some ?kept @ replicate (length (log_of u) - length ?kept) None @ replicate k None,
        u_len := length ?kept\<rparr>"
    by (simp add: flushed_def u(2))
  then show ?thesis
    by (intro log_okI) (simp_all flip: replicate_add)
qed

lemma wrote_log:
  assumes "log_ok u" "wrote s u = (r, u')"
  shows "log_ok u' \<and>
    (if s \<in> set (log_of u) then r = Inr () \<and> u' = u
     else if length (log_of u) = length (u_pending u) then r = Inl (u_first u) \<and> u' = u
     else r = Inr () \<and> log_of u' = log_of u @ [s])"
proof -
  obtain k where u: "u_pending u = map Some (log_of u) @ replicate k None" "u_len u = length (log_of u)"
    using log_okE [OF assms(1)] .
  have k: "length (u_pending u) = length (log_of u) + k"
    by (subst u(1)) simp
  have taken: "take (u_len u) (u_pending u) = map Some (log_of u)"
    unfolding u(2) by (subst u(1)) simp
  then have mem: "Some s \<in> set (take (u_len u) (u_pending u)) \<longleftrightarrow> s \<in> set (log_of u)"
    by auto
  have w: "wrote s u =
      (if s \<in> set (log_of u) then (Inr (), u)
       else if k = 0 then (Inl (u_first u), u)
       else (Inr (), u\<lparr>u_pending := (u_pending u)[u_len u := Some s], u_len := u_len u + 1\<rparr>))"
    unfolding wrote_def mem u_first_def using k u(2) by simp
  show ?thesis
  proof (cases "s \<in> set (log_of u) \<or> k = 0")
    case True
    then show ?thesis
      using assms k unfolding w by (auto split: if_splits)
  next
    case False
    then obtain k' where k': "k = Suc k'"
      by (cases k) auto
    have "(u_pending u)[u_len u := Some s] = map Some (log_of u @ [s]) @ replicate k' None"
      unfolding u(2) by (subst u(1)) (simp add: k' list_update_append)
    moreover have "u' = u\<lparr>u_pending := (u_pending u)[u_len u := Some s], u_len := u_len u + 1\<rparr>" "r = Inr ()"
      using assms(2) False unfolding w by auto
    ultimately have "log_ok u' \<and> log_of u' = log_of u @ [s]"
      using u(2) by (intro log_okI) simp_all
    then show ?thesis
      using False k \<open>r = Inr ()\<close> by simp
  qed
qed

text \<open>
  C34: the log is the list of the writes not flushed yet, oldest first: a flush drops exactly the records it
  covers and keeps the rest in order, and a write is added last, once, or refused with the oldest record
  when the log is full.
\<close>

theorem log_refines_list:
  assumes "log_ok u"
  shows "log_of (flushed f u) = filter (\<lambda>s. \<not> covers f s) (log_of u) \<and> log_ok (flushed f u) \<and>
    log_ok (snd (wrote s u)) \<and>
    log_of (snd (wrote s u)) =
      (if s \<in> set (log_of u) \<or> length (log_of u) = length (u_pending u) then log_of u else log_of u @ [s]) \<and>
    fst (wrote s u) =
      (if s \<notin> set (log_of u) \<and> length (log_of u) = length (u_pending u) then Inl (u_first u) else Inr ())"
proof -
  obtain r u' where w: "wrote s u = (r, u')"
    by force
  show ?thesis
    using flushed_log [OF assms, of f] wrote_log [OF assms w] w by (auto split: if_splits)
qed

theorem log_refines_list_witness:
  "log_of (flushed (FAsid 5) (snd (wrote \<lparr>st_asid = Some 6, st_page = None\<rparr>
     (snd (wrote \<lparr>st_asid = Some 5, st_page = Some 4096\<rparr> (unflushed_new 4)))))) = [\<lparr>st_asid = Some 6, st_page = None\<rparr>]"
proof -
  let ?a = "\<lparr>st_asid = Some 5, st_page = Some 4096\<rparr>" and ?b = "\<lparr>st_asid = Some 6, st_page = None\<rparr>"
  have u0: "log_ok (unflushed_new 4)" "log_of (unflushed_new 4) = []" "length (u_pending (unflushed_new 4)) = 4"
    by (simp_all add: log_ok_def log_of_def unflushed_new_def)
  note u1 = log_refines_list [OF u0(1), of FAll ?a]
  have n: "length (u_pending (snd (wrote ?a (unflushed_new 4)))) = 4"
    by (simp add: wrote_def unflushed_new_def)
  note u2 = log_refines_list [of "snd (wrote ?a (unflushed_new 4))" FAll ?b]
  show ?thesis
    using log_refines_list [of "snd (wrote ?b (snd (wrote ?a (unflushed_new 4))))" "FAsid 5" ?a] u0 u1 u2 n by simp
qed

end
