(* ===== verification/Runs.thy ===== *)
theory Runs
  imports Prelude
begin

text \<open>
  A placement area's free runs (\<open>libs/runs/src/lib.rs\<close>): a bit a page, set while the page is free, and for
  each group of 512 pages a record of the free run at its start, the one at its end and its longest.  The
  store is a record; its words and groups are lists.
\<close>

unbundle bit_operations_syntax

section \<open>Words of bits\<close>

definition GROUP_PAGES :: nat where "GROUP_PAGES = 512"
definition WORD :: nat where "WORD = 64"
definition GROUP_WORDS :: nat where "GROUP_WORDS = GROUP_PAGES div WORD"

text \<open>\<open>u64::trailing_ones\<close>, \<open>leading_ones\<close>, \<open>trailing_zeros\<close> and \<open>count_ones\<close>.\<close>

definition trailing_ones :: "u64 \<Rightarrow> nat" where
  "trailing_ones x = length (takeWhile (bit x) [0..<WORD])"

definition leading_ones :: "u64 \<Rightarrow> nat" where
  "leading_ones x = length (takeWhile (bit x) (rev [0..<WORD]))"

definition trailing_zeros :: "u64 \<Rightarrow> nat" where
  "trailing_zeros x = length (takeWhile (\<lambda>i. \<not> bit x i) [0..<WORD])"

definition count_ones :: "u64 \<Rightarrow> nat" where
  "count_ones x = length (filter (bit x) [0..<WORD])"

function starts_from :: "nat \<Rightarrow> u64 \<Rightarrow> nat \<Rightarrow> u64" where
  "starts_from len y have_n =
     (if 0 < have_n \<and> have_n < len then
        let by_n = min have_n (len - have_n) in starts_from len (y AND drop_bit by_n y) (have_n + by_n)
      else y)"
  by pat_completeness auto
termination
  by (relation "measure (\<lambda>(len, y, have_n). len - have_n)") auto

definition starts :: "u64 \<Rightarrow> nat \<Rightarrow> u64" where
  "starts x len = starts_from len x 1"

text \<open>
  The run doubled while one is that long: the bits where a run of the length reached starts, and the
  length.  A word not all set has no run of 64, so 7 doublings end it.
\<close>

fun double_run :: "nat \<Rightarrow> u64 \<Rightarrow> nat \<Rightarrow> u64 \<times> nat" where
  "double_run 0 y have_n = (y, have_n)"
| "double_run (Suc k) y have_n =
     (let z = y AND drop_bit have_n y in if z = 0 then (y, have_n) else double_run k z (have_n * 2))"

function halve_run :: "u64 \<Rightarrow> nat \<Rightarrow> nat \<Rightarrow> nat" where
  "halve_run y have_n step =
     (if step > 0 then
        let z = y AND drop_bit step y
        in if z \<noteq> 0 then halve_run z (have_n + step) (step div 2) else halve_run y have_n (step div 2)
      else have_n)"
  by pat_completeness auto
termination
  by (relation "measure (\<lambda>(y, have_n, step). step)") auto

definition longest :: "u64 \<Rightarrow> nat" where
  "longest x = (if x = 0 then 0 else case double_run 7 x 1 of (y, have_n) \<Rightarrow> halve_run y have_n (have_n div 2))"

section \<open>Records and the store\<close>

record group =
  g_head :: u16
  g_tail :: u16
  g_longest :: u16

definition group_encode :: "group \<Rightarrow> u64" where
  "group_encode g = ucast (g_head g) OR push_bit 16 (ucast (g_tail g)) OR push_bit 32 (ucast (g_longest g))"

definition group_decode :: "u64 \<Rightarrow> group" where
  "group_decode w = \<lparr>g_head = ucast w, g_tail = ucast (drop_bit 16 w), g_longest = ucast (drop_bit 32 w)\<rparr>"

record run =
  r_start :: nat
  r_pages :: nat

record area =
  a_words :: "u64 list"
  a_groups :: "group list"
  a_pending :: "nat option"

definition pages :: "area \<Rightarrow> nat" where
  "pages a = length (a_words a) * WORD"

definition groups :: "area \<Rightarrow> nat" where
  "groups a = length (a_words a) div GROUP_WORDS"

definition most_reads :: "area \<Rightarrow> nat" where
  "most_reads a = GROUP_WORDS + 2 * (groups a + 2 * GROUP_WORDS)"

definition clear_area :: "area \<Rightarrow> area" where
  "clear_area a =
     (let whole = of_nat GROUP_PAGES
      in a\<lparr>a_words := replicate (length (a_words a)) (- 1),
           a_groups := replicate (groups a) \<lparr>g_head = whole, g_tail = whole, g_longest = whole\<rparr> @ drop (groups a) (a_groups a),
           a_pending := None\<rparr>)"

definition free_pages :: "area \<Rightarrow> nat" where
  "free_pages a = sum_list (map count_ones (a_words a))"

definition is_free :: "area \<Rightarrow> nat \<Rightarrow> bool" where
  "is_free a page \<longleftrightarrow> drop_bit (page mod WORD) (a_words a ! (page div WORD)) AND 1 = 1"

text \<open>The record of a group, from its words: the head if a word ended it, the run so far, the longest run.\<close>

fun record_words :: "u64 list \<Rightarrow> nat option \<Rightarrow> nat \<Rightarrow> nat \<Rightarrow> nat option \<times> nat \<times> nat" where
  "record_words [] hd_n run most = (hd_n, run, most)"
| "record_words (x # xs) hd_n run most =
     (if x = - 1 then record_words xs hd_n (run + WORD) most
      else let run = run + trailing_ones x
           in record_words xs (case hd_n of None \<Rightarrow> Some run | Some h \<Rightarrow> Some h) (leading_ones x)
                (max (max most run) (longest x)))"

definition group_words :: "area \<Rightarrow> nat \<Rightarrow> u64 list" where
  "group_words a g = map (\<lambda>i. a_words a ! i) [g * GROUP_WORDS..<(g + 1) * GROUP_WORDS]"

definition record_of :: "u64 list \<Rightarrow> group" where
  "record_of xs =
     (case record_words xs None 0 0 of (hd_n, run, most) \<Rightarrow>
        \<lparr>g_head = of_nat (case hd_n of None \<Rightarrow> GROUP_PAGES | Some h \<Rightarrow> h), g_tail = of_nat run,
         g_longest = of_nat (max most run)\<rparr>)"

definition record_group :: "area \<Rightarrow> nat \<Rightarrow> group" where
  "record_group a g = record_of (group_words a g)"

definition settle :: "area \<Rightarrow> nat \<times> area" where
  "settle a =
     (case a_pending a of
        None \<Rightarrow> (0, a)
      | Some g \<Rightarrow> (GROUP_WORDS, a\<lparr>a_groups := (a_groups a)[g := record_group a g], a_pending := None\<rparr>))"

definition set_page :: "nat \<Rightarrow> bool \<Rightarrow> area \<Rightarrow> area" where
  "set_page page free a =
     (let index = page div WORD; word = a_words a ! index; b = push_bit (page mod WORD) 1;
          new = (if free then word OR b else word AND NOT b)
      in if new = word then a
         else let a = a\<lparr>a_words := (a_words a)[index := new]\<rparr>; g = page div GROUP_PAGES
              in if a_pending a = Some g then a else (snd (settle a))\<lparr>a_pending := Some g\<rparr>)"

definition records_hold :: "area \<Rightarrow> bool" where
  "records_hold a \<longleftrightarrow> list_all (\<lambda>g. a_pending a = Some g \<or> a_groups a ! g = record_group a g) [0..<groups a]"

section \<open>The search\<close>

text \<open>
  The scan of the words from \<open>word\<close> to the group's end: what it found, the run reaching the group's end
  and the words read.
\<close>

function scan_words :: "area \<Rightarrow> nat \<Rightarrow> nat \<Rightarrow> u64 \<Rightarrow> nat \<Rightarrow> run \<Rightarrow> nat \<Rightarrow> nat option \<times> run \<times> nat" where
  "scan_words a end_n word x len run reads =
     (let reads = reads + 1; at = word * WORD;
          run = (if r_pages run = 0 then run\<lparr>r_start := at\<rparr> else run)
      in if r_pages run + trailing_ones x \<ge> len then (Some (r_start run), run, reads)
         else if x \<noteq> - 1 \<and> len \<le> WORD \<and> starts x len \<noteq> 0 then
           (Some (at + trailing_zeros (starts x len)), run, reads)
         else let run = (if x = - 1 then run\<lparr>r_pages := r_pages run + WORD\<rparr>
                         else \<lparr>r_start = at + WORD - leading_ones x, r_pages = leading_ones x\<rparr>);
                  word = word + 1
              in if word * WORD \<ge> end_n then (None, run, reads)
                 else scan_words a end_n word (a_words a ! word) len run reads)"
  by pat_completeness auto
termination
  by (relation "measure (\<lambda>(a, end_n, word, x, len, run, reads). end_n - word * WORD)") (auto simp: WORD_def)

definition scan :: "area \<Rightarrow> nat \<Rightarrow> nat \<Rightarrow> run \<Rightarrow> nat \<Rightarrow> nat option \<times> run \<times> nat" where
  "scan a from_n len run reads =
     (let end_n = (from_n div GROUP_PAGES + 1) * GROUP_PAGES; word = from_n div WORD
      in scan_words a end_n word (a_words a ! word AND push_bit (from_n mod WORD) (- 1)) len run reads)"

function fit_groups :: "area \<Rightarrow> nat \<Rightarrow> nat \<Rightarrow> run \<Rightarrow> nat \<Rightarrow> nat option \<times> nat" where
  "fit_groups a g len run reads =
     (if g < groups a then
        let rec = a_groups a ! g; reads = reads + 1; at = g * GROUP_PAGES;
            run = (if r_pages run = 0 then run\<lparr>r_start := at\<rparr> else run);
            hd_n = unat (g_head rec); tl_n = unat (g_tail rec)
        in if r_pages run + hd_n \<ge> len then (Some (r_start run), reads)
           else if hd_n = GROUP_PAGES then
             fit_groups a (g + 1) len (run\<lparr>r_pages := r_pages run + GROUP_PAGES\<rparr>) reads
           else if unat (g_longest rec) \<ge> len then
             (case scan a at len \<lparr>r_start = at, r_pages = 0\<rparr> reads of (found, _, reads) \<Rightarrow> (found, reads))
           else fit_groups a (g + 1) len \<lparr>r_start = at + GROUP_PAGES - tl_n, r_pages = tl_n\<rparr> reads
      else (None, reads))"
  by pat_completeness auto
termination
  by (relation "measure (\<lambda>(a, g, len, run, reads). groups a - g)") auto

definition first_fit :: "area \<Rightarrow> nat \<Rightarrow> nat \<Rightarrow> nat \<Rightarrow> nat option \<times> nat" where
  "first_fit a from_n len reads =
     (let run = \<lparr>r_start = from_n, r_pages = 0\<rparr>; g = from_n div GROUP_PAGES
      in if from_n mod GROUP_PAGES \<noteq> 0 then
           case scan a from_n len run reads of
             (Some at, _, reads) \<Rightarrow> (Some at, reads)
           | (None, run, reads) \<Rightarrow> fit_groups a (g + 1) len run reads
         else fit_groups a g len run reads)"

definition place :: "nat \<Rightarrow> nat \<Rightarrow> nat \<Rightarrow> area \<Rightarrow> nat option \<times> nat \<times> area" where
  "place lst len reads a =
     (case settle a of (n, a) \<Rightarrow>
        let reads = reads + n
        in if len = 0 \<or> pages a < len then (None, reads, a)
           else let first = min lst (pages a - len)
                in case first_fit a first len reads of
                     (Some at, reads) \<Rightarrow> (Some at, reads, a)
                   | (None, reads) \<Rightarrow> (case first_fit a 0 len reads of (r, reads) \<Rightarrow> (r, reads, a)))"

end
