(* ===== verification/Runs_Bits.thy ===== *)
theory Runs_Bits
  imports Runs
begin

text \<open>
  The word operations of the search: what the counts of ones say of a word's bits, and that the doubling
  searches find the runs of a length and the longest run.
\<close>

declare starts_from.simps [simp del] halve_run.simps [simp del]

section \<open>Runs of a predicate\<close>

definition run_at :: "(nat \<Rightarrow> bool) \<Rightarrow> nat \<Rightarrow> nat \<Rightarrow> bool" where
  "run_at P s n \<longleftrightarrow> (\<forall>i<n. P (s + i))"

lemma run_at_0 [simp]: "run_at P s 0"
  by (simp add: run_at_def)

lemma run_at_1 [simp]: "run_at P s (Suc 0) \<longleftrightarrow> P s"
  by (simp add: run_at_def)

lemma run_at_mono: "run_at P s n \<Longrightarrow> m \<le> n \<Longrightarrow> run_at P s m"
  by (simp add: run_at_def)

lemma run_at_sub: "run_at P s n \<Longrightarrow> s \<le> t \<Longrightarrow> t + m \<le> s + n \<Longrightarrow> run_at P t m"
  unfolding run_at_def
proof (intro allI impI)
  fix i assume a: "\<forall>i<n. P (s + i)" "s \<le> t" "t + m \<le> s + n" "i < m"
  then have "t - s + i < n" "s + (t - s + i) = t + i"
    by arith+
  with a(1) show "P (t + i)"
    by metis
qed

lemma run_at_D: "run_at P s n \<Longrightarrow> s \<le> x \<Longrightarrow> x < s + n \<Longrightarrow> P x"
  using run_at_sub [of P s n x "Suc 0"] by simp

lemma run_at_join:
  assumes "run_at P s n" "run_at P t m" "s \<le> t" "t \<le> s + n"
  shows "run_at P s (t + m - s)"
  unfolding run_at_def
proof (intro allI impI)
  fix i assume i: "i < t + m - s"
  show "P (s + i)"
  proof (cases "i < n")
    case True
    with assms(1) show ?thesis by (simp add: run_at_def)
  next
    case False
    with i assms(3,4) have "s + i - t < m" "t + (s + i - t) = s + i"
      by arith+
    with assms(2) show ?thesis
      unfolding run_at_def by metis
  qed
qed

text \<open>Two runs of a length, one \<open>k\<close> after the other, are a run of that length and \<open>k\<close> more.\<close>

lemma run_at_add: "k \<le> n \<Longrightarrow> run_at P s n \<and> run_at P (s + k) n \<longleftrightarrow> run_at P s (n + k)"
proof
  assume "k \<le> n" "run_at P s n \<and> run_at P (s + k) n"
  then show "run_at P s (n + k)"
    using run_at_join [of P s n "s + k" n] by (simp add: add.commute)
next
  assume "k \<le> n" "run_at P s (n + k)"
  then show "run_at P s n \<and> run_at P (s + k) n"
    by (auto intro: run_at_mono run_at_sub)
qed

section \<open>Counts of ones\<close>

lemma bit_range: "bit x i \<Longrightarrow> i < 64" for x :: u64
  using bit_imp_le_length by fastforce

lemma all_ones: "x = - 1 \<longleftrightarrow> run_at (bit x) 0 64" for x :: u64
proof
  assume "x = - 1"
  then show "run_at (bit x) 0 64"
    by (simp add: run_at_def)
next
  assume r: "run_at (bit x) 0 64"
  show "x = - 1"
    by (rule bit_word_eqI) (use r in \<open>simp add: run_at_def\<close>)
qed

lemma length_takeWhile_run:
  "run_at P 0 (length (takeWhile P [0..<n])) \<and> length (takeWhile P [0..<n]) \<le> n \<and>
   (length (takeWhile P [0..<n]) < n \<longrightarrow> \<not> P (length (takeWhile P [0..<n])))"
proof -
  let ?k = "length (takeWhile P [0..<n])"
  have k: "?k \<le> n"
    using length_takeWhile_le [of P "[0..<n]"] by simp
  have "P i" if "i < ?k" for i
  proof -
    have "takeWhile P [0..<n] ! i = [0..<n] ! i"
      using that by (rule takeWhile_nth)
    then have "takeWhile P [0..<n] ! i = i"
      using that k by simp
    then show ?thesis
      using that nth_mem [OF that] set_takeWhileD by metis
  qed
  moreover have "\<not> P ?k" if "?k < n"
    using that nth_length_takeWhile [of P "[0..<n]"] by simp
  ultimately show ?thesis
    using k by (simp add: run_at_def)
qed

lemma trailing_ones:
  "run_at (bit x) 0 (trailing_ones x)" "trailing_ones x \<le> 64" "trailing_ones x < 64 \<Longrightarrow> \<not> bit x (trailing_ones x)"
  using length_takeWhile_run [of "bit x" 64] by (auto simp: trailing_ones_def WORD_def)

lemma trailing_ones_lt: "x \<noteq> - 1 \<Longrightarrow> trailing_ones x < 64"
  using trailing_ones [of x] all_ones [of x] by (cases "trailing_ones x = 64") auto

lemma trailing_ones_full: "trailing_ones (- 1) = 64"
  using trailing_ones(2,3) [of "- 1"] by (cases "trailing_ones (- 1) < 64") (auto simp: bit_minus_1_iff)

lemma trailing_zeros:
  "x \<noteq> 0 \<Longrightarrow> bit x (trailing_zeros x)" "i < trailing_zeros x \<Longrightarrow> \<not> bit x i"
proof -
  let ?k = "length (takeWhile (\<lambda>i. \<not> bit x i) [0..<64])"
  note k = length_takeWhile_run [of "\<lambda>i. \<not> bit x i" 64]
  have eq: "trailing_zeros x = ?k"
    by (simp add: trailing_zeros_def WORD_def)
  show "i < trailing_zeros x \<Longrightarrow> \<not> bit x i"
    using k unfolding eq by (auto simp: run_at_def)
  show "bit x (trailing_zeros x)" if "x \<noteq> 0"
  proof (rule ccontr)
    assume "\<not> bit x (trailing_zeros x)"
    then have "?k = 64"
      using k unfolding eq by (metis order_le_imp_less_or_eq)
    then have "\<not> bit x i" for i
      using k bit_range [of x i] by (auto simp: run_at_def)
    then have "x = 0"
      by (intro bit_word_eqI) simp
    with that show False ..
  qed
qed

lemma leading_ones:
  "run_at (bit x) (64 - leading_ones x) (leading_ones x)" "leading_ones x \<le> 64"
  "leading_ones x < 64 \<Longrightarrow> \<not> bit x (63 - leading_ones x)"
proof -
  let ?P = "\<lambda>i. bit x (63 - i)"
  have rev: "rev [0..<64] = map (\<lambda>i. 63 - i) [0..<64]"
    by (rule nth_equalityI) (simp_all add: rev_nth)
  have eq: "leading_ones x = length (takeWhile ?P [0..<64])"
    unfolding leading_ones_def WORD_def rev by (simp add: takeWhile_map comp_def)
  note k = length_takeWhile_run [of ?P 64, folded eq]
  show le: "leading_ones x \<le> 64"
    using k by simp
  show "leading_ones x < 64 \<Longrightarrow> \<not> bit x (63 - leading_ones x)"
    using k by simp
  show "run_at (bit x) (64 - leading_ones x) (leading_ones x)"
    unfolding run_at_def
  proof (intro allI impI)
    fix i assume i: "i < leading_ones x"
    then have "leading_ones x - 1 - i < leading_ones x"
      by simp
    then have "?P (leading_ones x - 1 - i)"
      using k unfolding run_at_def by (metis add_0)
    moreover have "63 - (leading_ones x - 1 - i) = 64 - leading_ones x + i"
      using i le by arith
    ultimately show "bit x (64 - leading_ones x + i)"
      by metis
  qed
qed

lemma leading_ones_lt: "x \<noteq> - 1 \<Longrightarrow> leading_ones x < 64"
  using leading_ones [of x] all_ones [of x] by (cases "leading_ones x = 64") auto

section \<open>Runs in a word\<close>

text \<open>The bits of \<open>y\<close> are where a run of \<open>n\<close> set bits of \<open>x\<close> starts.\<close>

definition marks_runs :: "u64 \<Rightarrow> nat \<Rightarrow> u64 \<Rightarrow> bool" where
  "marks_runs x n y \<longleftrightarrow> (\<forall>i. bit y i \<longleftrightarrow> run_at (bit x) i n)"

lemma marks_runs_one: "marks_runs x 1 x"
  by (simp add: marks_runs_def)

lemma marks_runs_step: "marks_runs x n y \<Longrightarrow> k \<le> n \<Longrightarrow> marks_runs x (n + k) (y AND drop_bit k y)"
  using run_at_add [of k n "bit x"] by (simp add: marks_runs_def bit_and_iff bit_drop_bit_eq add.commute [of k])

lemma marks_runs_zero: "marks_runs x n y \<Longrightarrow> y = 0 \<longleftrightarrow> (\<forall>i. \<not> run_at (bit x) i n)"
  by (auto simp: marks_runs_def intro: bit_word_eqI)

lemma starts_from_marks:
  "marks_runs x have_n y \<Longrightarrow> 0 < have_n \<Longrightarrow> have_n \<le> len \<Longrightarrow> marks_runs x len (starts_from len y have_n)"
proof (induction len y have_n rule: starts_from.induct)
  case (1 len y have_n)
  show ?case
  proof (cases "have_n < len")
    case False
    with 1 show ?thesis by (subst starts_from.simps) simp
  next
    case True
    let ?by = "min have_n (len - have_n)"
    have "marks_runs x len (starts_from len (y AND drop_bit ?by y) (have_n + ?by))"
      using 1 True marks_runs_step [OF 1(2), of ?by] by (intro 1(1)) auto
    with True 1 show ?thesis
      by (subst starts_from.simps) (simp add: Let_def)
  qed
qed

lemma starts_marks: "0 < len \<Longrightarrow> marks_runs x len (starts x len)"
  using starts_from_marks [OF marks_runs_one] by (simp add: starts_def)

lemma run_in_word: "0 < n \<Longrightarrow> run_at (bit x) i n \<Longrightarrow> i + n \<le> 64" for x :: u64
proof -
  assume n: "0 < n" and "run_at (bit x) i n"
  then have "bit x (i + (n - 1))"
    unfolding run_at_def by (metis diff_less zero_less_one)
  from bit_range [OF this] n show ?thesis
    by simp
qed

definition longest_run :: "u64 \<Rightarrow> nat \<Rightarrow> bool" where
  "longest_run x n \<longleftrightarrow> (\<forall>m. (\<exists>i. run_at (bit x) i m) \<longleftrightarrow> m \<le> n)"

lemma longest_runI: "run_at (bit x) i n \<Longrightarrow> \<forall>i. \<not> run_at (bit x) i (Suc n) \<Longrightarrow> longest_run x n"
  unfolding longest_run_def
proof (intro allI iffI)
  fix m assume a: "\<forall>i. \<not> run_at (bit x) i (Suc n)" "\<exists>j. run_at (bit x) j m"
  show "m \<le> n"
  proof (rule ccontr)
    assume "\<not> m \<le> n"
    then have "Suc n \<le> m" by simp
    with a show False using run_at_mono by blast
  qed
next
  fix m assume "run_at (bit x) i n" "m \<le> n"
  then show "\<exists>j. run_at (bit x) j m"
    using run_at_mono by blast
qed

lemma double_run:
  assumes "marks_runs x (2 ^ j) y" "y \<noteq> 0" "2 ^ (j + k) > (63 :: nat)" "x \<noteq> - 1"
  shows "case double_run k y (2 ^ j) of (z, n) \<Rightarrow>
    (\<exists>i. n = 2 ^ i) \<and> marks_runs x n z \<and> z \<noteq> 0 \<and> (\<forall>s. \<not> run_at (bit x) s (n + n))"
  using assms
proof (induction k arbitrary: j y)
  case 0
  obtain s where "run_at (bit x) s (2 ^ j)"
    using 0 marks_runs_zero by blast
  moreover have "(2 :: nat) ^ j \<ge> 64"
    using 0 by simp
  ultimately have r: "run_at (bit x) s 64"
    by (rule run_at_mono)
  then have "s = 0"
    using run_in_word [OF _ r] by simp
  with r have "x = - 1"
    by (simp add: all_ones)
  with 0 show ?case by simp
next
  case (Suc k)
  let ?z = "y AND drop_bit (2 ^ j) y"
  have m: "marks_runs x (2 ^ j + 2 ^ j) ?z"
    using Suc.prems(1) by (rule marks_runs_step) simp
  show ?case
  proof (cases "?z = 0")
    case True
    then have "\<forall>s. \<not> run_at (bit x) s (2 ^ j + 2 ^ j)"
      using m marks_runs_zero by blast
    with True Suc.prems(1,2) show ?thesis
      by auto
  next
    case False
    have "marks_runs x (2 ^ Suc j) ?z"
      using m by (simp add: mult_2)
    from Suc.IH [OF this False] Suc.prems(3,4) False show ?thesis
      by (simp add: Let_def mult.commute)
  qed
qed

definition halving :: "u64 \<Rightarrow> nat \<Rightarrow> nat \<Rightarrow> bool" where
  "halving x n st \<longleftrightarrow>
     st = 0 \<and> (\<forall>s. \<not> run_at (bit x) s (Suc n)) \<or>
     0 < st \<and> st \<le> n \<and> (\<exists>k. st = 2 ^ k) \<and> (\<forall>s. \<not> run_at (bit x) s (n + st + st))"

lemma halving_half:
  assumes "0 < st" "st = 2 ^ k" "st \<le> n" "\<forall>s. \<not> run_at (bit x) s (n + st)"
  shows "halving x n (st div 2)"
proof (cases k)
  case 0
  with assms show ?thesis by (simp add: halving_def)
next
  case (Suc j)
  with assms have "st div 2 = 2 ^ j" "st div 2 \<le> n" "n + st div 2 + st div 2 = n + st"
    by auto
  moreover have "0 < st div 2"
    using calculation(1) by simp
  ultimately show ?thesis
    using assms(4) unfolding halving_def by metis
qed

lemma halve_run:
  assumes "marks_runs x n y" "y \<noteq> 0" "halving x n st"
  shows "longest_run x (halve_run y n st)"
  using assms
proof (induction y n st rule: halve_run.induct)
  case (1 y n st)
  show ?case
  proof (cases "st = 0")
    case True
    then have "\<forall>s. \<not> run_at (bit x) s (Suc n)"
      using 1(5) by (simp add: halving_def)
    moreover obtain i where "run_at (bit x) i n"
      using 1(3,4) marks_runs_zero by blast
    ultimately show ?thesis
      using True longest_runI by (subst halve_run.simps) simp
  next
    case False
    then obtain k where st: "0 < st" "st \<le> n" "st = 2 ^ k" and none: "\<forall>s. \<not> run_at (bit x) s (n + st + st)"
      using 1(5) by (auto simp: halving_def)
    let ?z = "y AND drop_bit st y"
    have m: "marks_runs x (n + st) ?z"
      using 1(3) st(2) by (rule marks_runs_step)
    show ?thesis
    proof (cases "?z = 0")
      case True
      then have "\<forall>s. \<not> run_at (bit x) s (n + st)"
        using m marks_runs_zero by blast
      then have "halving x n (st div 2)"
        using st by (intro halving_half)
      with 1(2) [OF st(1) refl] True 1(3,4) have "longest_run x (halve_run y n (st div 2))"
        by blast
      with True False show ?thesis
        by (subst halve_run.simps) simp
    next
      case nz: False
      have "halving x (n + st) (st div 2)"
        using st none by (intro halving_half) auto
      with 1(1) [OF st(1) refl] nz m have "longest_run x (halve_run ?z (n + st) (st div 2))"
        by blast
      with nz False show ?thesis
        by (subst halve_run.simps) simp
    qed
  qed
qed

text \<open>The doubling and the halving find the longest run of a word that is not all set.\<close>

lemma longest:
  assumes "x \<noteq> - 1"
  shows "longest_run x (longest x)"
proof (cases "x = 0")
  case True
  then show ?thesis
    by (auto simp: longest_def longest_run_def run_at_def)
next
  case False
  obtain z n where d: "double_run 7 x 1 = (z, n)"
    by force
  have one: "marks_runs x (2 ^ 0) x"
    using marks_runs_one by simp
  from double_run [OF one False, of 7] assms d
  obtain i where n: "n = 2 ^ i" "marks_runs x n z" "z \<noteq> 0" "\<forall>s. \<not> run_at (bit x) s (n + n)"
    by auto
  then have "halving x n (n div 2)"
    using halving_half [of n i n x] by simp
  with n have "longest_run x (halve_run z n (n div 2))"
    by (intro halve_run)
  with False d show ?thesis
    by (simp add: longest_def)
qed

lemma longest_iff: "x \<noteq> - 1 \<Longrightarrow> (\<exists>i. run_at (bit x) i m) \<longleftrightarrow> m \<le> longest x"
  using longest by (simp add: longest_run_def)

end
