(* ===== verification/Runs_Search.thy ===== *)
theory Runs_Search
  imports Runs_Bits
begin

text \<open>
  The search for the first run of a length, block by block: a block of pages is a word, or a group with its
  record.  The search carries the free run that reaches the block, and has passed no run that fits.
\<close>

declare scan_words.simps [simp del] fit_groups.simps [simp del]

section \<open>Passing a block\<close>

definition first_at :: "(nat \<Rightarrow> bool) \<Rightarrow> nat \<Rightarrow> nat \<Rightarrow> bool" where
  "first_at G len s \<longleftrightarrow> run_at G s len \<and> (\<forall>t < s. \<not> run_at G t len)"

lemma first_at_unique: "first_at G len s \<Longrightarrow> first_at G len t \<Longrightarrow> s = t"
  unfolding first_at_def by (metis nat_neq_iff)

text \<open>The search has reached page \<open>p\<close>, with the free run \<open>run\<close> ending there.\<close>

definition reached :: "(nat \<Rightarrow> bool) \<Rightarrow> nat \<Rightarrow> nat \<Rightarrow> run \<Rightarrow> bool" where
  "reached G len p run \<longleftrightarrow>
     r_pages run \<le> p \<and> r_pages run < len \<and> run_at G (p - r_pages run) (r_pages run) \<and>
     (\<forall>s<p - r_pages run. \<not> run_at G s len) \<and> (0 < r_pages run \<longrightarrow> r_start run = p - r_pages run)"

lemma reached_found:
  assumes "reached G len p run" "run_at G p h" "len \<le> r_pages run + h"
  shows "first_at G len (p - r_pages run)"
proof -
  have "run_at G (p - r_pages run) (p + h - (p - r_pages run))"
    using assms by (intro run_at_join [of G _ "r_pages run"]) (auto simp: reached_def)
  then have "run_at G (p - r_pages run) len"
    by (rule run_at_mono) (use assms in \<open>auto simp: reached_def\<close>)
  with assms(1) show ?thesis
    by (simp add: reached_def first_at_def)
qed

lemma reached_full:
  assumes "reached G len p run" "run_at G p n" "r_pages run + n < len" "r_start run' = p - r_pages run"
    "r_pages run' = r_pages run + n"
  shows "reached G len (p + n) run'"
proof -
  have "run_at G (p - r_pages run) (p + n - (p - r_pages run))"
    using assms by (intro run_at_join [of G _ "r_pages run"]) (auto simp: reached_def)
  moreover have "p + n - (r_pages run + n) = p - r_pages run" "p + n - (p - r_pages run) = r_pages run + n"
    using assms(1) by (auto simp: reached_def)
  ultimately show ?thesis
    using assms by (simp add: reached_def)
qed

lemma reached_blocked:
  assumes "reached G len p run" "\<not> G (p + h)" "r_pages run + h < len" "s \<le> p + h"
  shows "\<not> run_at G s len"
proof (cases "s < p - r_pages run")
  case True
  with assms(1) show ?thesis by (simp add: reached_def)
next
  case False
  then have "p + h < s + len"
    using assms(1,3) by (auto simp: reached_def)
  with assms(2,4) show ?thesis
    using run_at_D by blast
qed

lemma reached_block:
  assumes "reached G len p run" "h < n" "\<not> G (p + h)" "r_pages run + h < len"
    "l < n" "run_at G (p + n - l) l" "\<not> G (p + n - l - 1)"
    and none: "\<And>s. p \<le> s \<Longrightarrow> s + len \<le> p + n \<Longrightarrow> \<not> run_at G s len"
  shows "reached G len (p + n) \<lparr>r_start = p + n - l, r_pages = l\<rparr>"
proof -
  have "l < len"
  proof (rule ccontr)
    assume "\<not> l < len"
    then have "run_at G (p + n - l) len"
      using assms(6) run_at_mono by simp
    moreover have "p \<le> p + n - l" "p + n - l + len \<le> p + n"
      using assms(5) \<open>\<not> l < len\<close> by arith+
    ultimately show False
      using none by blast
  qed
  moreover have "\<not> run_at G s len" if "s < p + n - l" for s
  proof (cases "s \<le> p + h")
    case True
    then show ?thesis
      using reached_blocked [OF assms(1,3,4)] by blast
  next
    case False
    show ?thesis
    proof (cases "s + len \<le> p + n")
      case True
      with False none [of s] show ?thesis by simp
    next
      case over: False
      then have "s \<le> p + n - l - 1" "p + n - l - 1 < s + len"
        using that by auto
      with assms(7) show ?thesis
        using run_at_D by blast
    qed
  qed
  ultimately show ?thesis
    using assms(5,6) by (simp add: reached_def)
qed

section \<open>A word\<close>

definition word_at :: "(nat \<Rightarrow> bool) \<Rightarrow> nat \<Rightarrow> u64 \<Rightarrow> bool" where
  "word_at G p x \<longleftrightarrow> (\<forall>i<64. G (p + i) \<longleftrightarrow> bit x i)"

lemma word_at_run: "word_at G p x \<Longrightarrow> i + m \<le> 64 \<Longrightarrow> run_at G (p + i) m \<longleftrightarrow> run_at (bit x) i m"
  by (auto simp: word_at_def run_at_def add.assoc)

lemma word_trailing:
  assumes "word_at G p x"
  shows "run_at G p (trailing_ones x)" "x \<noteq> - 1 \<Longrightarrow> \<not> G (p + trailing_ones x)"
proof -
  show "run_at G p (trailing_ones x)"
    using word_at_run [OF assms, of 0 "trailing_ones x"] trailing_ones [of x] by simp
  show "x \<noteq> - 1 \<Longrightarrow> \<not> G (p + trailing_ones x)"
    using assms trailing_ones(3) [of x] trailing_ones_lt [of x] by (simp add: word_at_def)
qed

lemma word_leading:
  assumes "word_at G p x"
  shows "run_at G (p + 64 - leading_ones x) (leading_ones x)" "x \<noteq> - 1 \<Longrightarrow> \<not> G (p + 64 - leading_ones x - 1)"
proof -
  have le: "leading_ones x \<le> 64"
    by (rule leading_ones)
  then show "run_at G (p + 64 - leading_ones x) (leading_ones x)"
    using word_at_run [OF assms, of "64 - leading_ones x" "leading_ones x"] leading_ones(1) [of x] by simp
  assume "x \<noteq> - 1"
  then have "leading_ones x < 64"
    by (rule leading_ones_lt)
  then have "\<not> bit x (63 - leading_ones x)" "63 - leading_ones x < 64" "p + 64 - leading_ones x - 1 = p + (63 - leading_ones x)"
    using leading_ones(3) [of x] by auto
  then show "\<not> G (p + 64 - leading_ones x - 1)"
    using assms by (simp add: word_at_def)
qed

lemma word_inside:
  assumes "word_at G p x" "0 < len" "starts x len \<noteq> 0"
  shows "run_at G (p + trailing_zeros (starts x len)) len"
    "\<And>s. p \<le> s \<Longrightarrow> s < p + trailing_zeros (starts x len) \<Longrightarrow> s + len \<le> p + 64 \<Longrightarrow> \<not> run_at G s len"
    "trailing_zeros (starts x len) + len \<le> 64"
proof -
  let ?z = "trailing_zeros (starts x len)"
  note m = starts_marks [OF assms(2), of x, unfolded marks_runs_def]
  have r: "run_at (bit x) ?z len"
    using m trailing_zeros(1) [OF assms(3)] by blast
  then show le: "?z + len \<le> 64"
    using run_in_word [OF assms(2)] by blast
  show "run_at G (p + ?z) len"
    using word_at_run [OF assms(1) le] r by simp
  fix s assume s: "p \<le> s" "s < p + ?z" "s + len \<le> p + 64"
  then have "\<not> bit (starts x len) (s - p)"
    using trailing_zeros(2) [of "s - p" "starts x len"] by simp
  then have "\<not> run_at (bit x) (s - p) len"
    using m by blast
  then show "\<not> run_at G s len"
    using word_at_run [OF assms(1), of "s - p" len] s by simp
qed

lemma word_no_inside:
  assumes "word_at G p x" "0 < len" "starts x len = 0" "p \<le> s" "s + len \<le> p + 64"
  shows "\<not> run_at G s len"
proof -
  have "\<not> run_at (bit x) (s - p) len"
    using starts_marks [OF assms(2), of x] marks_runs_zero assms(3) by blast
  then show ?thesis
    using word_at_run [OF assms(1), of "s - p" len] assms(4,5) by simp
qed

lemma word_found_inside:
  assumes "reached G len p run" "word_at G p x" "0 < len" "x \<noteq> - 1" "r_pages run + trailing_ones x < len" "starts x len \<noteq> 0"
  shows "first_at G len (p + trailing_zeros (starts x len))"
  unfolding first_at_def
proof (intro conjI allI impI)
  note w = word_inside [OF assms(2,3,6)]
  show "run_at G (p + trailing_zeros (starts x len)) len"
    by (rule w)
  fix s assume s: "s < p + trailing_zeros (starts x len)"
  show "\<not> run_at G s len"
  proof (cases "s \<le> p + trailing_ones x")
    case True
    then show ?thesis
      using reached_blocked [OF assms(1) word_trailing(2) [OF assms(2,4)] assms(5)] by blast
  next
    case False
    with w(2) [of s] w(3) s show ?thesis by simp
  qed
qed

lemma reached_start: "reached G len p run \<Longrightarrow> reached G len p (if r_pages run = 0 then run\<lparr>r_start := q\<rparr> else run)"
  by (auto simp: reached_def)

lemma reached_st: "reached G len p run \<Longrightarrow> r_start (if r_pages run = 0 then run\<lparr>r_start := p\<rparr> else run) = p - r_pages run"
  by (auto simp: reached_def)

section \<open>The words of a group\<close>

lemma scan_words:
  assumes "reached G len (word * 64) run" "0 < len" "word < wend" "word_at G (word * 64) x"
    "\<And>w. word < w \<Longrightarrow> w < wend \<Longrightarrow> word_at G (w * 64) (a_words a ! w)"
    "scan_words a (wend * 64) word x len run reads = (found, run', reads')"
  shows "(case found of Some s \<Rightarrow> first_at G len s | None \<Rightarrow> reached G len (wend * 64) run') \<and> reads' \<le> reads + (wend - word)"
  using assms
proof (induction "wend - word" arbitrary: word x run reads)
  case (Suc k)
  define r where "r = (if r_pages run = 0 then run\<lparr>r_start := word * 64\<rparr> else run)"
  have r: "reached G len (word * 64) r" "r_start r = word * 64 - r_pages r"
    using reached_start [OF Suc.prems(1)] reached_st [OF Suc.prems(1)] by (auto simp: r_def)
  note tr = word_trailing [OF Suc.prems(4)]
  consider (fits) "len \<le> r_pages r + trailing_ones x"
    | (inside) "r_pages r + trailing_ones x < len" "x \<noteq> - 1" "len \<le> 64" "starts x len \<noteq> 0"
    | (pass) "r_pages r + trailing_ones x < len" "\<not> (x \<noteq> - 1 \<and> len \<le> 64 \<and> starts x len \<noteq> 0)"
    by linarith
  then show ?case
  proof cases
    case fits
    then have "found = Some (r_start r)" "reads' = reads + 1"
      using Suc.prems(6) by (subst (asm) scan_words.simps; simp add: Let_def r_def WORD_def)+
    then show ?thesis
      using reached_found [OF r(1) tr(1) fits] r(2) Suc.hyps(2) by simp
  next
    case inside
    then have "found = Some (word * 64 + trailing_zeros (starts x len))" "reads' = reads + 1"
      using Suc.prems(6) by (subst (asm) scan_words.simps; simp add: Let_def r_def WORD_def)+
    then show ?thesis
      using word_found_inside [OF r(1) Suc.prems(4,2) inside(2,1,4)] Suc.hyps(2) by simp
  next
    case pass
    define r2 where "r2 = (if x = - 1 then r\<lparr>r_pages := r_pages r + 64\<rparr>
      else \<lparr>r_start = word * 64 + 64 - leading_ones x, r_pages = leading_ones x\<rparr>)"
    have step: "scan_words a (wend * 64) word x len run reads =
        (if wend * 64 \<le> (word + 1) * 64 then (None, r2, reads + 1)
         else scan_words a (wend * 64) (word + 1) (a_words a ! (word + 1)) len r2 (reads + 1))"
      using pass by (subst scan_words.simps) (auto simp: Let_def r_def r2_def WORD_def)
    have "reached G len (word * 64 + 64) r2"
    proof (cases "x = - 1")
      case True
      then have "trailing_ones x = 64" "run_at G (word * 64) 64"
        using tr(1) trailing_ones_full by auto
      then show ?thesis
        using pass(1) r True by (intro reached_full [OF r(1)]) (simp_all add: r2_def)
    next
      case False
      have "\<not> run_at G s len" if "word * 64 \<le> s" "s + len \<le> word * 64 + 64" for s
        using word_no_inside [OF Suc.prems(4,2) _ that] pass(2) False that by auto
      then show ?thesis
        using reached_block [OF r(1) trailing_ones_lt [OF False] tr(2) [OF False] pass(1)
            leading_ones_lt [OF False] word_leading(1) [OF Suc.prems(4)] word_leading(2) [OF Suc.prems(4) False]] False
        by (simp add: r2_def)
    qed
    then have r2: "reached G len ((word + 1) * 64) r2"
      by (simp add: algebra_simps)
    show ?thesis
    proof (cases "word + 1 < wend")
      case True
      then have "scan_words a (wend * 64) (word + 1) (a_words a ! (word + 1)) len r2 (reads + 1) = (found, run', reads')"
        using Suc.prems(6) step by simp
      with Suc.hyps(1) [OF _ r2 Suc.prems(2) True Suc.prems(5)] Suc.prems(5) Suc.hyps(2) True show ?thesis
        by fastforce
    next
      case False
      then have "word + 1 = wend"
        using Suc.prems(3) by simp
      then show ?thesis
        using Suc.prems(6) step r2 by auto
    qed
  qed
qed simp

end
