(* ===== verification/Runs_Record.thy ===== *)
theory Runs_Record
  imports Runs_Search
begin

text \<open>
  The record of a group is what its words say: the free run at its start, the one at its end, and the
  longest anywhere in it, across its words.
\<close>

section \<open>Reading a group's words\<close>

text \<open>Some run of \<open>m\<close> pages lies below page \<open>p\<close>.\<close>

definition has_run :: "(nat \<Rightarrow> bool) \<Rightarrow> nat \<Rightarrow> nat \<Rightarrow> bool" where
  "has_run P p m \<longleftrightarrow> (\<exists>s. s + m \<le> p \<and> run_at P s m)"

lemma has_run_mono: "has_run P p m \<Longrightarrow> k \<le> m \<Longrightarrow> p \<le> q \<Longrightarrow> has_run P q k"
  unfolding has_run_def using run_at_mono by (meson add_left_mono order_trans)

lemma has_runI: "run_at P s m \<Longrightarrow> s + m \<le> p \<Longrightarrow> has_run P p m"
  by (auto simp: has_run_def)

text \<open>The walk has read the words below page \<open>p\<close> of the group.\<close>

definition read_to :: "(nat \<Rightarrow> bool) \<Rightarrow> nat \<Rightarrow> nat option \<Rightarrow> nat \<Rightarrow> nat \<Rightarrow> bool" where
  "read_to P p hd_n run most \<longleftrightarrow>
     (case hd_n of None \<Rightarrow> run = p | Some h \<Rightarrow> h < p \<and> run_at P 0 h \<and> \<not> P h \<and> run < p) \<and>
     run \<le> p \<and> run_at P (p - run) run \<and> (run < p \<longrightarrow> \<not> P (p - run - 1)) \<and>
     (\<forall>m. has_run P p m \<longleftrightarrow> m \<le> max most run)"

text \<open>A run that crosses page \<open>p\<close> starts within the run that ends there.\<close>

lemma crossing:
  assumes "read_to P p hd_n run most" "run_at P s m" "p < s + m" "s \<le> p"
  shows "p - run \<le> s"
proof (rule ccontr)
  assume "\<not> p - run \<le> s"
  then have "run < p" "s \<le> p - run - 1" "p - run - 1 < s + m"
    using assms(3) by auto
  with assms(1,2) show False
    using run_at_D by (auto simp: read_to_def)
qed

lemma read_full:
  assumes "read_to P p hd_n run most" "word_at P p (- 1)"
  shows "read_to P (p + 64) hd_n (run + 64) most"
proof -
  have full: "run_at P p 64"
    using word_at_run [OF assms(2), of 0 64] all_ones [of "- 1"] by simp
  have rp: "run \<le> p" "run_at P (p - run) run"
    using assms(1) by (auto simp: read_to_def)
  have long: "run_at P (p - run) (run + 64)"
    using run_at_join [OF rp(2) full] rp(1) by (simp add: add.commute)
  have "has_run P (p + 64) m \<longleftrightarrow> m \<le> max most (run + 64)" for m
  proof
    assume "has_run P (p + 64) m"
    then obtain s where s: "s + m \<le> p + 64" "run_at P s m"
      by (auto simp: has_run_def)
    show "m \<le> max most (run + 64)"
    proof (cases "s + m \<le> p")
      case True
      then have "m \<le> max most run"
        using s(2) assms(1) by (auto simp: read_to_def has_run_def)
      then show ?thesis by linarith
    next
      case False
      then have "p - run \<le> s"
        using crossing [OF assms(1) s(2)] by linarith
      with s(1) rp(1) show ?thesis by linarith
    qed
  next
    assume m: "m \<le> max most (run + 64)"
    show "has_run P (p + 64) m"
    proof (cases "m \<le> run + 64")
      case True
      then show ?thesis
        using run_at_mono [OF long True] rp(1) by (intro has_runI [of P "p - run"]) auto
    next
      case False
      then have "has_run P p m"
        using m assms(1) by (auto simp: read_to_def)
      then show ?thesis
        by (rule has_run_mono) simp_all
    qed
  qed
  then show ?thesis
    using assms(1) long rp(1) by (auto simp: read_to_def split: option.splits)
qed

lemma read_word:
  assumes "read_to P p hd_n run most" "word_at P p x" "x \<noteq> - 1"
  defines "t \<equiv> trailing_ones x"
  shows "read_to P (p + 64) (case hd_n of None \<Rightarrow> Some (run + t) | Some h \<Rightarrow> Some h) (leading_ones x)
    (max (max most (run + t)) (longest x))"
proof -
  note tr = word_trailing [OF assms(2), folded t_def] and ld = word_leading [OF assms(2)]
  have t: "t < 64" and l: "leading_ones x < 64"
    using trailing_ones_lt [OF assms(3)] leading_ones_lt [OF assms(3)] by (simp_all add: t_def)
  have rp: "run \<le> p" "run_at P (p - run) run" "hd_n = None \<Longrightarrow> run = p"
    using assms(1) by (auto simp: read_to_def)
  have long: "run_at P (p - run) (run + t)"
    using run_at_join [OF rp(2) tr(1)] rp(1) by (simp add: add.commute)
  have inword: "has_run P (p + 64) m" if "m \<le> longest x" for m
  proof -
    have "\<exists>i. run_at (bit x) i m"
      unfolding longest_iff [OF assms(3)] by (rule that)
    then obtain i where i: "run_at (bit x) i m" ..
    show ?thesis
    proof (cases "m = 0")
      case False
      then have le: "i + m \<le> 64"
        using run_in_word [OF _ i] by simp
      then have "run_at P (p + i) m"
        using i word_at_run [OF assms(2) le] by blast
      then show ?thesis
        using le by (intro has_runI [of P "p + i"]) simp_all
    next
      case True
      then show ?thesis
        using has_runI [of P 0 0 "p + 64"] by simp
    qed
  qed
  have "has_run P (p + 64) m \<longleftrightarrow> m \<le> max (max (max most (run + t)) (longest x)) (leading_ones x)" for m
  proof
    assume "has_run P (p + 64) m"
    then obtain s where s: "s + m \<le> p + 64" "run_at P s m"
      by (auto simp: has_run_def)
    consider "s + m \<le> p" | "p \<le> s" | "s < p" "p < s + m"
      by linarith
    then show "m \<le> max (max (max most (run + t)) (longest x)) (leading_ones x)"
    proof cases
      case 1
      then have "m \<le> max most run"
        using s(2) assms(1) by (auto simp: read_to_def has_run_def)
      then show ?thesis by linarith
    next
      case 2
      then have "run_at (bit x) (s - p) m"
        using s word_at_run [OF assms(2), of "s - p" m] by simp
      then have "m \<le> longest x"
        using longest_iff [OF assms(3)] by blast
      then show ?thesis by linarith
    next
      case 3
      then have "p - run \<le> s"
        using crossing [OF assms(1) s(2)] by linarith
      moreover have "s + m \<le> p + t"
        using tr(2) [OF assms(3)] run_at_D [OF s(2), of "p + t"] 3(1) by (cases "p + t < s + m") auto
      ultimately show ?thesis
        using rp(1) by linarith
    qed
  next
    assume m: "m \<le> max (max (max most (run + t)) (longest x)) (leading_ones x)"
    then consider "m \<le> most" | "m \<le> run + t" | "m \<le> longest x" | "m \<le> leading_ones x"
      by linarith
    then show "has_run P (p + 64) m"
    proof cases
      case 1
      then have "has_run P p m"
        using assms(1) by (auto simp: read_to_def)
      then show ?thesis
        by (rule has_run_mono) simp_all
    next
      case 2
      then show ?thesis
        using run_at_mono [OF long 2] rp(1) t by (intro has_runI [of P "p - run"]) auto
    next
      case 3
      then show ?thesis by (rule inword)
    next
      case 4
      then show ?thesis
        using run_at_mono [OF ld(1) 4] l by (intro has_runI [of P "p + 64 - leading_ones x"]) auto
    qed
  qed
  moreover have "case (case hd_n of None \<Rightarrow> Some (run + t) | Some h \<Rightarrow> Some h) of None \<Rightarrow> leading_ones x = p + 64
    | Some h \<Rightarrow> h < p + 64 \<and> run_at P 0 h \<and> \<not> P h \<and> leading_ones x < p + 64"
  proof (cases hd_n)
    case None
    then show ?thesis
      using long rp(3) tr(2) [OF assms(3)] t l by simp
  next
    case (Some h)
    then have "h < p" "run_at P 0 h" "\<not> P h"
      using assms(1) unfolding read_to_def by simp_all
    with Some l show ?thesis by simp
  qed
  moreover have "leading_ones x \<le> p + 64" "leading_ones x < p + 64 \<longrightarrow> \<not> P (p + 64 - leading_ones x - 1)"
    using l ld(2) [OF assms(3)] by simp_all
  ultimately show ?thesis
    unfolding read_to_def using ld(1) by (intro conjI allI)
qed

lemma record_words_read:
  assumes "read_to P p hd_n run most" "\<And>i. i < length xs \<Longrightarrow> word_at P (p + i * 64) (xs ! i)"
    "record_words xs hd_n run most = (hd_n', run', most')"
  shows "read_to P (p + length xs * 64) hd_n' run' most'"
  using assms
proof (induction xs arbitrary: p hd_n run most)
  case (Cons x xs)
  have x: "word_at P p x"
    using Cons.prems(2) [of 0] by simp
  have xs: "word_at P (p + 64 + i * 64) (xs ! i)" if "i < length xs" for i
    using Cons.prems(2) [of "Suc i"] that by (simp add: add.assoc)
  show ?case
  proof (cases "x = - 1")
    case True
    then show ?thesis
      using Cons.IH [OF read_full [OF Cons.prems(1)] xs] x Cons.prems(3) by (simp add: WORD_def add.assoc)
  next
    case False
    then show ?thesis
      using Cons.IH [OF read_word [OF Cons.prems(1) x False] xs] Cons.prems(3) by (simp add: Let_def add.assoc)
  qed
qed simp

section \<open>The record\<close>

definition group_at :: "(nat \<Rightarrow> bool) \<Rightarrow> nat \<Rightarrow> group \<Rightarrow> bool" where
  "group_at G p g \<longleftrightarrow>
     (let h = unat (g_head g); l = unat (g_tail g)
      in h \<le> 512 \<and> run_at G p h \<and> (h < 512 \<longrightarrow> \<not> G (p + h) \<and> l < 512 \<and> run_at G (p + 512 - l) l \<and> \<not> G (p + 512 - l - 1)) \<and>
         (\<forall>m. (\<exists>s. p \<le> s \<and> s + m \<le> p + 512 \<and> run_at G s m) \<longleftrightarrow> m \<le> unat (g_longest g)))"

lemma read_to_0: "read_to P 0 None 0 0"
  by (auto simp: read_to_def has_run_def)

lemma unat_u16: "n \<le> 512 \<Longrightarrow> unat (of_nat n :: u16) = n"
  by (simp add: unsigned_of_nat take_bit_nat_eq_self)

lemma run_at_shift: "run_at (\<lambda>i. G (p + i)) s m \<longleftrightarrow> run_at G (p + s) m"
  by (simp add: run_at_def add.assoc)

lemma has_run_shift: "has_run (\<lambda>i. G (p + i)) q m \<longleftrightarrow> (\<exists>s. p \<le> s \<and> s + m \<le> p + q \<and> run_at G s m)"
proof
  assume "has_run (\<lambda>i. G (p + i)) q m"
  then obtain s where "s + m \<le> q" "run_at G (p + s) m"
    by (auto simp: has_run_def run_at_shift)
  then show "\<exists>s. p \<le> s \<and> s + m \<le> p + q \<and> run_at G s m"
    by (intro exI [of _ "p + s"]) auto
next
  assume "\<exists>s. p \<le> s \<and> s + m \<le> p + q \<and> run_at G s m"
  then obtain s where "p \<le> s" "s + m \<le> p + q" "run_at G s m"
    by blast
  then show "has_run (\<lambda>i. G (p + i)) q m"
    by (auto simp: has_run_def run_at_shift intro!: exI [of _ "s - p"])
qed

lemma read_toD:
  assumes "read_to P p hd_n run most"
  shows "run \<le> p" "run_at P (p - run) run" "run < p \<Longrightarrow> \<not> P (p - run - 1)" "has_run P p m \<longleftrightarrow> m \<le> max most run"
    "hd_n = None \<Longrightarrow> run = p" "hd_n = Some h \<Longrightarrow> h < p \<and> run_at P 0 h \<and> \<not> P h \<and> run < p"
  using assms unfolding read_to_def by simp_all

lemma read_group:
  assumes "read_to (\<lambda>i. G (p + i)) 512 hd_n run most" "h = (case hd_n of None \<Rightarrow> 512 | Some h \<Rightarrow> h)"
  shows "h \<le> 512" "run_at G p h" "h < 512 \<Longrightarrow> \<not> G (p + h) \<and> run < 512 \<and> run_at G (p + 512 - run) run \<and> \<not> G (p + 512 - run - 1)"
proof -
  note r = read_toD [OF assms(1)]
  have "h \<le> 512 \<and> run_at G p h"
  proof (cases hd_n)
    case None
    then have "run = 512"
      by (rule r(5))
    then show ?thesis
      using r(2) None assms(2) run_at_shift [of G p 0 512] by simp
  next
    case (Some k)
    then show ?thesis
      using r(6) [OF Some] assms(2) run_at_shift [of G p 0 k] by simp
  qed
  then show "h \<le> 512" "run_at G p h"
    by simp_all
  assume "h < 512"
  then have k: "hd_n = Some h"
    using assms(2) by (cases hd_n) simp_all
  have eq: "p + 512 - run = p + (512 - run)" "p + (512 - run) - 1 = p + (512 - run - 1)"
    using r(6) [OF k] by auto
  show "\<not> G (p + h) \<and> run < 512 \<and> run_at G (p + 512 - run) run \<and> \<not> G (p + 512 - run - 1)"
    unfolding eq using r(2,3) r(6) [OF k] run_at_shift [of G p "512 - run" run] by blast
qed

lemma record_of_group:
  assumes "length xs = 8" "\<And>i. i < 8 \<Longrightarrow> word_at G (p + i * 64) (xs ! i)"
  shows "group_at G p (record_of xs)"
proof -
  obtain hd_n run most where r: "record_words xs None 0 0 = (hd_n, run, most)"
    by (metis prod_cases3)
  have "word_at (\<lambda>i. G (p + i)) (0 + i * 64) (xs ! i)" if "i < length xs" for i
    using assms that by (simp add: word_at_def add.assoc)
  from record_words_read [OF read_to_0 this r] have read: "read_to (\<lambda>i. G (p + i)) 512 hd_n run most"
    using assms(1) by simp
  define h where "h = (case hd_n of None \<Rightarrow> 512 | Some h \<Rightarrow> h)"
  note g = read_group [OF read h_def]
  have all: "(\<exists>s. p \<le> s \<and> s + m \<le> p + 512 \<and> run_at G s m) \<longleftrightarrow> m \<le> max most run" for m
    using read_toD(4) [OF read, of m] has_run_shift [of G p 512 m] by simp
  have le: "max most run \<le> 512"
    using all [of "max most run"] by auto
  have "unat (g_head (record_of xs)) = h" "unat (g_tail (record_of xs)) = run" "unat (g_longest (record_of xs)) = max most run"
    using r le g(1) unat_u16 [of h] unat_u16 [of run] unat_u16 [of "max most run"]
    unfolding record_of_def h_def GROUP_PAGES_def by simp_all
  with g all show ?thesis
    unfolding group_at_def Let_def by simp
qed

end
