(* ===== verification/Runs_Area.thy ===== *)
theory Runs_Area
  imports Runs_Record
begin

text \<open>
  The search over an area's groups, whose records are what its words say, finds the first free run.
\<close>

section \<open>The area's pages\<close>

definition area_ok :: "area \<Rightarrow> bool" where
  "area_ok a \<longleftrightarrow>
     length (a_words a) = groups a * 8 \<and> length (a_groups a) = groups a \<and>
     (case a_pending a of None \<Rightarrow> True | Some g \<Rightarrow> g < groups a)"

definition avail :: "area \<Rightarrow> nat \<Rightarrow> nat \<Rightarrow> bool" where
  "avail a from_n p \<longleftrightarrow> from_n \<le> p \<and> p < pages a \<and> is_free a p"

lemma is_free_bit: "is_free a p \<longleftrightarrow> bit (a_words a ! (p div 64)) (p mod 64)"
  by (simp add: is_free_def WORD_def bit_iff_and_drop_bit_eq_1)

lemma avail_word:
  assumes "w < length (a_words a)" "from_n \<le> w * 64"
  shows "word_at (avail a from_n) (w * 64) (a_words a ! w)"
  unfolding word_at_def
proof (intro allI impI)
  fix i :: nat assume i: "i < 64"
  have "(w * 64 + i) div 64 = w" "(w * 64 + i) mod 64 = i"
    using i by auto
  moreover have "w * 64 + i < pages a"
    using i assms(1) by (simp add: pages_def WORD_def)
  ultimately show "avail a from_n (w * 64 + i) \<longleftrightarrow> bit (a_words a ! w) i"
    using assms(2) by (simp add: avail_def is_free_bit)
qed

lemma avail_masked:
  assumes "w < length (a_words a)" "w = from_n div 64"
  shows "word_at (avail a from_n) (w * 64) (a_words a ! w AND push_bit (from_n mod 64) (- 1))"
  unfolding word_at_def
proof (intro allI impI)
  fix i :: nat assume i: "i < 64"
  have "(w * 64 + i) div 64 = w" "(w * 64 + i) mod 64 = i"
    using i by auto
  moreover have "w * 64 + i < pages a"
    using i assms(1) by (simp add: pages_def WORD_def)
  moreover have "from_n \<le> w * 64 + i \<longleftrightarrow> from_n mod 64 \<le> i"
    using assms(2) div_mult_mod_eq [of from_n 64] by linarith
  ultimately show "avail a from_n (w * 64 + i) \<longleftrightarrow> bit (a_words a ! w AND push_bit (from_n mod 64) (- 1)) i"
    using i by (simp add: avail_def is_free_bit bit_and_iff bit_not_iff bit_mask_iff conj_commute not_less)
qed

lemma group_words_nth: "i < 8 \<Longrightarrow> group_words a g ! i = a_words a ! (g * 8 + i)" "length (group_words a g) = 8"
  by (simp_all add: group_words_def GROUP_WORDS_def GROUP_PAGES_def WORD_def)

lemma group_index: "area_ok a \<Longrightarrow> g < groups a \<Longrightarrow> i < 8 \<Longrightarrow> g * 8 + i < length (a_words a)"
  by (simp add: area_ok_def)

lemma record_group_at:
  assumes "area_ok a" "g < groups a" "from_n \<le> g * 512"
  shows "group_at (avail a from_n) (g * 512) (record_group a g)"
  unfolding record_group_def
proof (rule record_of_group)
  fix i :: nat assume i: "i < 8"
  have "word_at (avail a from_n) ((g * 8 + i) * 64) (a_words a ! (g * 8 + i))"
    using group_index [OF assms(1,2) i] assms(3) by (intro avail_word) simp_all
  then show "word_at (avail a from_n) (g * 512 + i * 64) (group_words a g ! i)"
    using i by (simp add: group_words_nth algebra_simps)
qed (simp add: group_words_nth)

section \<open>The groups\<close>

lemma no_run_after:
  assumes "reached G len p run" "\<And>q. p \<le> q \<Longrightarrow> \<not> G q" "0 < len"
  shows "\<not> run_at G s len"
proof (cases "s < p - r_pages run")
  case True
  with assms(1) show ?thesis by (simp add: reached_def)
next
  case False
  then have "p \<le> s + (len - 1)"
    using assms(1) by (auto simp: reached_def)
  then have "\<not> G (s + (len - 1))"
    by (rule assms(2))
  then show ?thesis
    using assms(3) unfolding run_at_def by (metis diff_less zero_less_one)
qed

lemma reached_past: "reached G len p run \<Longrightarrow> s + len \<le> p \<Longrightarrow> \<not> run_at G s len"
  by (cases "s < p - r_pages run") (auto simp: reached_def)

lemma reached_here: "0 < len \<Longrightarrow> (\<And>s. s < p \<Longrightarrow> \<not> run_at G s len) \<Longrightarrow> r_pages run = 0 \<Longrightarrow> reached G len p run"
  by (simp add: reached_def)

lemma group_step:
  assumes "reached G len (g * 512) run" "group_at G (g * 512) rec" "0 < len"
    "r_pages run + unat (g_head rec) < len" "unat (g_head rec) < 512"
  shows "unat (g_longest rec) < len \<Longrightarrow>
      reached G len ((g + 1) * 512) \<lparr>r_start = g * 512 + 512 - unat (g_tail rec), r_pages = unat (g_tail rec)\<rparr>"
    "\<And>r. r_pages r = 0 \<Longrightarrow> reached G len (g * 512) r"
proof -
  have h: "\<not> G (g * 512 + unat (g_head rec))" "unat (g_tail rec) < 512"
    "run_at G (g * 512 + 512 - unat (g_tail rec)) (unat (g_tail rec))" "\<not> G (g * 512 + 512 - unat (g_tail rec) - 1)"
    and lg: "(\<exists>s. g * 512 \<le> s \<and> s + m \<le> g * 512 + 512 \<and> run_at G s m) \<longleftrightarrow> m \<le> unat (g_longest rec)" for m
    using assms(2,5) by (simp_all add: group_at_def Let_def)
  note blocked = reached_blocked [OF assms(1) h(1) assms(4)]
  show "reached G len (g * 512) r" if "r_pages r = 0" for r
    using assms(3) blocked that by (intro reached_here) simp_all
  assume "unat (g_longest rec) < len"
  then have "\<not> run_at G s len" if "g * 512 \<le> s" "s + len \<le> g * 512 + 512" for s
    using lg [of len] that by auto
  then show "reached G len ((g + 1) * 512) \<lparr>r_start = g * 512 + 512 - unat (g_tail rec), r_pages = unat (g_tail rec)\<rparr>"
    using reached_block [OF assms(1,5) h(1) assms(4) h(2-4)] by (simp add: algebra_simps)
qed

lemma scan_group:
  assumes "reached G len (g * 512) \<lparr>r_start = g * 512, r_pages = 0\<rparr>" "0 < len"
    "\<And>i. i < 8 \<Longrightarrow> word_at G ((g * 8 + i) * 64) (a_words a ! (g * 8 + i))"
    "scan a (g * 512) len \<lparr>r_start = g * 512, r_pages = 0\<rparr> reads = (found, run', reads')"
    "g * 512 \<le> t" "t + len \<le> g * 512 + 512" "run_at G t len"
  shows "\<exists>s. found = Some s \<and> first_at G len s" "reads' \<le> reads + 8"
proof -
  have x: "a_words a ! (g * 8) AND push_bit 0 (- 1) = a_words a ! (g * 8)"
    by simp
  have s: "scan_words a ((g + 1) * 8 * 64) (g * 8) (a_words a ! (g * 8)) len \<lparr>r_start = g * 512, r_pages = 0\<rparr> reads =
      (found, run', reads')"
    using assms(4) by (simp add: scan_def GROUP_PAGES_def WORD_def Let_def x algebra_simps)
  have r: "reached G len (g * 8 * 64) \<lparr>r_start = g * 512, r_pages = 0\<rparr>"
    using assms(1) by (simp add: mult.commute)
  have later: "word_at G (w * 64) (a_words a ! w)" if "g * 8 \<le> w" "w < (g + 1) * 8" for w
    using assms(3) [of "w - g * 8"] that by simp
  note res = scan_words [OF r assms(2) _ later _ s]
  show "reads' \<le> reads + 8"
    using res later by simp
  show "\<exists>s. found = Some s \<and> first_at G len s"
  proof (cases found)
    case None
    then have "reached G len ((g + 1) * 8 * 64) run'"
      using res later by simp
    from reached_past [OF this, of t] assms(6,7) show ?thesis
      by (simp add: algebra_simps)
  next
    case (Some s)
    then show ?thesis
      using res later by simp
  qed
qed

lemma fit_groups:
  assumes "reached G len (g * 512) run" "0 < len" "g \<le> groups a"
    "\<And>k. g \<le> k \<Longrightarrow> k < groups a \<Longrightarrow> group_at G (k * 512) (a_groups a ! k)"
    "\<And>k i. g \<le> k \<Longrightarrow> k < groups a \<Longrightarrow> i < 8 \<Longrightarrow> word_at G ((k * 8 + i) * 64) (a_words a ! (k * 8 + i))"
    "\<And>q. groups a * 512 \<le> q \<Longrightarrow> \<not> G q" "fit_groups a g len run reads = (found, reads')"
  shows "(case found of Some s \<Rightarrow> first_at G len s | None \<Rightarrow> \<forall>s. \<not> run_at G s len) \<and> reads' \<le> reads + (groups a - g) + 8"
  using assms
proof (induction "groups a - g" arbitrary: g run reads)
  case 0
  then have "g = groups a" "found = None" "reads' = reads"
    by (auto simp: fit_groups.simps [of a g])
  then show ?case
    using no_run_after [OF 0(2) _ 0(3)] 0(7) by simp
next
  case (Suc n)
  define r where "r = (if r_pages run = 0 then run\<lparr>r_start := g * 512\<rparr> else run)"
  define rec where "rec = a_groups a ! g"
  have g: "g < groups a"
    using Suc.hyps(2) by simp
  have r: "reached G len (g * 512) r" "r_start r = g * 512 - r_pages r" "r_pages r = r_pages run"
    using reached_start [OF Suc.prems(1)] reached_st [OF Suc.prems(1)] by (auto simp: r_def)
  have ga: "group_at G (g * 512) rec"
    using Suc.prems(4) g by (simp add: rec_def)
  then have h: "unat (g_head rec) \<le> 512" "run_at G (g * 512) (unat (g_head rec))"
    by (simp_all add: group_at_def Let_def)
  have step: "fit_groups a g len run reads =
      (if len \<le> r_pages r + unat (g_head rec) then (Some (r_start r), reads + 1)
       else if unat (g_head rec) = 512 then fit_groups a (g + 1) len (r\<lparr>r_pages := r_pages r + 512\<rparr>) (reads + 1)
       else if len \<le> unat (g_longest rec) then
         (case scan a (g * 512) len \<lparr>r_start = g * 512, r_pages = 0\<rparr> (reads + 1) of (found, _, reads) \<Rightarrow> (found, reads))
       else fit_groups a (g + 1) len
         \<lparr>r_start = g * 512 + 512 - unat (g_tail rec), r_pages = unat (g_tail rec)\<rparr> (reads + 1))"
    using g by (subst fit_groups.simps) (simp add: Let_def r_def rec_def GROUP_PAGES_def)
  have next_g: ?case if nx: "reached G len ((g + 1) * 512) r2" "fit_groups a (g + 1) len r2 (reads + 1) = (found, reads')" for r2
  proof -
    have "n = groups a - (g + 1)" "g + 1 \<le> groups a"
      using Suc.hyps(2) g by simp_all
    from Suc.hyps(1) [OF this(1) nx(1) Suc.prems(2) this(2) Suc.prems(4,5,6) nx(2)] g show ?thesis
      by auto
  qed
  consider (fits) "len \<le> r_pages r + unat (g_head rec)"
    | (full) "r_pages r + unat (g_head rec) < len" "unat (g_head rec) = 512"
    | (inside) "r_pages r + unat (g_head rec) < len" "unat (g_head rec) < 512" "len \<le> unat (g_longest rec)"
    | (pass) "r_pages r + unat (g_head rec) < len" "unat (g_head rec) < 512" "unat (g_longest rec) < len"
    using h(1) by linarith
  then show ?case
  proof cases
    case fits
    then show ?thesis
      using step Suc.prems(7) reached_found [OF r(1) h(2) fits] r(2) g by auto
  next
    case full
    have "reached G len (g * 512 + 512) (r\<lparr>r_pages := r_pages r + 512\<rparr>)"
      using full h(2) r by (intro reached_full [OF r(1)]) simp_all
    then show ?thesis
      using full step Suc.prems(7) by (intro next_g) (simp_all add: algebra_simps)
  next
    case inside
    have "\<exists>t. g * 512 \<le> t \<and> t + len \<le> g * 512 + 512 \<and> run_at G t len"
      using ga inside(3) unfolding group_at_def Let_def by blast
    then obtain t where t: "g * 512 \<le> t" "t + len \<le> g * 512 + 512" "run_at G t len"
      by blast
    have r0: "reached G len (g * 512) \<lparr>r_start = g * 512, r_pages = 0\<rparr>"
      using group_step(2) [OF r(1) ga Suc.prems(2) inside(1,2)] by simp
    obtain f r' n' where sc: "scan a (g * 512) len \<lparr>r_start = g * 512, r_pages = 0\<rparr> (reads + 1) = (f, r', n')"
      by (metis prod_cases3)
    note sg = scan_group [OF r0 Suc.prems(2) Suc.prems(5) [OF order_refl g] sc t]
    have "found = f" "reads' = n'"
      using step sc inside Suc.prems(7) by auto
    then show ?thesis
      using sg g by auto
  next
    case pass
    then show ?thesis
      using step Suc.prems(7) group_step(1) [OF r(1) ga Suc.prems(2) pass(1,2,3)] by (intro next_g) simp_all
  qed
qed

section \<open>The first fit\<close>

definition settled :: "area \<Rightarrow> bool" where
  "settled a \<longleftrightarrow> (\<forall>g<groups a. a_groups a ! g = record_group a g)"

lemma avail_end: "area_ok a \<Longrightarrow> groups a * 512 \<le> q \<Longrightarrow> \<not> avail a from_n q"
  by (simp add: avail_def pages_def area_ok_def WORD_def)

lemma avail_before: "0 < len \<Longrightarrow> s < from_n \<Longrightarrow> \<not> run_at (avail a from_n) s len"
  by (auto simp: run_at_def avail_def)

lemma fit_from_group:
  assumes "area_ok a" "settled a" "0 < len" "from_n \<le> g * 512" "g \<le> groups a" "reached (avail a from_n) len (g * 512) run"
    "fit_groups a g len run reads = (found, reads')"
  shows "(case found of Some s \<Rightarrow> first_at (avail a from_n) len s | None \<Rightarrow> \<forall>s. \<not> run_at (avail a from_n) s len) \<and>
    reads' \<le> reads + (groups a - g) + 8"
proof (rule fit_groups [OF assms(6,3,5) _ _ _ assms(7)])
  fix k assume k: "g \<le> k" "k < groups a"
  have le: "from_n \<le> k * 512"
    using assms(4) k(1) by (meson mult_le_mono1 order_trans)
  show "group_at (avail a from_n) (k * 512) (a_groups a ! k)"
    using record_group_at [OF assms(1) k(2) le] assms(2) k(2) by (simp add: settled_def)
  fix i :: nat assume "i < 8"
  then show "word_at (avail a from_n) ((k * 8 + i) * 64) (a_words a ! (k * 8 + i))"
    using group_index [OF assms(1) k(2)] le by (intro avail_word) simp_all
next
  fix q assume "groups a * 512 \<le> q"
  with assms(1) show "\<not> avail a from_n q"
    by (rule avail_end)
qed

lemma below_next: "0 < k \<Longrightarrow> n < (n div k + 1) * k" for n k :: nat
  using div_less_iff_less_mult [of k n "n div k + 1"] by simp

lemma first_fit:
  assumes "area_ok a" "settled a" "0 < len" "from_n < pages a" "first_fit a from_n len reads = (found, reads')"
  shows "(case found of Some s \<Rightarrow> first_at (avail a from_n) len s | None \<Rightarrow> \<forall>s. \<not> run_at (avail a from_n) s len) \<and>
    reads' \<le> reads + (groups a + 2 * GROUP_WORDS)"
proof -
  let ?G = "avail a from_n" and ?run = "\<lparr>r_start = from_n, r_pages = 0\<rparr>" and ?g = "from_n div 512"
  have pages: "pages a = groups a * 512"
    using assms(1) by (simp add: pages_def area_ok_def WORD_def)
  have g: "?g < groups a"
    using assms(4) pages by (simp add: less_mult_imp_div_less)
  have W: "2 * GROUP_WORDS = 16"
    by (simp add: GROUP_WORDS_def GROUP_PAGES_def WORD_def)
  show ?thesis
  proof (cases "from_n mod 512 = 0")
    case True
    then have eq: "?g * 512 = from_n"
      by auto
    have "reached ?G len (?g * 512) ?run"
      using assms(3) avail_before unfolding eq by (intro reached_here) simp_all
    moreover have "fit_groups a ?g len ?run reads = (found, reads')"
      using assms(5) True by (simp add: first_fit_def GROUP_PAGES_def Let_def)
    ultimately show ?thesis
      using fit_from_group [OF assms(1-3), of from_n ?g ?run reads found reads'] eq g W by auto
  next
    case False
    let ?w = "from_n div 64"
    obtain f r n where sc: "scan a from_n len ?run reads = (f, r, n)"
      by (metis prod_cases3)
    have sw: "scan_words a ((?g + 1) * 8 * 64) ?w (a_words a ! ?w AND push_bit (from_n mod 64) (- 1)) len ?run reads = (f, r, n)"
      using sc by (simp add: scan_def GROUP_PAGES_def WORD_def Let_def algebra_simps)
    have "?g = ?w div 8"
      by (simp flip: div_mult2_eq)
    then have w: "?w < (?g + 1) * 8"
      using below_next [of 8 ?w] by simp
    have len: "(?g + 1) * 8 \<le> length (a_words a)"
      using assms(1) g by (simp add: area_ok_def)
    have r0: "reached ?G len (?w * 64) ?run"
      using assms(3) avail_before [OF assms(3)] by (intro reached_here) (simp_all add: div_times_less_eq_dividend less_le_trans)
    have later: "word_at ?G (v * 64) (a_words a ! v)" if "?w < v" "v < (?g + 1) * 8" for v
    proof (rule avail_word)
      show "v < length (a_words a)"
        using that(2) len by simp
      have "from_n < (?w + 1) * 64"
        using below_next [of 64 from_n] by simp
      moreover have "(?w + 1) * 64 \<le> v * 64"
        using that(1) by simp
      ultimately show "from_n \<le> v * 64"
        by linarith
    qed
    have now: "word_at ?G (?w * 64) (a_words a ! ?w AND push_bit (from_n mod 64) (- 1))"
      using w len by (intro avail_masked) simp_all
    have res: "(case f of Some s \<Rightarrow> first_at ?G len s | None \<Rightarrow> reached ?G len ((?g + 1) * 8 * 64) r) \<and>
        n \<le> reads + ((?g + 1) * 8 - ?w)"
      using scan_words [OF r0 assms(3) w now later sw] by blast
    have n: "n \<le> reads + 8"
      using res \<open>?g = ?w div 8\<close> div_times_less_eq_dividend [of ?w 8] by auto
    show ?thesis
    proof (cases f)
      case (Some s)
      then have "found = Some s" "reads' = n"
        using assms(5) sc False by (simp_all add: first_fit_def GROUP_PAGES_def Let_def)
      then show ?thesis
        using res Some n W by simp
    next
      case None
      then have "reached ?G len ((?g + 1) * 8 * 64) r"
        using res by simp
      then have r: "reached ?G len ((?g + 1) * 512) r"
        by (simp add: mult.commute mult.left_commute)
      have "fit_groups a (?g + 1) len r n = (found, reads')"
        using assms(5) sc False None by (simp add: first_fit_def GROUP_PAGES_def Let_def)
      from fit_from_group [OF assms(1-3) _ _ r this] g have
        "(case found of Some s \<Rightarrow> first_at ?G len s | None \<Rightarrow> \<forall>s. \<not> run_at ?G s len) \<and> reads' \<le> n + (groups a - (?g + 1)) + 8"
        by (simp add: dividend_less_div_times less_imp_le)
      then show ?thesis
        using n W by auto
    qed
  qed
qed

end
