(* ===== verification/Runs_System.thy ===== *)
theory Runs_System
  imports Runs_Area
begin

text \<open>
  What an area promises: the search finds what a walk of every page would, within its bound of reads, and
  every change keeps the records.
\<close>

section \<open>Changes\<close>

lemma records_hold_iff: "records_hold a \<longleftrightarrow> (\<forall>g<groups a. a_pending a = Some g \<or> a_groups a ! g = record_group a g)"
  by (auto simp: records_hold_def list_all_iff)

lemma record_group_cong:
  "(\<And>i. i < 8 \<Longrightarrow> a_words a ! (g * 8 + i) = a_words b ! (g * 8 + i)) \<Longrightarrow> record_group a g = record_group b g"
proof -
  assume "\<And>i. i < 8 \<Longrightarrow> a_words a ! (g * 8 + i) = a_words b ! (g * 8 + i)"
  then have "group_words a g = group_words b g"
    by (intro nth_equalityI) (simp_all add: group_words_nth)
  then show ?thesis
    by (simp add: record_group_def)
qed

lemma settle_words [simp]: "a_words (snd (settle a)) = a_words a" "groups (snd (settle a)) = groups a" "pages (snd (settle a)) = pages a"
  "is_free (snd (settle a)) p = is_free a p" "a_pending (snd (settle a)) = None"
  by (simp_all add: settle_def groups_def pages_def is_free_def split: option.split)

lemma settle_record [simp]: "record_group (snd (settle a)) g = record_group a g"
  by (rule record_group_cong) simp

lemma settle_reads: "fst (settle a) \<le> GROUP_WORDS"
  by (simp add: settle_def split: option.split)

lemma settle_ok:
  assumes "area_ok a" "records_hold a"
  shows "area_ok (snd (settle a))" "settled (snd (settle a))" "records_hold (snd (settle a))"
proof -
  show ok: "area_ok (snd (settle a))"
    using assms(1) by (auto simp: area_ok_def settle_def groups_def split: option.split)
  have "a_groups (snd (settle a)) ! g = record_group a g" if "g < groups a" for g
    using assms that by (auto simp: records_hold_iff area_ok_def settle_def nth_list_update split: option.split)
  then show "settled (snd (settle a))"
    by (simp add: settled_def)
  then show "records_hold (snd (settle a))"
    by (simp add: records_hold_iff settled_def)
qed

lemma page_word: "page < pages a \<Longrightarrow> page div 64 < length (a_words a)"
  by (simp add: pages_def WORD_def less_mult_imp_div_less)

text \<open>A page's bit in a word, set or cleared.\<close>

lemma bit_set_word:
  assumes "k < 64" "i < 64"
  shows "bit (if free then (w :: u64) OR push_bit k 1 else w AND NOT (push_bit k 1)) i \<longleftrightarrow> (if i = k then free else bit w i)"
  using assms by (auto simp: bit_or_iff bit_and_iff bit_not_iff bit_push_bit_iff bit_1_iff bit_exp_iff push_bit_of_1)

definition put_word :: "nat \<Rightarrow> u64 \<Rightarrow> area \<Rightarrow> area" where
  "put_word index w a = a\<lparr>a_words := (a_words a)[index := w]\<rparr>"

lemma put_word_simps [simp]: "groups (put_word index w a) = groups a" "pages (put_word index w a) = pages a"
  "a_groups (put_word index w a) = a_groups a" "a_pending (put_word index w a) = a_pending a" "area_ok (put_word index w a) = area_ok a"
  by (simp_all add: put_word_def groups_def pages_def area_ok_def cong: option.case_cong)

lemma put_word_record: "g \<noteq> index div 8 \<Longrightarrow> record_group (put_word index w a) g = record_group a g"
proof (rule record_group_cong)
  fix i :: nat assume "i < 8" "g \<noteq> index div 8"
  then have "g * 8 + i \<noteq> index"
    by auto
  then show "a_words (put_word index w a) ! (g * 8 + i) = a_words a ! (g * 8 + i)"
    by (simp add: put_word_def)
qed

lemma set_page_eq:
  "set_page page free a =
     (let w = a_words a ! (page div 64);
          new = (if free then w OR push_bit (page mod 64) 1 else w AND NOT (push_bit (page mod 64) 1));
          b = put_word (page div 64) new a
      in if new = w then a
         else if a_pending a = Some (page div 512) then b else (snd (settle b))\<lparr>a_pending := Some (page div 512)\<rparr>)"
  by (simp add: set_page_def put_word_def Let_def WORD_def GROUP_PAGES_def)

lemma set_page_ok:
  assumes "area_ok a" "records_hold a" "page < pages a"
  shows "area_ok (set_page page free a)" "records_hold (set_page page free a)" "pages (set_page page free a) = pages a"
proof -
  define w where "w = a_words a ! (page div 64)"
  define new where "new = (if free then w OR push_bit (page mod 64) 1 else w AND NOT (push_bit (page mod 64) 1))"
  define b where "b = put_word (page div 64) new a"
  have grp: "page div 64 div 8 = page div 512"
    by (simp flip: div_mult2_eq)
  have "pages a = groups a * 512"
    using assms(1) by (simp add: pages_def area_ok_def WORD_def)
  then have g: "page div 512 < groups a"
    using assms(3) by (simp add: less_mult_imp_div_less)
  have other: "record_group b h = record_group a h" if "h \<noteq> page div 512" for h
    using put_word_record [of h "page div 64" new a] that by (simp add: b_def grp)
  have s: "set_page page free a = (if new = w then a
      else if a_pending a = Some (page div 512) then b else (snd (settle b))\<lparr>a_pending := Some (page div 512)\<rparr>)"
    by (simp add: set_page_eq w_def new_def b_def Let_def)
  have "area_ok b"
    using assms(1) by (simp add: b_def)
  show "pages (set_page page free a) = pages a"
    by (simp add: s b_def pages_def settle_def put_word_def split: option.split)
  show "area_ok (set_page page free a)"
    using assms(1) g \<open>area_ok b\<close> by (auto simp: s area_ok_def b_def settle_def groups_def put_word_def split: option.split)
  show "records_hold (set_page page free a)"
  proof (cases "new = w")
    case True
    with s assms(2) show ?thesis by simp
  next
    case False
    have "records_hold b" if "a_pending a = Some (page div 512)"
      unfolding records_hold_iff
    proof (intro allI impI)
      fix h assume "h < groups b"
      then show "a_pending b = Some h \<or> a_groups b ! h = record_group b h"
        using assms(2) that other [of h] by (cases "h = page div 512") (auto simp: records_hold_iff b_def)
    qed
    moreover have "records_hold ((snd (settle b))\<lparr>a_pending := Some (page div 512)\<rparr>)" if "a_pending a \<noteq> Some (page div 512)"
      unfolding records_hold_iff
    proof (intro allI impI)
      fix h assume h: "h < groups ((snd (settle b))\<lparr>a_pending := Some (page div 512)\<rparr>)"
      have "record_group ((snd (settle b))\<lparr>a_pending := Some (page div 512)\<rparr>) h = record_group b h"
        by (rule record_group_cong) simp
      moreover have "a_groups (snd (settle b)) ! h = record_group b h" if "h \<noteq> page div 512"
        using assms(1,2) h that other [of h]
        by (auto simp: records_hold_iff area_ok_def settle_def b_def groups_def put_word_def nth_list_update split: option.splits)
      ultimately show "a_pending ((snd (settle b))\<lparr>a_pending := Some (page div 512)\<rparr>) = Some h \<or>
          a_groups ((snd (settle b))\<lparr>a_pending := Some (page div 512)\<rparr>) ! h = record_group ((snd (settle b))\<lparr>a_pending := Some (page div 512)\<rparr>) h"
        by auto
    qed
    ultimately show ?thesis
      using s False by simp
  qed
qed

lemma set_page_is_free:
  assumes "page < pages a" "p < pages a"
  shows "is_free (set_page page free a) p \<longleftrightarrow> (if p = page then free else is_free a p)"
proof -
  define w where "w = a_words a ! (page div 64)"
  define new where "new = (if free then w OR push_bit (page mod 64) 1 else w AND NOT (push_bit (page mod 64) 1))"
  have bits: "bit new i \<longleftrightarrow> (if i = page mod 64 then free else bit w i)" if "i < 64" for i
    unfolding new_def by (rule bit_set_word) (simp_all add: that)
  have "a_words (set_page page free a) = (a_words a)[page div 64 := new]"
    by (auto simp: set_page_eq Let_def w_def [symmetric] new_def [symmetric] put_word_def) (simp add: w_def)
  then have "is_free (set_page page free a) p \<longleftrightarrow> bit (if p div 64 = page div 64 then new else a_words a ! (p div 64)) (p mod 64)"
    using page_word [OF assms(1)] by (auto simp: is_free_bit)
  also have "\<dots> \<longleftrightarrow> (if p = page then free else is_free a p)"
  proof (cases "p div 64 = page div 64")
    case True
    then have "p mod 64 = page mod 64 \<longleftrightarrow> p = page"
      by (metis div_mult_mod_eq)
    with True show ?thesis
      by (simp add: bits is_free_bit w_def)
  next
    case False
    then show ?thesis by (auto simp: is_free_bit)
  qed
  finally show ?thesis .
qed

lemma clear_area_ok:
  assumes "area_ok a"
  shows "area_ok (clear_area a)" "records_hold (clear_area a)" "pages (clear_area a) = pages a" "p < pages a \<Longrightarrow> is_free (clear_area a) p"
proof -
  have n: "groups (clear_area a) = groups a"
    by (simp add: clear_area_def groups_def Let_def)
  show "area_ok (clear_area a)"
    using assms by (simp add: area_ok_def n) (simp add: clear_area_def Let_def)
  have words: "group_words (clear_area a) g = replicate 8 (- 1)" if "g < groups a" for g
    using that group_index [OF assms that]
    by (intro nth_equalityI) (simp_all add: group_words_nth clear_area_def Let_def)
  have "record_of (replicate 8 (- 1)) = \<lparr>g_head = 512, g_tail = 512, g_longest = 512\<rparr>"
    by (simp add: record_of_def numeral_eq_Suc WORD_def GROUP_PAGES_def)
  then show "records_hold (clear_area a)"
    using words by (auto simp: records_hold_iff n record_group_def) (auto simp: clear_area_def Let_def GROUP_PAGES_def nth_append)
  show "pages (clear_area a) = pages a"
    by (simp add: clear_area_def pages_def Let_def)
  show "is_free (clear_area a) p" if "p < pages a"
    using page_word [OF that] by (simp add: is_free_bit clear_area_def Let_def)
qed

lemma count_words:
  "sum_list (map count_ones ws) = length (filter (\<lambda>p. bit (ws ! (p div 64)) (p mod 64)) [0..<length ws * 64])"
proof (induction ws rule: rev_induct)
  case Nil
  then show ?case by simp
next
  case (snoc w ws)
  let ?n = "length ws * 64"
  have low: "filter (\<lambda>p. bit ((ws @ [w]) ! (p div 64)) (p mod 64)) [0..<?n] = filter (\<lambda>p. bit (ws ! (p div 64)) (p mod 64)) [0..<?n]"
    by (rule filter_cong) (auto simp: nth_append less_mult_imp_div_less)
  have "[?n..<?n + 64] = map (\<lambda>i. i + ?n) [0..<64]"
    by (simp only: map_add_upt add.commute)
  then have "length (filter (\<lambda>p. bit ((ws @ [w]) ! (p div 64)) (p mod 64)) [?n..<?n + 64]) =
      length (filter (\<lambda>i. bit ((ws @ [w]) ! ((i + ?n) div 64)) ((i + ?n) mod 64)) [0..<64])"
    by (simp only: filter_map length_map o_def)
  also have "\<dots> = count_ones w"
    unfolding count_ones_def WORD_def by (rule arg_cong [where f = length], rule filter_cong) auto
  finally have high: "length (filter (\<lambda>p. bit ((ws @ [w]) ! (p div 64)) (p mod 64)) [?n..<?n + 64]) = count_ones w" .
  have "[0..<length (ws @ [w]) * 64] = [0..<?n] @ [?n..<?n + 64]"
    using upt_add_eq_append [of 0 ?n 64] by (simp add: algebra_simps)
  with snoc.IH low high show ?case
    by (simp only: filter_append length_append map_append sum_list.append) simp
qed

lemma free_pages_count: "free_pages a = length (filter (is_free a) [0..<pages a])"
  using count_words [of "a_words a"] by (simp add: free_pages_def pages_def WORD_def is_free_bit [abs_def])

section \<open>The walk of every page\<close>

definition first_run :: "area \<Rightarrow> nat \<Rightarrow> nat \<Rightarrow> nat option" where
  "first_run a from_n len = find (\<lambda>s. list_all (\<lambda>i. is_free a (s + i)) [0..<len]) [from_n..<pages a + 1 - len]"

definition place_ref :: "nat \<Rightarrow> nat \<Rightarrow> area \<Rightarrow> nat option" where
  "place_ref lst len a =
     (if len = 0 \<or> pages a < len then None
      else case first_run a (min lst (pages a - len)) len of Some s \<Rightarrow> Some s | None \<Rightarrow> first_run a 0 len)"

lemma run_at_avail:
  assumes "0 < len"
  shows "run_at (avail a from_n) s len \<longleftrightarrow> from_n \<le> s \<and> s + len \<le> pages a \<and> list_all (\<lambda>i. is_free a (s + i)) [0..<len]"
    (is "?l \<longleftrightarrow> ?r")
proof
  assume l: ?l
  then have "avail a from_n (s + i)" if "i < len" for i
    using that by (simp add: run_at_def)
  from this [of 0] this [of "len - 1"] assms have "avail a from_n s" "avail a from_n (s + (len - 1))"
    by simp_all
  with l assms show ?r
    by (auto simp: run_at_def avail_def list_all_iff)
next
  assume ?r
  then show ?l by (auto simp: run_at_def avail_def list_all_iff)
qed

lemma first_run_eq:
  assumes "0 < len"
    "case found of Some s \<Rightarrow> first_at (avail a from_n) len s | None \<Rightarrow> \<forall>s. \<not> run_at (avail a from_n) s len"
  shows "first_run a from_n len = found"
proof (cases found)
  case None
  with assms show ?thesis
    by (auto simp: first_run_def find_None_iff run_at_avail)
next
  case (Some s)
  with assms(2) have "run_at (avail a from_n) s len" "\<forall>t < s. \<not> run_at (avail a from_n) t len"
    by (simp_all add: first_at_def)
  then have s: "from_n \<le> s" "s + len \<le> pages a" "list_all (\<lambda>i. is_free a (s + i)) [0..<len]"
    and t: "\<And>t. from_n \<le> t \<Longrightarrow> t < s \<Longrightarrow> \<not> list_all (\<lambda>i. is_free a (t + i)) [0..<len]"
    using assms(1) by (auto simp: run_at_avail)
  have "first_run a from_n len = Some s"
    unfolding first_run_def find_Some_iff
    by (rule exI [of _ "s - from_n"]) (use s t in auto)
  with Some show ?thesis by simp
qed

lemma first_run_settle [simp]: "first_run (snd (settle a)) from_n len = first_run a from_n len"
  by (simp add: first_run_def)

lemma first_fit_run:
  assumes "area_ok a" "settled a" "0 < len" "from_n < pages a"
  shows "fst (first_fit a from_n len reads) = first_run a from_n len"
    "snd (first_fit a from_n len reads) \<le> reads + (groups a + 2 * GROUP_WORDS)"
proof -
  obtain found reads' where f: "first_fit a from_n len reads = (found, reads')"
    by (cases "first_fit a from_n len reads")
  note first_fit [OF assms f]
  with first_run_eq [OF assms(3), of a from_n found] f
  show "fst (first_fit a from_n len reads) = first_run a from_n len"
    "snd (first_fit a from_n len reads) \<le> reads + (groups a + 2 * GROUP_WORDS)"
    by simp_all
qed

lemma place_shape:
  assumes "area_ok a" "records_hold a"
  shows "fst (place lst len reads a) = place_ref lst len a" "fst (snd (place lst len reads a)) \<le> reads + most_reads a"
    "snd (snd (place lst len reads a)) = snd (settle a)"
proof -
  let ?b = "snd (settle a)" and ?n = "reads + fst (settle a)" and ?m = "groups a + 2 * GROUP_WORDS"
  have eq: "place lst len reads a =
      (if len = 0 \<or> pages a < len then (None, ?n, ?b)
       else case first_fit ?b (min lst (pages a - len)) len ?n of
              (Some at, reads) \<Rightarrow> (Some at, reads, ?b)
            | (None, reads) \<Rightarrow> (case first_fit ?b 0 len reads of (r, reads) \<Rightarrow> (r, reads, ?b)))"
    by (simp add: place_def Let_def case_prod_beta)
  show "snd (snd (place lst len reads a)) = ?b"
    by (simp add: eq split: prod.split option.split)
  note ok = settle_ok [OF assms]
  have n: "fst (settle a) \<le> GROUP_WORDS"
    by (rule settle_reads)
  have "fst (place lst len reads a) = place_ref lst len a \<and> fst (snd (place lst len reads a)) \<le> reads + most_reads a"
  proof (cases "len = 0 \<or> pages a < len")
    case True
    with n show ?thesis by (auto simp: eq place_ref_def most_reads_def)
  next
    case False
    obtain f1 r1 where 1: "first_fit ?b (min lst (pages a - len)) len ?n = (f1, r1)"
      by (cases "first_fit ?b (min lst (pages a - len)) len ?n")
    obtain f2 r2 where 2: "first_fit ?b 0 len r1 = (f2, r2)"
      by (cases "first_fit ?b 0 len r1")
    from False first_fit_run [OF ok(1,2), of len "min lst (pages a - len)" ?n] 1
    have "f1 = first_run a (min lst (pages a - len)) len" "r1 \<le> ?n + ?m"
      by auto
    moreover from False first_fit_run [OF ok(1,2), of len 0 r1] 2 have "f2 = first_run a 0 len" "r2 \<le> r1 + ?m"
      by auto
    ultimately show ?thesis
      using False 1 2 n by (auto simp: eq place_ref_def most_reads_def split: option.split)
  qed
  then show "fst (place lst len reads a) = place_ref lst len a" "fst (snd (place lst len reads a)) \<le> reads + most_reads a"
    by simp_all
qed

section \<open>What an area promises\<close>

text \<open>
  C3: \<open>Area::place\<close>, which reads a record a group and the words of at most two groups a pass, finds the
  very run a walk of every page finds: the first free run of \<open>len\<close> pages at or after the start placed
  last, and else the first one of the area; nothing exactly when no run of the area fits.
\<close>

theorem place_is_first_run:
  assumes "area_ok a" "records_hold a"
  shows "fst (place lst len reads a) = place_ref lst len a"
  by (rule place_shape [OF assms])

text \<open>
  C35: one \<open>place\<close> reads at most \<open>most_reads\<close> words and records, the settle of the pending record
  included, and changes no page.
\<close>

theorem place_reads_bounded:
  assumes "area_ok a" "records_hold a"
  shows "fst (snd (place lst len reads a)) \<le> reads + most_reads a \<and> a_words (snd (snd (place lst len reads a))) = a_words a"
  using place_shape [OF assms, of lst len reads] by simp

text \<open>
  C11: from a cleared area, every sequence of page changes and searches keeps every record but the pending
  one what its words say, and leaves each page as its last change set it, free if none did; \<open>free_pages\<close>
  counts the free ones.
\<close>

datatype area_op = Set_page nat bool | Place nat nat

fun area_step :: "area_op \<Rightarrow> area \<Rightarrow> area" where
  "area_step (Set_page page free) a = set_page page free a"
| "area_step (Place lst len) a = snd (snd (place lst len 0 a))"

fun op_inside :: "nat \<Rightarrow> area_op \<Rightarrow> bool" where
  "op_inside n (Set_page page free) = (page < n)"
| "op_inside n (Place lst len) = True"

fun free_step :: "area_op \<Rightarrow> (nat \<Rightarrow> bool) \<Rightarrow> (nat \<Rightarrow> bool)" where
  "free_step (Set_page page free) f = f(page := free)"
| "free_step (Place lst len) f = f"

lemma area_step_ok:
  assumes "area_ok a" "records_hold a" "op_inside (pages a) op"
  shows "area_ok (area_step op a) \<and> records_hold (area_step op a) \<and> pages (area_step op a) = pages a \<and>
    (\<forall>p<pages a. is_free (area_step op a) p \<longleftrightarrow> free_step op (is_free a) p)"
proof (cases op)
  case (Set_page page free)
  with assms set_page_ok [of a page free] set_page_is_free [of page a] show ?thesis
    by simp
next
  case (Place lst len)
  with place_shape [OF assms(1,2), of lst len 0] settle_ok [OF assms(1,2)] show ?thesis
    by simp
qed

lemma free_step_cong: "(\<And>p. p < n \<Longrightarrow> f p = g p) \<Longrightarrow> p < n \<Longrightarrow> free_step op f p = free_step op g p"
  by (cases op) auto

lemma area_steps_ok:
  assumes "area_ok a" "records_hold a" "list_all (op_inside (pages a)) ops" "\<And>p. p < pages a \<Longrightarrow> is_free a p = f p"
  shows "area_ok (fold area_step ops a) \<and> records_hold (fold area_step ops a) \<and> pages (fold area_step ops a) = pages a \<and>
    (\<forall>p<pages a. is_free (fold area_step ops a) p \<longleftrightarrow> fold free_step ops f p)"
  using assms
proof (induction ops arbitrary: a f)
  case Nil
  then show ?case by simp
next
  case (Cons op ops)
  from Cons.prems have st: "area_ok (area_step op a)" "records_hold (area_step op a)" "pages (area_step op a) = pages a"
      "\<And>p. p < pages a \<Longrightarrow> is_free (area_step op a) p = free_step op (is_free a) p"
    using area_step_ok [of a op] by simp_all
  have "is_free (area_step op a) p = free_step op f p" if "p < pages (area_step op a)" for p
    using st(3,4) that free_step_cong [of "pages a" "is_free a" f p op] Cons.prems(4) by simp
  with Cons.IH [OF st(1,2), of "free_step op f"] Cons.prems(3) st(3) show ?case
    by simp
qed

theorem area_records_kept:
  assumes "area_ok a" "list_all (op_inside (pages a)) ops"
  shows "records_hold (fold area_step ops (clear_area a)) \<and>
    (\<forall>p<pages a. is_free (fold area_step ops (clear_area a)) p \<longleftrightarrow> fold free_step ops (\<lambda>_. True) p) \<and>
    free_pages (fold area_step ops (clear_area a)) = length (filter (fold free_step ops (\<lambda>_. True)) [0..<pages a])"
proof -
  let ?b = "fold area_step ops (clear_area a)" and ?f = "fold free_step ops (\<lambda>_. True)"
  have b: "records_hold ?b" "pages ?b = pages a" "\<forall>p<pages a. is_free ?b p \<longleftrightarrow> ?f p"
    using area_steps_ok [of "clear_area a" ops "\<lambda>_. True"] clear_area_ok [OF assms(1)] assms(2) by simp_all
  then have "filter (is_free ?b) [0..<pages ?b] = filter ?f [0..<pages a]"
    by (auto intro: filter_cong)
  with b free_pages_count [of ?b] show ?thesis by simp
qed

text \<open>C36: a group's record survives being kept as one word.\<close>

theorem group_round_trip: "group_decode (group_encode g) = g"
proof -
  have "(ucast (group_encode g) :: u16) = g_head g"
    "(ucast (drop_bit 16 (group_encode g)) :: u16) = g_tail g"
    "(ucast (drop_bit 32 (group_encode g)) :: u16) = g_longest g"
    by (rule bit_word_eqI; simp add: group_encode_def bit_ucast_iff bit_or_iff bit_push_bit_iff bit_drop_bit_eq;
        auto dest: bit_imp_le_length)+
  then show ?thesis by (simp add: group_decode_def)
qed

section \<open>One group\<close>

definition one_group :: area where
  "one_group = \<lparr>a_words = [-1, 0, 7, 0, 0, 0, 0, 0], a_groups = [\<lparr>g_head = 64, g_tail = 0, g_longest = 64\<rparr>], a_pending = Some 0\<rparr>"

lemma one_group_ok: "area_ok one_group" "records_hold one_group" "pages one_group = 512" "groups one_group = 1"
  by (simp_all add: one_group_def area_ok_def records_hold_def groups_def pages_def GROUP_WORDS_def GROUP_PAGES_def WORD_def)

lemma one_group_word: "r < 64 \<Longrightarrow> q < 8 \<Longrightarrow> bit (a_words one_group ! q) r \<longleftrightarrow> q = 0 \<or> q = 2 \<and> r < 3"
proof -
  assume "r < 64" "q < 8"
  have seven: "(7 :: u64) = mask 3"
    by (simp add: mask_eq_exp_minus_1)
  from \<open>q < 8\<close> have "q = 0 \<or> q = 1 \<or> q = 2 \<or> q = 3 \<or> q = 4 \<or> q = 5 \<or> q = 6 \<or> q = 7"
    by linarith
  then show ?thesis
    using \<open>r < 64\<close> by (elim disjE) (simp_all add: one_group_def seven bit_mask_iff)
qed

lemma one_group_free:
  assumes "p < 512"
  shows "is_free one_group p \<longleftrightarrow> p < 64 \<or> 128 \<le> p \<and> p < 131"
proof -
  define q r where "q = p div 64" and "r = p mod 64"
  then have p: "p = 64 * q + r" "r < 64"
    by simp_all
  with assms have "q < 8"
    by linarith
  with one_group_word [OF p(2) this] have "is_free one_group p \<longleftrightarrow> q = 0 \<or> q = 2 \<and> r < 3"
    by (simp add: is_free_bit q_def r_def)
  also have "\<dots> \<longleftrightarrow> p < 64 \<or> 128 \<le> p \<and> p < 131"
    using p by presburger
  finally show ?thesis .
qed

lemma place_ref_one_group: "place_ref 130 3 one_group = Some 0"
proof -
  have "first_run one_group 130 3 = None"
    by (auto simp: first_run_def find_None_iff one_group_ok one_group_free numeral_3_eq_3)
  moreover have "first_run one_group 0 3 = Some 0"
    unfolding first_run_def find_Some_iff
    by (rule exI [of _ 0]) (simp add: one_group_ok one_group_free numeral_3_eq_3)
  ultimately show ?thesis
    by (simp add: place_ref_def one_group_ok)
qed

theorem place_is_first_run_witness:
  "area_ok one_group \<and> records_hold one_group \<and> fst (place 130 3 0 one_group) = Some 0"
  using place_is_first_run [of one_group 130 3 0] one_group_ok place_ref_one_group by simp

theorem place_reads_bounded_witness:
  "area_ok one_group \<and> records_hold one_group \<and> fst (snd (place 500 3 0 one_group)) \<le> 42"
  using place_reads_bounded [of one_group 500 3 0] one_group_ok
  by (simp add: most_reads_def GROUP_WORDS_def GROUP_PAGES_def WORD_def)

theorem area_records_kept_witness:
  "area_ok one_group \<and> list_all (op_inside 512) [Set_page 3 False, Place 0 4] \<and>
   records_hold (fold area_step [Set_page 3 False, Place 0 4] (clear_area one_group)) \<and>
   \<not> is_free (fold area_step [Set_page 3 False, Place 0 4] (clear_area one_group)) 3"
proof -
  let ?ops = "[Set_page 3 False, Place 0 4]"
  have h: "list_all (op_inside (pages one_group)) ?ops"
    by (simp add: one_group_ok)
  note k = area_records_kept [OF one_group_ok(1) h]
  from k [THEN conjunct2, THEN conjunct1, rule_format, of 3] have "\<not> is_free (fold area_step ?ops (clear_area one_group)) 3"
    by (simp add: one_group_ok del: area_step.simps)
  with k [THEN conjunct1] h show ?thesis
    by (simp add: one_group_ok del: area_step.simps)
qed

end
