(* ===== verification/Timer.thy ===== *)
theory Timer
  imports Prelude
begin

text \<open>
  The kernel's timer (\<open>kernel/src/time.rs\<close>) and its hints (\<open>Hint\<close> in \<open>libs/stride/src/lib.rs\<close>): the earliest
  timeout and the earliest deadline with the budgets that pay for them, and which hart's hardware timer is
  armed for what.  The kernel's \<open>TIMER\<close> is a record that each function takes and returns, and the calling
  hart's index is an argument.  What a re-arm hands the hardware is returned beside it, in microseconds.
  The expiry of what is due is not modelled.
\<close>

section \<open>Hints\<close>

definition NEVER :: u64 where
  "NEVER = - 1"

record hint =
  due_at :: u64
  payer :: "u64 option"

definition hint_none :: hint where
  "hint_none = \<lparr>due_at = NEVER, payer = None\<rparr>"

definition lowered :: "hint \<Rightarrow> u64 \<Rightarrow> u64 option \<Rightarrow> hint" where
  "lowered hint t by_p =
     (if t < due_at hint then \<lparr>due_at = t, payer = by_p\<rparr>
      else if t = due_at hint \<and> payer hint \<noteq> by_p then \<lparr>due_at = due_at hint, payer = None\<rparr>
      else hint)"

definition due_on :: "hint \<Rightarrow> nat \<Rightarrow> u64 option list \<Rightarrow> u64 list \<Rightarrow> u64" where
  "due_on hint h runners arm =
     (if payer hint \<noteq> None \<and> runners ! h = payer hint then due_at hint
      else let runs = (case payer hint of None \<Rightarrow> None | Some p \<Rightarrow> if Some p \<in> set runners then Some p else None);
               covered = list_ex (\<lambda>(g, r, a). g \<noteq> h \<and> a \<le> due_at hint \<and> (case runs of None \<Rightarrow> True | Some p \<Rightarrow> r = Some p))
                           (enumerate 0 (zip runners arm))
           in if covered then NEVER else due_at hint)"

section \<open>The timer\<close>

record timer =
  threads :: hint
  ended :: bool
  budgets :: hint
  slice :: "u64 list"
  armed :: "u64 list"
  moved :: "u64 list"

definition timer_new :: "nat \<Rightarrow> timer" where
  "timer_new n =
     \<lparr>threads = hint_none, ended = False, budgets = hint_none, slice = replicate n NEVER, armed = replicate n NEVER,
      moved = replicate n NEVER\<rparr>"

definition note_timeout :: "u64 \<Rightarrow> u64 option \<Rightarrow> timer \<Rightarrow> timer" where
  "note_timeout deadline by_p t = t\<lparr>threads := lowered (threads t) deadline by_p\<rparr>"

definition timeout_ended :: "u64 \<Rightarrow> timer \<Rightarrow> timer" where
  "timeout_ended deadline t = t\<lparr>ended := ended t \<or> due_at (threads t) = deadline\<rparr>"

text \<open>
  What a live process has cached: the earliest timeout of its account, if it has one, and the id of the
  budget it is in.
\<close>

type_synonym cache = "u64 option \<times> u64 option"

definition earliest_timeouts :: "cache list \<Rightarrow> hint" where
  "earliest_timeouts caches =
     fold (\<lambda>(earliest, b) hint.
             case earliest of Some e \<Rightarrow> if e \<noteq> NEVER then lowered hint e b else hint | None \<Rightarrow> hint) caches hint_none"

definition settle_timeouts :: "cache list \<Rightarrow> timer \<Rightarrow> timer" where
  "settle_timeouts caches t = (if ended t then t\<lparr>ended := False, threads := earliest_timeouts caches\<rparr> else t)"

definition note_budget_deadline :: "u64 \<Rightarrow> u64 option \<Rightarrow> timer \<Rightarrow> timer" where
  "note_budget_deadline deadline by_p t = t\<lparr>budgets := lowered (budgets t) deadline by_p\<rparr>"

definition set_slice_end :: "nat \<Rightarrow> u64 \<Rightarrow> timer \<Rightarrow> timer" where
  "set_slice_end h t_end t = t\<lparr>slice := (slice t)[h := t_end], moved := (moved t)[h := NEVER]\<rparr>"

definition move_slice_end :: "nat \<Rightarrow> u64 \<Rightarrow> timer \<Rightarrow> timer" where
  "move_slice_end h t_end t =
     (let t = (if armed t ! h = slice t ! h then t\<lparr>moved := (moved t)[h := slice t ! h]\<rparr> else t)
      in t\<lparr>slice := (slice t)[h := t_end]\<rparr>)"

definition rearm :: "nat \<Rightarrow> u64 option list \<Rightarrow> cache list \<Rightarrow> timer \<Rightarrow> u64 option \<times> timer" where
  "rearm h runners caches t =
     (let t = settle_timeouts caches t;
          target = min (min (due_on (threads t) h runners (armed t)) (due_on (budgets t) h runners (armed t))) (slice t ! h);
          early = (armed t ! h = moved t ! h \<and> target > armed t ! h)
      in if target \<noteq> armed t ! h \<and> \<not> early then (Some target, t\<lparr>armed := (armed t)[h := target]\<rparr>) else (None, t))"

definition timer_due :: "u64 \<Rightarrow> cache list \<Rightarrow> timer \<Rightarrow> bool \<times> timer" where
  "timer_due now caches t =
     (let t = settle_timeouts caches t in (due_at (threads t) \<le> now \<or> due_at (budgets t) \<le> now, t))"

definition on_interrupt :: "nat \<Rightarrow> bool \<Rightarrow> u64 option list \<Rightarrow> cache list \<Rightarrow> timer \<Rightarrow> u64 option \<times> timer" where
  "on_interrupt h from_user runners caches t =
     (let t = t\<lparr>armed := (armed t)[h := 0]\<rparr> in if from_user then (None, t) else rearm h runners caches t)"

section \<open>Some hart comes by each item\<close>

definition comes_by :: "u64 list \<Rightarrow> hint \<Rightarrow> bool" where
  "comes_by arm hint \<longleftrightarrow> (\<exists>g<length arm. arm ! g \<le> due_at hint)"

lemma due_on_cases:
  assumes "length runners = length arm"
  shows "due_on hint h runners arm = due_at hint \<or> (\<exists>g<length arm. g \<noteq> h \<and> arm ! g \<le> due_at hint)"
  using assms by (fastforce simp: due_on_def Let_def list_ex_iff in_set_enumerate_eq split: if_splits)

lemma comes_by_rearmed:
  assumes "length runners = length arm" "h < length arm" "a \<le> due_on hint h runners arm"
  shows "comes_by (arm[h := a]) hint"
proof (cases "due_on hint h runners arm = due_at hint")
  case True
  with assms(2,3) show ?thesis
    by (auto simp: comes_by_def intro!: exI [of _ h])
next
  case False
  with due_on_cases [OF assms(1)] obtain g where "g < length arm" "g \<noteq> h" "arm ! g \<le> due_at hint"
    by blast
  then show ?thesis
    by (auto simp: comes_by_def intro!: exI [of _ g])
qed

lemma due_on_payer: "payer hint \<noteq> None \<Longrightarrow> runners ! h = payer hint \<Longrightarrow> due_on hint h runners arm = due_at hint"
  by (simp add: due_on_def)

text \<open>A re-arm leaves the hart's timer armed no later than its target, and touches no other hart's.\<close>

lemma rearm_armed:
  assumes "h < length (armed t)" "rearm h runners caches t = (s, t')"
  shows "\<exists>a. armed t' = (armed t)[h := a] \<and> a \<le> due_on (threads t') h runners (armed t) \<and>
    a \<le> due_on (budgets t') h runners (armed t) \<and> a \<le> slice t' ! h"
proof -
  let ?t = "settle_timeouts caches t"
  define m where "m = min (min (due_on (threads ?t) h runners (armed t)) (due_on (budgets ?t) h runners (armed t))) (slice ?t ! h)"
  have m: "m \<le> due_on (threads ?t) h runners (armed t)" "m \<le> due_on (budgets ?t) h runners (armed t)" "m \<le> slice ?t ! h"
    unfolding m_def by (meson min.cobounded1 min.cobounded2 order_trans)+
  have keep: "armed ?t = armed t"
    by (simp add: settle_timeouts_def)
  have r: "rearm h runners caches t =
      (if m \<noteq> armed t ! h \<and> \<not> (armed t ! h = moved ?t ! h \<and> armed t ! h < m)
       then (Some m, ?t\<lparr>armed := (armed t)[h := m]\<rparr>) else (None, ?t))"
    by (simp only: rearm_def Let_def keep m_def)
  show ?thesis
  proof (cases "m \<noteq> armed t ! h \<and> \<not> (armed t ! h = moved ?t ! h \<and> armed t ! h < m)")
    case True
    with r assms(2) m show ?thesis by auto
  next
    case False
    then have "armed t ! h \<le> m" by auto
    with r False assms(2) m keep show ?thesis
      by (intro exI [of _ "armed t ! h"]) auto
  qed
qed

text \<open>
  C37: whatever was noted, ended or moved before, once a hart has re-armed its timer some hart's timer comes
  by the earliest timeout and some hart's by the earliest deadline; the hart's own comes by the end of its
  running slice, and by each of the two items whose payer it runs.
\<close>

theorem rearm_comes_by:
  assumes "h < length (armed t)" "length runners = length (armed t)" "rearm h runners caches t = (s, t')"
  shows "comes_by (armed t') (threads t') \<and> comes_by (armed t') (budgets t') \<and> armed t' ! h \<le> slice t' ! h \<and>
    (\<forall>hint \<in> {threads t', budgets t'}. payer hint \<noteq> None \<and> runners ! h = payer hint \<longrightarrow> armed t' ! h \<le> due_at hint)"
proof -
  obtain a where a: "armed t' = (armed t)[h := a]" "a \<le> due_on (threads t') h runners (armed t)"
    "a \<le> due_on (budgets t') h runners (armed t)" "a \<le> slice t' ! h"
    using rearm_armed [OF assms(1,3)] by blast
  have "comes_by (armed t') (threads t')" "comes_by (armed t') (budgets t')"
    using comes_by_rearmed [OF assms(2,1)] a by simp_all
  moreover have "armed t' ! h = a"
    using a(1) assms(1) by simp
  ultimately show ?thesis
    using a(2-4) due_on_payer [of _ runners h "armed t"] by auto
qed

definition sample_timer :: timer where
  "sample_timer = note_timeout 50 (Some 7) ((timer_new 2)\<lparr>slice := [90, 40]\<rparr>)"

theorem rearm_comes_by_witness:
  "0 < length (armed sample_timer) \<and> length [Some 7, None :: u64 option] = length (armed sample_timer) \<and>
   rearm 0 [Some 7, None] [] sample_timer = (Some 50, sample_timer\<lparr>armed := [50, NEVER]\<rparr>) \<and>
   comes_by [50, NEVER] \<lparr>due_at = 50, payer = Some 7\<rparr>"
proof -
  have r: "rearm 0 [Some 7, None] [] sample_timer = (Some 50, sample_timer\<lparr>armed := [50, NEVER]\<rparr>)"
    by code_simp
  have l: "0 < length (armed sample_timer)" "length [Some 7, None :: u64 option] = length (armed sample_timer)"
    by (simp_all add: sample_timer_def note_timeout_def timer_new_def)
  from rearm_comes_by [OF l r] have "comes_by [50, NEVER] (threads sample_timer)"
    by simp
  then have "comes_by [50, NEVER] \<lparr>due_at = 50, payer = Some 7\<rparr>"
    by (simp add: sample_timer_def note_timeout_def lowered_def timer_new_def hint_none_def NEVER_def)
  with r l show ?thesis by blast
qed

section \<open>A hint is the earliest item\<close>

text \<open>The items a recomputation lowers the hint to: the earliest timeouts that are not \<open>NEVER\<close>.\<close>

definition cached_items :: "cache list \<Rightarrow> (u64 \<times> u64 option) list" where
  "cached_items caches = [(e, b). (Some e, b) \<leftarrow> caches, e \<noteq> NEVER]"

definition payers_at :: "(u64 \<times> u64 option) list \<Rightarrow> u64 \<Rightarrow> u64 option set" where
  "payers_at items t = {b. (t, b) \<in> set items}"

definition hint_of :: "(u64 \<times> u64 option) list \<Rightarrow> hint \<Rightarrow> bool" where
  "hint_of items hint \<longleftrightarrow>
     (if items = [] then hint = hint_none
      else payers_at items (due_at hint) \<noteq> {} \<and> (\<forall>t < due_at hint. payers_at items t = {}) \<and>
           (\<forall>p. payer hint = Some p \<longleftrightarrow> payers_at items (due_at hint) = {Some p}))"

lemma payers_at_snoc: "payers_at (items @ [(e, b)]) t = (if t = e then insert b (payers_at items t) else payers_at items t)"
  by (auto simp: payers_at_def)

lemma never_max: "e \<noteq> NEVER \<Longrightarrow> e < NEVER"
  unfolding NEVER_def by (simp add: less_le)

lemma payers_insert: "ps \<noteq> {} \<Longrightarrow> insert b ps = {Some p} \<longleftrightarrow> b = Some p \<and> ps = {Some p}"
  by auto

lemma lowered_hint_of:
  assumes "hint_of items hint" "e \<noteq> NEVER"
  shows "hint_of (items @ [(e, b)]) (lowered hint e b)"
proof (cases "items = []")
  case True
  with assms never_max [OF assms(2)] show ?thesis
    by (auto simp: hint_of_def lowered_def hint_none_def payers_at_def)
next
  case False
  let ?ps = "payers_at items (due_at hint)"
  have ps: "?ps \<noteq> {}" "\<And>t. t < due_at hint \<Longrightarrow> payers_at items t = {}" "\<And>p. payer hint = Some p \<longleftrightarrow> ?ps = {Some p}"
    using assms(1) False by (simp_all add: hint_of_def)
  consider "e < due_at hint" | "e = due_at hint" | "due_at hint < e"
    by (rule linorder_cases)
  then show ?thesis
  proof cases
    case 1
    then show ?thesis
      using ps(2) by (simp add: hint_of_def lowered_def payers_at_snoc)
  next
    case 2
    have "payer (lowered hint e b) = Some p \<longleftrightarrow> b = Some p \<and> payer hint = Some p" for p
      using 2 by (auto simp: lowered_def)
    moreover have "due_at (lowered hint e b) = due_at hint"
      using 2 by (simp add: lowered_def)
    ultimately show ?thesis
      using 2 ps by (simp add: hint_of_def payers_at_snoc payers_insert subset_singleton_iff)
  next
    case 3
    then have "lowered hint e b = hint"
      by (auto simp: lowered_def)
    moreover have "payers_at (items @ [(e, b)]) t = payers_at items t" if "t \<le> due_at hint" for t
      using 3 that by (auto simp: payers_at_snoc)
    ultimately show ?thesis
      using ps by (simp add: hint_of_def)
  qed
qed

lemma lowered_fold: "hint_of items hint \<Longrightarrow> \<forall>(e, b) \<in> set later. e \<noteq> NEVER \<Longrightarrow>
    hint_of (items @ later) (fold (\<lambda>(e, b) hint. lowered hint e b) later hint)"
proof (induction later arbitrary: items hint)
  case (Cons m later)
  obtain e b where m: "m = (e, b)" by force
  with Cons.prems have "hint_of (items @ [m]) (lowered hint e b)"
    by (auto intro: lowered_hint_of)
  from Cons.IH [OF this] Cons.prems(2) m show ?case
    by simp
qed simp

lemma cached_items_Cons: "cached_items (c # cs) =
    (case c of (Some e, b) \<Rightarrow> if e \<noteq> NEVER then (e, b) # cached_items cs else cached_items cs | (None, b) \<Rightarrow> cached_items cs)"
  by (simp add: cached_items_def split: prod.split option.split)

lemma cached_items_finite: "\<forall>(e, b) \<in> set (cached_items cs). e \<noteq> NEVER"
  by (induction cs) (auto simp: cached_items_Cons cached_items_def [of "[]"] split: option.splits if_splits)

lemma fold_caches:
  "fold (\<lambda>(earliest, b) hint.
      case earliest of Some e \<Rightarrow> if e \<noteq> NEVER then lowered hint e b else hint | None \<Rightarrow> hint) cs hint =
   fold (\<lambda>(e, b) hint. lowered hint e b) (cached_items cs) hint"
  by (induction cs arbitrary: hint) (auto simp: cached_items_Cons cached_items_def [of "[]"] split: option.splits)

text \<open>
  C38: the timeouts' hint recomputed from the processes' caches, and lowered since to the waits that blocked,
  is the earliest of them all: its instant is one of theirs and none is earlier, and it names a payer
  exactly when every item of that instant is that payer's; with none of them, it is the hint of no item.
\<close>

theorem hint_is_earliest:
  assumes "ended t" "\<forall>(e, b) \<in> set waits. e \<noteq> NEVER"
  shows "hint_of (cached_items caches @ waits) (threads (fold (\<lambda>(e, b). note_timeout e b) waits (settle_timeouts caches t)))"
proof -
  have "threads (fold (\<lambda>(e, b). note_timeout e b) ws u) = fold (\<lambda>(e, b) hint. lowered hint e b) ws (threads u)" for ws u
    by (induction ws arbitrary: u) (auto simp: note_timeout_def)
  moreover have "hint_of (cached_items caches) (earliest_timeouts caches)"
    using lowered_fold [of "[]" hint_none, OF _ cached_items_finite] by (simp add: earliest_timeouts_def fold_caches hint_of_def)
  ultimately show ?thesis
    using lowered_fold [OF _ assms(2)] assms(1) by (simp add: settle_timeouts_def)
qed

theorem hint_is_earliest_witness:
  "hint_of [(70, Some 3), (50, Some 7), (50, Some 8)] \<lparr>due_at = 50, payer = None\<rparr>"
  using hint_is_earliest [of "(timer_new 2)\<lparr>ended := True\<rparr>" "[(50, Some 8)]" "[(Some 70, Some 3), (None, None), (Some 50, Some 7)]"]
  by (simp add: timer_new_def note_timeout_def settle_timeouts_def earliest_timeouts_def lowered_def hint_none_def cached_items_def NEVER_def)

end
