(* ===== verification/Spec2Isabelle.thy ===== *)
theory Spec2Isabelle
  imports Prelude Stride_System Sys_Abi Ipc_System Ticket_System Console_System Tlb Runs_System Timer
begin

text \<open>
  A verification development of Redoubt, a microkernel operating system in Rust for RISC-V (rv64).

  \<^bold>\<open>The program.\<close>  The kernel (\<open>kernel/src\<close>) runs threads of processes that pay from budgets, passes
  messages between them through endpoints, and maps memory.  What it decides with is kept in libraries
  with no unsafe code, which the kernel calls over its own tables: which budget runs next
  (\<open>libs/stride\<close>), the registers and records of a system call (\<open>libs/sys\<close>), the queues of waiting
  threads and messages (\<open>libs/ipclist\<close>), where a mapping is placed (\<open>libs/runs\<close>), which translations a
  page-table write leaves stale (\<open>libs/paging/src/tlb.rs\<close>), who may write the console
  (\<open>libs/conhold\<close>), which hart's timer comes by what is due (\<open>Hint\<close> of \<open>libs/stride\<close>), and which ticket of the kernel lock comes next (\<open>libs/ticket\<close>, used by
  \<open>kernel/src/cell.rs\<close>).  A trap takes the kernel lock, decodes the call, changes the queues and the
  budgets, reconciles the stride queue with them, picks the next budget and releases the lock.  The
  development models these libraries, the lock, the kernel's console and its timer.

  \<^bold>\<open>Conventions\<close> (\<open>Prelude\<close>).  A machine integer is a word of its width, so that addition wraps where
  the source's does; saturating arithmetic is written out; \<open>usize\<close> is 64 bits wide where its width shows
  and a natural number where it counts or indexes.  A struct is a record, an enum a datatype, a
  \<open>Result\<close> the sum \<open>error + 'a\<close>.  A function that panics or may not return has an option as its result,
  and a theorem that it returns says so.  Where only the checked build traps an overflow, a pass wraps as in a
  release build, while a group's count (\<open>count_add\<close>) traps as in the checked one.

  \<^bold>\<open>The stride queue\<close> (\<open>libs/stride/src/lib.rs\<close>).  \<open>Stride\<close> has the arithmetic of a budget's state
  (\<open>charge\<close>, \<open>rescale\<close>, \<open>lift\<close>) and the order of ranks; \<open>Stride_Queue\<close> the queue's dense arrays and every
  operation on them; \<open>Stride_Harts\<close> the queue wired to a runner for each hart (\<open>Wiring\<close>, \<open>Harts\<close>,
  \<open>Cpu\<close>).  The budgets, which the kernel keeps, are a record of functions.  \<open>Stride_Refine\<close> reads the
  arrays as a finite map; \<open>Stride_Inv\<close> and \<open>Stride_Wired\<close> prove that every operation keeps the
  invariant; \<open>Stride_System\<close> is the wiring as a state machine, one rule for each entry of \<open>sched.rs\<close>.
  Shown: charges are exact and, within the cap of one charge, do not depend on how runtime is split; a
  change of weight and the destruction of a child keep what is owed, and a change undone restores a pass
  at or above the floor; from every reachable state a reconcile leaves a queue the audit accepts, and the
  audit is exact; a pick ends with the lowest rank that can run; a repick never reaches its
  \<open>unreachable!\<close>.

  \<^bold>\<open>The system call ABI\<close> (\<open>libs/sys/src\<close>).  \<open>Sys_Regs\<close> has the slots, their readers and writers, and the
  locales \<open>slot_codec\<close> and \<open>arg_codec\<close>, the contract of a two-sided codec, interpreted for every kind of
  argument; \<open>Sys_Call\<close> the calls, \<open>Sys_Ret\<close> the results, \<open>Sys_Record\<close> the records (with locales for
  lists of slots and message bodies), \<open>Sys_Error\<close> the table of errors, \<open>Sys_Range\<close> the splitting of long
  ranges.  \<open>Sys_Codec\<close> and \<open>Sys_Abi\<close> show that each codec accepts exactly what it writes, that decoding
  fails only with errors the table lists, that an error reaches the caller of every call, and that the chunks
  of a range cover it.

  \<^bold>\<open>The IPC lists\<close> (\<open>libs/ipclist/src/lib.rs\<close>).  \<open>Ipc_Words\<close> has the words of the kernel's pages as a
  store, the sixteen lists and the operations on a list; \<open>Ipc_Groups\<close> the groups of queued messages.
  \<open>Ipc_Links\<close> says when the words are a well-formed list and what each operation does to it;
  \<open>Ipc_Merge\<close> and \<open>Ipc_Sort\<close> treat the merge sort on the links, \<open>Ipc_Audit\<close> the audit, \<open>Ipc_Fifo\<close> the
  lists used as queues, by the locale \<open>fifo_list\<close> interpreted for the five of them.  \<open>Ipc_System\<close> shows that
  the sort is the stable sort, insertion keeps the order, the queues are first in first out, and the
  audits return on any words; of the groups, only their audit is proved to return.

  \<^bold>\<open>The kernel lock\<close> (\<open>kernel/src/cell.rs\<close>, \<open>libs/ticket/src/lib.rs\<close>).  \<open>Ticket\<close> has one step for each access of
  a hart to a shared word, and the runs as their interleavings; \<open>Ticket_Inv\<close> the invariant;
  \<open>Ticket_System\<close> shows exclusion, the refinement of a queue, that no wake is lost, that no wait exceeds
  the number of harts, and that the harts are never all stuck.  The runs are interleavings, as for
  sequentially consistent accesses; those of the waits and releases are so in the source, and in the checked
  build the draw and its count, while the reads of \<open>serving\<close> that end a wait are \<open>Acquire\<close> and the checked
  build's records \<open>Relaxed\<close>: weaker behaviours of these are not modelled.

  \<^bold>\<open>The console\<close> (\<open>libs/conhold/src/lib.rs\<close>, \<open>kernel/src/debug/console.rs\<close>).  \<open>Console\<close> has the hold and
  the console over it, the serial port being the bytes sent; \<open>Console_System\<close> shows that the kernel's
  lines come out whole and in order, and exactly when a holder is told that its line was ended; the lemma
  \<open>ending_forgotten\<close> shows that one record for all holders can lose an answer.

  \<^bold>\<open>TLB flushes\<close> (\<open>libs/paging/src/tlb.rs\<close>).  \<open>Tlb\<close> has the records of stale translations, the flushes and
  the log, and shows that a flush covers a record exactly when it drops all that the record stands for.

  \<^bold>\<open>Free runs\<close> (\<open>libs/runs/src/lib.rs\<close>).  \<open>Runs\<close> has the words and the group records of a placement area
  and the search; \<open>Runs_Bits\<close> the word operations, \<open>Runs_Search\<close> the search block by block,
  \<open>Runs_Record\<close> what a record says, \<open>Runs_Area\<close> the search over the groups.  \<open>Runs_System\<close> shows that the
  search finds what a walk of every page finds, within the documented number of reads, and that the
  records are kept.

  \<^bold>\<open>The timer\<close> (\<open>kernel/src/time.rs\<close>, \<open>Hint\<close> in \<open>libs/stride/src/lib.rs\<close>).  \<open>Timer\<close> has the hints, the slices and what
  each hart is armed for, and shows that after every re-arm some hart comes by each item, and that a
  recomputed hint is the earliest item with its payer.  The processes' cached timeouts are a list.

  \<^bold>\<open>Loops and bounds.\<close>  A loop over a structure in memory that may be malformed is a
  \<open>partial_function\<close> into option, and the theorems prove its result is \<open>Some\<close> on well-formed words, or on
  any words for the audits.  The doubling of \<open>longest\<close> is bounded by 7 steps: 2 to the 7th exceeds the 64
  bits of a word, and \<open>Runs_Bits\<close> proves the length found is the longest.  Every other loop is a total
  function.

  \<^bold>\<open>Not modelled.\<close>  The kernel's own tables (processes, threads, handles, budgets, frames, page tables) and the call
  handlers over them (\<open>message.rs\<close>, \<open>mem.rs\<close>, \<open>sched.rs\<close>, \<open>budget.rs\<close>, the expiry of \<open>time.rs\<close> and others) live in raw frames
  reached through the physmap, together with assembly, traps and devices.  The marks beside the stride queue
  (\<open>libs/stride/src/marks.rs\<close>) and the page-table walk (\<open>libs/paging/src/lib.rs\<close>) are not modelled, and
  neither is what lies outside the kernel: the file systems, wire protocols, steward, runtime, servers,
  userland, loader and firmware.  The project's executable model, tests and tools are not part of the
  system.  Of the modelled files, the tests, the \<open>ecall\<close> instruction, the run-time-checked cell under the
  lock, the choice of the printing hart and the wrapping of console lines are left out.
\<close>

end
